(* ===== verification/Prelude.thy ===== *)
theory Prelude
  imports Main "HOL-Library.Word" "HOL-Library.Multiset"
begin

text \<open>
  Shared vocabulary of the development: the machine integer types the crates use, the
  standard-library bit functions on \<^verbatim>\<open>u32\<close> that the channels call
  (\<^verbatim>\<open>leading_zeros\<close>, \<^verbatim>\<open>count_ones\<close>, \<^verbatim>\<open>reverse_bits\<close>), the flag test that
  \<^verbatim>\<open>bitflags!\<close> generates, and generic lemmas on words, lists, functions and
  multisets that several components use.  The named collections below gather the facts the
  component proofs share.
\<close>

unbundle bit_operations_syntax

named_theorems slot_simps \<open>set view of the reservation bits of a channel word\<close>

section \<open>Machine integers\<close>

type_synonym u32 = "32 word"
type_synonym u64 = "64 word"

text \<open>\<^verbatim>\<open>u32::MAX\<close>, and the flag test \<open>contains\<close> of a \<^verbatim>\<open>bitflags!\<close> type:
  all bits of the flag are set.\<close>

definition u32_max :: u32 where
  "u32_max = - 1"

lemma u32_max_nonzero: "u32_max \<noteq> 0"
  by (simp add: u32_max_def)

definition contains :: "'w::len word \<Rightarrow> 'w word \<Rightarrow> bool" where
  "contains w flag \<longleftrightarrow> w AND flag = flag"

text \<open>\<^verbatim>\<open>u32::count_ones\<close> and \<^verbatim>\<open>u32::leading_zeros\<close>; \<^verbatim>\<open>u32::reverse_bits\<close> is
  \<^const>\<open>word_reverse\<close>.\<close>

definition count_ones :: "'w::len word \<Rightarrow> nat" where
  "count_ones w = length (filter (bit w) [0..<LENGTH('w)])"

definition leading_zeros :: "'w::len word \<Rightarrow> nat" where
  "leading_zeros w = length (takeWhile (\<lambda>i. \<not> bit w (LENGTH('w) - Suc i)) [0..<LENGTH('w)])"

lemma word_eq_bits: "(v :: 'w::len word) = w \<longleftrightarrow> (\<forall>j<LENGTH('w). bit v j \<longleftrightarrow> bit w j)"
  by (auto intro: bit_word_eqI)

lemma count_ones_card: "count_ones (w :: 'w::len word) = card {j. bit w j}"
proof -
  have "{j. bit w j} = set (filter (bit w) [0..<LENGTH('w)])"
    by (auto dest: bit_imp_le_length)
  moreover have "distinct (filter (bit w) [0..<LENGTH('w)])"
    by simp
  ultimately show ?thesis
    unfolding count_ones_def by (metis distinct_card)
qed

lemma finite_bits [simp]: "finite {j. bit (w :: 'w::len word) j}"
  by (rule finite_subset [of _ "{..<LENGTH('w)}"]) (auto dest: bit_imp_le_length)

lemma count_ones_mono:
  assumes "\<And>j. bit v j \<Longrightarrow> bit w j"
  shows "count_ones (v :: 'w::len word) \<le> count_ones w"
  unfolding count_ones_card by (rule card_mono) (use assms in auto)

lemma count_ones_0 [simp]: "count_ones 0 = 0"
  by (simp add: count_ones_card)

lemma count_ones_eq_0_iff: "count_ones w = 0 \<longleftrightarrow> w = 0"
  by (auto simp: count_ones_card intro: bit_word_eqI)

lemma count_ones_pos: "w \<noteq> 0 \<Longrightarrow> 0 < count_ones w"
  using count_ones_eq_0_iff [of w] by auto

text \<open>The index \<open>leading_zeros\<close> finds is the first set bit from the left.\<close>

lemma leading_zeros_le: "leading_zeros (w :: 'w::len word) \<le> LENGTH('w)"
  unfolding leading_zeros_def using length_takeWhile_le [of _ "[0..<LENGTH('w)]"] by simp

lemma leading_zeros_bit:
  assumes "leading_zeros (w :: 'w::len word) < LENGTH('w)"
  shows "bit w (LENGTH('w) - Suc (leading_zeros w))"
proof -
  let ?P = "\<lambda>i. \<not> bit w (LENGTH('w) - Suc i)"
  have "\<not> ?P ([0..<LENGTH('w)] ! length (takeWhile ?P [0..<LENGTH('w)]))"
    using assms unfolding leading_zeros_def by (intro nth_length_takeWhile) simp
  then show ?thesis
    using assms unfolding leading_zeros_def by simp
qed

lemma leading_zeros_before:
  assumes "i < leading_zeros (w :: 'w::len word)"
  shows "\<not> bit w (LENGTH('w) - Suc i)"
proof -
  let ?P = "\<lambda>i. \<not> bit w (LENGTH('w) - Suc i)"
  have i: "i < length (takeWhile ?P [0..<LENGTH('w)])"
    using assms by (simp add: leading_zeros_def)
  then have "?P (takeWhile ?P [0..<LENGTH('w)] ! i)"
    using nth_mem set_takeWhileD by metis
  moreover have "takeWhile ?P [0..<LENGTH('w)] ! i = i"
    using i leading_zeros_le [of w] by (simp add: takeWhile_nth leading_zeros_def)
  ultimately show ?thesis by simp
qed

lemma leading_zeros_leI:
  assumes "bit (w :: 'w::len word) (LENGTH('w) - Suc i)" "i < LENGTH('w)"
  shows "leading_zeros w \<le> i"
  using assms leading_zeros_before [of i w] by (meson not_le)

section \<open>Results\<close>

text \<open>\<^verbatim>\<open>Result<T, E>\<close> is the sum type with the error on the left, as the whole
  development uses it.\<close>

type_synonym ('e, 'a) result = "'e + 'a"

section \<open>Generic lemmas\<close>

lemma mset_set_Un_disjoint:
  "finite A \<Longrightarrow> finite B \<Longrightarrow> A \<inter> B = {} \<Longrightarrow> mset_set (A \<union> B) = mset_set A + mset_set B"
  by (simp add: mset_set_Union)

lemma image_mset_mset_set_cong:
  "(\<And>x. x \<in> A \<Longrightarrow> f x = g x) \<Longrightarrow> image_mset f (mset_set A) = image_mset g (mset_set A)"
  by (cases "finite A") (auto intro: image_mset_cong)

lemma count_small:
  fixes n :: u32
  assumes "unat n < 2 ^ 31"
  shows "\<not> n > u32_max div 2"
proof -
  have "unat (u32_max div 2 :: u32) = 2 ^ 31 - 1"
    by (simp add: u32_max_def unat_div unsigned_minus_1_eq_mask mask_eq_exp_minus_1)
  then show ?thesis using assms by (simp add: word_less_nat_alt)
qed

end
