(* ===== verification/Request_Mask.thy ===== *)
theory Request_Mask
  imports Prelude
begin

text \<open>
  The pure bit arithmetic of \<^verbatim>\<open>bags/src/mpmc.rs\<close>: the status flags, the request
  mask a sender starts from (\<^verbatim>\<open>compute_request_mask\<close>), the trimming of a free mask
  to the number of items (\<^verbatim>\<open>clear_extra_bits\<close>) and the left-to-right walk over a
  mask (\<^verbatim>\<open>drain_mask\<close>).  Slot \<open>i\<close> of the bag is bit \<open>31 - i\<close> of a channel word;
  bits 0 and 1 are the two status flags.
\<close>

section \<open>Status flags and slots\<close>

definition COUNTERPARTY_DEAD :: u32 where
  "COUNTERPARTY_DEAD = push_bit 0 1"

definition SLEEPING :: u32 where
  "SLEEPING = push_bit 1 1"

definition status_all :: u32 where
  "status_all = COUNTERPARTY_DEAD OR SLEEPING"

definition mpmc_n :: nat where
  "mpmc_n = 30"


lemma COUNTERPARTY_DEAD_eq: "COUNTERPARTY_DEAD = 1"
  by (simp add: COUNTERPARTY_DEAD_def)

lemma SLEEPING_eq: "SLEEPING = 2"
  by (simp add: SLEEPING_def)

lemma status_all_eq: "status_all = 3"
  by (simp add: status_all_def COUNTERPARTY_DEAD_eq SLEEPING_eq)

text \<open>The limit \<^verbatim>\<open>Sender::_VALIDATE\<close> would check: its two assertions on \<open>N\<close>.
  Nothing refers to that constant, so the compiler never evaluates it.\<close>

definition VALIDATE :: "nat \<Rightarrow> bool" where
  "VALIDATE n \<longleftrightarrow> n < 32 - count_ones status_all \<and> n > 0"

text \<open>The slots named by a word: slot \<open>i\<close> is the bit \<open>i\<close> from the left.\<close>

definition slots :: "u32 \<Rightarrow> nat set" where
  "slots w = {i. i < mpmc_n \<and> bit w (31 - i)}"

section \<open>The request mask\<close>

definition high_bit :: u32 where
  "high_bit = push_bit 31 1"

text \<open>The function asserts that the bias is a slot; its callers check that before they use the mask.\<close>

definition bias_assert :: "u32 \<Rightarrow> bool" where
  "bias_assert bias \<longleftrightarrow> unat bias < mpmc_n"

definition compute_request_mask :: "nat \<Rightarrow> nat \<Rightarrow> u32 \<Rightarrow> u32" where
  "compute_request_mask n available_items bias =
     (let available = min available_items n;
          mask = signed_drop_bit (available - 1) high_bit
      in if bias = 0 then mask
         else let num_status_bits = count_ones status_all;
                  overstepped = word_rotr (unat bias + num_status_bits) mask
              in (overstepped AND signed_drop_bit (unat bias - 1) high_bit)
                 OR push_bit num_status_bits overstepped)"

fun clear_low_bits :: "nat \<Rightarrow> nat \<Rightarrow> u32 \<Rightarrow> u32" where
  "clear_low_bits set_bits limit m =
     (if set_bits > limit then clear_low_bits (set_bits - 1) limit (m AND (m - 1)) else m)"

declare clear_low_bits.simps [simp del]

definition clear_extra_bits :: "u32 \<Rightarrow> nat \<Rightarrow> bool \<Rightarrow> u32" where
  "clear_extra_bits m limit direction =
     (let set_bits = count_ones m;
          m = (if direction then word_reverse m else m);
          m = clear_low_bits set_bits limit m
      in if direction then word_reverse m else m)"

section \<open>Walking over a mask\<close>

text \<open>One iteration of the loop of \<^verbatim>\<open>drain_mask\<close>: the slot to visit and the mask that
  is left, or \<^const>\<open>None\<close> for the \<^verbatim>\<open>break\<close>.\<close>

definition drain_next :: "nat \<Rightarrow> u32 \<Rightarrow> (nat \<times> u32) option" where
  "drain_next n m =
     (let i = leading_zeros m
      in if i \<ge> n then None else Some (i, m AND NOT (push_bit (32 - i - 1) 1)))"

lemma mpmc_n_eq [slot_simps]: "mpmc_n = 30"
  by (simp add: mpmc_n_def)

definition status_free :: "u32 \<Rightarrow> bool" where
  "status_free w \<longleftrightarrow> w AND status_all = 0"

lemma bit_DEAD [slot_simps]: "bit COUNTERPARTY_DEAD j \<longleftrightarrow> j = 0"
  by (simp add: COUNTERPARTY_DEAD_def bit_1_iff)

lemma bit_SLEEPING [slot_simps]: "bit SLEEPING j \<longleftrightarrow> j = 1"
  unfolding SLEEPING_def bit_push_bit_iff by (auto simp: bit_1_iff)

lemma bit_status_all [slot_simps]: "bit status_all j \<longleftrightarrow> j = 0 \<or> j = 1"
  by (simp add: status_all_def bit_or_iff slot_simps)

lemma bit_u32_max [slot_simps]: "bit u32_max j \<longleftrightarrow> j < 32"
  by (simp add: u32_max_def)

lemma contains_bits: "contains w f \<longleftrightarrow> (\<forall>j<LENGTH('w). bit f j \<longrightarrow> bit w j)" for w :: "'w::len word"
  unfolding contains_def word_eq_bits bit_and_iff by blast

lemma disjoint_bits: "w AND f = 0 \<longleftrightarrow> (\<forall>j<LENGTH('w). bit f j \<longrightarrow> \<not> bit w j)" for w :: "'w::len word"
  unfolding word_eq_bits bit_and_iff by auto

lemma contains_DEAD [slot_simps]: "contains w COUNTERPARTY_DEAD \<longleftrightarrow> bit w 0"
  by (simp add: contains_bits slot_simps)

lemma contains_SLEEPING [slot_simps]: "contains w SLEEPING \<longleftrightarrow> bit w 1"
  by (simp add: contains_bits slot_simps)

lemma status_free_iff: "status_free w \<longleftrightarrow> \<not> bit w 0 \<and> \<not> bit w 1"
  unfolding status_free_def disjoint_bits bit_status_all by (auto dest: spec [of _ 0] spec [of _ 1])

lemma slots_iff: "i \<in> slots w \<longleftrightarrow> i < 30 \<and> bit w (31 - i)"
  by (simp add: slots_def slot_simps)

lemma finite_slots [simp]: "finite (slots w)"
  by (rule finite_subset [of _ "{..<30}"]) (auto simp: slots_iff)

lemma slots_lt: "i \<in> slots w \<Longrightarrow> i < 30"
  by (simp add: slots_iff)

lemma slots_0 [simp]: "slots 0 = {}"
  by (auto simp: slots_iff)

lemma slots_or [slot_simps]: "slots (v OR w) = slots v \<union> slots w"
  by (auto simp: slots_iff bit_or_iff)

lemma slots_and [slot_simps]: "slots (v AND w) = slots v \<inter> slots w"
  by (auto simp: slots_iff bit_and_iff)

lemma slots_not [slot_simps]: "slots (NOT w) = {..<30} - slots w"
  by (auto simp: slots_iff bit_not_iff)

lemma slots_status [slot_simps]:
  "slots COUNTERPARTY_DEAD = {}" "slots SLEEPING = {}" "slots status_all = {}"
  by (auto simp: slots_iff slot_simps)

lemma slots_max [slot_simps]: "slots u32_max = {..<30}"
  by (auto simp: slots_iff slot_simps)

lemma word_eq_slotsI:
  assumes "slots v = slots w" "bit v 0 = bit w 0" "bit v 1 = bit w 1"
  shows "v = w"
proof (rule bit_word_eqI)
  fix j assume j: "j < LENGTH(32)"
  show "bit v j = bit w j"
  proof (cases "j < 2")
    case True
    with assms show ?thesis by (auto simp: less_2_cases_iff)
  next
    case False
    with j have "31 - j < 30" and e: "31 - (31 - j) = j" by auto
    then have "31 - j \<in> slots v \<longleftrightarrow> bit v j" "31 - j \<in> slots w \<longleftrightarrow> bit w j"
      by (simp_all add: slots_iff)
    with assms(1) show ?thesis by simp
  qed
qed

lemma count_ones_slots:
  assumes "status_free w"
  shows "count_ones w = card (slots w)"
proof -
  have "j \<in> (\<lambda>i. 31 - i) ` slots w" if "bit w j" for j
  proof -
    have "j < 32" using that bit_imp_le_length by fastforce
    moreover have "j \<noteq> 0" "j \<noteq> 1"
      using that assms unfolding status_free_iff by metis+
    ultimately have "31 - j < 30" "31 - (31 - j) = j" by auto
    with that show ?thesis by (intro image_eqI [of _ _ "31 - j"]) (auto simp: slots_iff)
  qed
  then have "{j. bit w j} = (\<lambda>i. 31 - i) ` slots w"
    by (auto simp: slots_iff)
  moreover have "inj_on (\<lambda>i. 31 - i) (slots w)"
    by (rule inj_onI) (auto dest!: slots_lt)
  ultimately show ?thesis
    by (simp add: count_ones_card card_image)
qed

lemma status_free_eq_0_iff: "status_free w \<Longrightarrow> w = 0 \<longleftrightarrow> slots w = {}"
  by (metis card_eq_0_iff count_ones_eq_0_iff count_ones_slots finite_slots)

text \<open>The test every sender makes on a channel word: some slot is free.\<close>

lemma all_slots_taken_iff: "w OR status_all = u32_max \<longleftrightarrow> slots w = {..<30}"
proof
  assume "w OR status_all = u32_max"
  then have "slots (w OR status_all) = {..<30}" by (simp add: slot_simps)
  then show "slots w = {..<30}" by (simp add: slot_simps)
next
  assume "slots w = {..<30}"
  then show "w OR status_all = u32_max"
    by (intro word_eq_slotsI) (auto simp: slot_simps bit_or_iff)
qed

lemma u32_max_less_iff: "w < u32_max \<longleftrightarrow> w \<noteq> u32_max"
  by (simp add: u32_max_def word_order.not_eq_extremum)

text \<open>The test every receiver makes: some item is committed.\<close>

lemma items_pos_iff: "w AND NOT status_all > 0 \<longleftrightarrow> slots w \<noteq> {}"
proof -
  have "status_free (w AND NOT status_all)"
    by (simp add: status_free_iff bit_and_iff bit_not_iff slot_simps)
  moreover have "slots (w AND NOT status_all) = slots w"
    by (auto simp: slot_simps dest: slots_lt)
  ultimately show ?thesis
    using status_free_eq_0_iff word_gt_0 by metis
qed

lemma items_eq_0_iff: "w AND NOT status_all = 0 \<longleftrightarrow> slots w = {}"
  using items_pos_iff [of w] word_gt_0 by auto

section \<open>The request mask claims a cyclic window\<close>

lemma mod_30: "x < 60 \<Longrightarrow> x mod 30 = (if x < 30 then x else x - 30)" for x :: nat
  by (simp add: mod_if)

lemma mod_32: "x < 64 \<Longrightarrow> x mod 32 = (if x < 32 then x else x - 32)" for x :: nat
  by (simp add: mod_if)

lemma bit_arith_shift_high_bit:
  "k \<le> 31 \<Longrightarrow> bit (signed_drop_bit k high_bit) j \<longleftrightarrow> 31 - k \<le> j \<and> j < 32"
  unfolding high_bit_def bit_signed_drop_bit_iff bit_push_bit_iff by (auto simp: bit_1_iff)

lemma count_ones_status_all: "count_ones status_all = 2"
  by code_simp

lemma bit_request_mask:
  assumes "0 < items" "unat bias < 30"
  shows "bit (compute_request_mask 30 items bias) j \<longleftrightarrow>
    2 \<le> j \<and> j < 32 \<and> (31 - j + 30 - unat bias) mod 30 < min items 30"
proof -
  define a where "a = min items 30"
  define b where "b = unat bias"
  have a: "0 < a" "a \<le> 30" using assms by (auto simp: a_def)
  have b: "b < 30" using assms by (simp add: b_def)
  have m: "bit (signed_drop_bit (a - 1) high_bit) k \<longleftrightarrow> 32 - a \<le> k \<and> k < 32" for k
    using a by (subst bit_arith_shift_high_bit) auto
  show ?thesis
  proof (cases "b = 0")
    case True
    then have "bias = 0" by (simp add: b_def unat_eq_0)
    then have "compute_request_mask 30 items bias = signed_drop_bit (a - 1) high_bit"
      by (simp add: compute_request_mask_def a_def)
    moreover have "(31 - j + 30 - b) mod 30 = 31 - j" if "2 \<le> j" "j < 32" for j
      using that True by (simp add: mod_if)
    ultimately show ?thesis
      using a True m [of j] by (auto simp: a_def [symmetric] b_def [symmetric])
  next
    case False
    let ?o = "word_rotr (b + 2) (signed_drop_bit (a - 1) high_bit) :: 32 word"
    have "bias \<noteq> 0" using False by (auto simp: b_def)
    then have eq: "compute_request_mask 30 items bias =
        (?o AND signed_drop_bit (b - 1) high_bit) OR push_bit 2 ?o"
      by (simp add: compute_request_mask_def a_def b_def count_ones_status_all Let_def)
    have o: "bit ?o k \<longleftrightarrow> k < 32 \<and> 32 - a \<le> (k + (b + 2)) mod 32" for k
      unfolding bit_word_rotr_iff m by simp
    have s: "bit (signed_drop_bit (b - 1) high_bit) k \<longleftrightarrow> 32 - b \<le> k \<and> k < 32" for k
      using b False by (subst bit_arith_shift_high_bit) auto
    have "bit (compute_request_mask 30 items bias) j \<longleftrightarrow> j < 32 \<and>
      ((32 - a \<le> (j + (b + 2)) mod 32 \<and> 32 - b \<le> j) \<or>
       (2 \<le> j \<and> 32 - a \<le> (j - 2 + (b + 2)) mod 32))"
      unfolding eq bit_or_iff bit_and_iff bit_push_bit_iff o s by auto
    also have "\<dots> \<longleftrightarrow> 2 \<le> j \<and> j < 32 \<and> (31 - j + 30 - b) mod 30 < a"
      using a b False by (auto simp: mod_30 mod_32 split: if_splits)
    finally show ?thesis by (simp add: a_def b_def)
  qed
qed


lemma card_cyclic_window:
  assumes "b < 30" "a \<le> (30 :: nat)"
  shows "card {i. i < 30 \<and> (i + 30 - b) mod 30 < a} = a"
proof -
  have eq: "{i. i < 30 \<and> (i + 30 - b) mod 30 < a} = (\<lambda>k. (k + b) mod 30) ` {..<a}"
  proof (intro equalityI subsetI)
    fix i assume "i \<in> {i. i < 30 \<and> (i + 30 - b) mod 30 < a}"
    then show "i \<in> (\<lambda>k. (k + b) mod 30) ` {..<a}"
      using assms by (intro image_eqI [of _ _ "(i + 30 - b) mod 30"]) (auto simp: mod_30)
  next
    fix i assume "i \<in> (\<lambda>k. (k + b) mod 30) ` {..<a}"
    then show "i \<in> {i. i < 30 \<and> (i + 30 - b) mod 30 < a}"
      using assms by (auto simp: mod_30)
  qed
  have "inj_on (\<lambda>k. (k + b) mod 30) {..<a}"
    using assms by (intro inj_onI) (auto simp: mod_30 split: if_splits)
  then show ?thesis
    unfolding eq by (simp add: card_image)
qed

lemma slots_request_mask:
  assumes "0 < items" "unat bias < 30"
  shows "slots (compute_request_mask 30 items bias) =
    {i. i < 30 \<and> (i + 30 - unat bias) mod 30 < min items 30}"
  using assms by (auto simp: slots_iff bit_request_mask ac_simps)

lemma status_free_request_mask:
  assumes "0 < items" "unat bias < 30"
  shows "status_free (compute_request_mask 30 items bias)"
  using assms by (simp add: status_free_iff bit_request_mask)

lemma card_request_mask:
  assumes "0 < items" "unat bias < 30"
  shows "card (slots (compute_request_mask 30 items bias)) = min items 30"
  using assms by (simp add: slots_request_mask card_cyclic_window del: min_less_iff_conj)

section \<open>Trimming a mask to the number of items\<close>

text \<open>\<open>m AND (m - 1)\<close> removes the lowest set bit.\<close>

lemma minus_1_exp_split:
  fixes q :: "'w::len word"
  shows "push_bit (Suc k) q + 2 ^ k - 1 = push_bit (Suc k) q OR mask k"
proof -
  have "push_bit (Suc k) q AND mask k = 0"
    by (auto simp: disjoint_bits bit_push_bit_iff bit_mask_iff)
  then have "push_bit (Suc k) q OR mask k = push_bit (Suc k) q + mask k"
    by (simp add: disjunctive_add_eq_or)
  then show ?thesis by (simp add: mask_eq_exp_minus_1)
qed

lemma bit_clear_lowest:
  fixes w :: "'w::len word"
  assumes k: "bit w k" and low: "\<And>j. j < k \<Longrightarrow> \<not> bit w j"
  shows "bit (w AND (w - 1)) j \<longleftrightarrow> bit w j \<and> j \<noteq> k"
proof -
  have kl: "k < LENGTH('w)" using k bit_imp_le_length by blast
  define q where "q = drop_bit (Suc k) w"
  have or: "w = push_bit (Suc k) q OR 2 ^ k"
  proof (rule bit_word_eqI)
    fix i assume "i < LENGTH('w)"
    then show "bit w i \<longleftrightarrow> bit (push_bit (Suc k) q OR 2 ^ k) i"
      unfolding q_def bit_or_iff bit_push_bit_iff bit_drop_bit_eq bit_exp_iff comp_def
      using k low [of i] kl by (cases i k rule: linorder_cases) auto
  qed
  have "push_bit (Suc k) q AND 2 ^ k = 0"
    unfolding disjoint_bits bit_push_bit_iff bit_exp_iff by auto
  then have "w = push_bit (Suc k) q + 2 ^ k"
    using or by (simp add: disjunctive_add_eq_or)
  then have "w - 1 = push_bit (Suc k) q OR mask k"
    using minus_1_exp_split [of k q] by (simp add: algebra_simps)
  then have "bit (w - 1) j \<longleftrightarrow> j < LENGTH('w) \<and> (Suc k \<le> j \<and> bit w j \<or> j < k)"
    by (auto simp: bit_or_iff bit_push_bit_iff bit_mask_iff q_def bit_drop_bit_eq
        dest: bit_imp_le_length simp del: push_bit_Suc)
  then show ?thesis
    using low by (auto simp: bit_and_iff not_less less_eq_Suc_le [symmetric] dest: bit_imp_le_length
        intro: le_neq_implies_less)
qed

lemma bit_clear_low_bits:
  assumes "s = card {j. bit m j}"
  shows "bit (clear_low_bits s limit m) j \<longleftrightarrow> bit m j \<and> card {k. bit m k \<and> j < k} < limit"
  using assms
proof (induction s limit m rule: clear_low_bits.induct)
  case (1 s limit m)
  show ?case
  proof (cases "s > limit")
    case False
    have "card {k. bit m k \<and> j < k} < card {k. bit m k}" if "bit m j"
      using that by (intro psubset_card_mono) auto
    with False "1.prems" show ?thesis
      by (subst clear_low_bits.simps) auto
  next
    case True
    then have "m \<noteq> 0" using "1.prems" by auto
    define l where "l = (LEAST k. bit m k)"
    have l: "bit m l" using \<open>m \<noteq> 0\<close> unfolding l_def using word_eq_bits [of m 0] by (auto intro: LeastI)
    have least: "\<not> bit m i" if "i < l" for i
      using that not_less_Least unfolding l_def by blast
    let ?m = "m AND (m - 1)"
    have bm: "bit ?m i \<longleftrightarrow> bit m i \<and> i \<noteq> l" for i
      using bit_clear_lowest [OF l least] .
    have "{i. bit ?m i} = {i. bit m i} - {l}" using bm by auto
    then have c: "s - 1 = card {i. bit ?m i}" using "1.prems" l by simp
    have up: "{k. bit ?m k \<and> j < k} = {k. bit m k \<and> j < k}" if "bit m j" for j
      using that bm least by auto
    have nl: "\<not> card {k. bit m k \<and> l < k} < limit"
    proof -
      have "{k. bit m k \<and> l < k} = {k. bit m k} - {l}" using least by (auto intro: linorder_cases)
      then show ?thesis using True "1.prems" l by simp
    qed
    have "bit (clear_low_bits s limit m) j \<longleftrightarrow> bit ?m j \<and> card {k. bit ?m k \<and> j < k} < limit"
      using True "1.IH" [OF True c] by (subst clear_low_bits.simps) simp
    also have "\<dots> \<longleftrightarrow> bit m j \<and> card {k. bit m k \<and> j < k} < limit"
      using bm up nl by auto
    finally show ?thesis .
  qed
qed


lemma bit_u32_lt: "bit m k \<Longrightarrow> k < 32" for m :: u32
  using bit_imp_le_length by fastforce

lemma bit_u32_flip: "bit m k \<Longrightarrow> 31 - (31 - k) = k" for m :: u32
  using bit_u32_lt by fastforce

lemma card_top_elements:
  fixes A :: "nat set"
  assumes "finite A"
  shows "card {j \<in> A. card {k \<in> A. j < k} < n} = min (card A) n"
  using assms
proof (induction "card A" arbitrary: A)
  case 0
  then show ?case by simp
next
  case (Suc c)
  then have ne: "A \<noteq> {}" by auto
  define l where "l = Min A"
  have l: "l \<in> A" "\<And>j. j \<in> A \<Longrightarrow> l \<le> j" using Suc.prems ne by (auto simp: l_def)
  let ?B = "A - {l}"
  have B: "card ?B = c" "finite ?B" using Suc l by auto
  have up: "{k \<in> ?B. j < k} = {k \<in> A. j < k}" if "j \<in> A" for j
    using l(2) [OF that] by auto
  have top: "{k \<in> A. l < k} = ?B" using l by (auto intro: le_neq_implies_less)
  have "j \<in> A \<and> card {k \<in> A. j < k} < n \<longleftrightarrow>
      j \<in> ?B \<and> card {k \<in> ?B. j < k} < n \<or> j = l \<and> c < n" for j
    using l(1) up [of j] by (cases "j = l"; cases "j \<in> A") (simp_all add: top B)
  then have "{j \<in> A. card {k \<in> A. j < k} < n} =
      {j \<in> ?B. card {k \<in> ?B. j < k} < n} \<union> (if c < n then {l} else {})"
    by auto
  moreover have "card {j \<in> ?B. card {k \<in> ?B. j < k} < n} = min c n"
    using Suc.hyps(1) [of ?B] B by simp
  ultimately show ?case
    using Suc.hyps(2) B by (auto simp: min_def)
qed

text \<open>Trimming keeps the \<open>limit\<close> leftmost bits, or the rightmost ones when
  \<open>direction\<close> is set.\<close>

lemma bit_clear_extra_bits:
  "bit (clear_extra_bits m limit direction) j \<longleftrightarrow>
    bit m j \<and> card {k. bit m k \<and> (if direction then k < j else j < k)} < limit"
proof (cases direction)
  case False
  then show ?thesis
    by (simp add: clear_extra_bits_def bit_clear_low_bits count_ones_card)
next
  case True
  let ?r = "word_reverse m"
  have rev: "bit ?r j \<longleftrightarrow> j < 32 \<and> bit m (31 - j)" for j
    by (simp add: bit_word_reverse_iff)
  have img: "{k. bit ?r k \<and> P k} = (\<lambda>k. 31 - k) ` {k. bit m k \<and> P (31 - k)}" for P
  proof (intro equalityI subsetI)
    fix k assume "k \<in> {k. bit ?r k \<and> P k}"
    then show "k \<in> (\<lambda>k. 31 - k) ` {k. bit m k \<and> P (31 - k)}"
      by (intro image_eqI [of _ _ "31 - k"]) (auto simp: rev)
  qed (auto simp: rev bit_u32_flip)
  have inj: "inj_on (\<lambda>k. 31 - k) {k. bit m k \<and> P k}" for P
    by (rule inj_onI) (auto dest!: bit_imp_le_length)
  have "card {k. bit ?r k} = card {k. bit m k}"
    using img [of "\<lambda>_. True"] inj [of "\<lambda>_. True"] by (simp add: card_image)
  then have low: "bit (clear_low_bits (count_ones m) limit ?r) k \<longleftrightarrow>
      bit ?r k \<and> card {i. bit ?r i \<and> k < i} < limit" for k
    by (intro bit_clear_low_bits) (simp add: count_ones_card)
  have "bit (clear_extra_bits m limit direction) j \<longleftrightarrow>
      j < 32 \<and> bit m j \<and> card {i. bit ?r i \<and> 31 - j < i} < limit"
    using True by (auto simp: clear_extra_bits_def bit_word_reverse_iff low dest: bit_imp_le_length)
  moreover have "card {i. bit ?r i \<and> 31 - j < i} = card {k. bit m k \<and> k < j}" if "j < 32"
  proof -
    have "{k. bit m k \<and> 31 - j < 31 - k} = {k. bit m k \<and> k < j}"
      using that by (auto dest: bit_u32_lt)
    then show ?thesis
      using img [of "\<lambda>i. 31 - j < i"] inj by (simp add: card_image)
  qed
  ultimately show ?thesis
    using True by (auto dest: bit_imp_le_length)
qed

lemma clear_extra_bits_subset: "bit (clear_extra_bits m limit direction) j \<Longrightarrow> bit m j"
  by (simp add: bit_clear_extra_bits)

lemma count_ones_clear_extra_bits:
  "count_ones (clear_extra_bits m limit direction) = min (count_ones m) limit"
proof (cases direction)
  case False
  have "{j. bit (clear_extra_bits m limit direction) j} =
      {j \<in> {j. bit m j}. card {k \<in> {j. bit m j}. j < k} < limit}"
    using False by (auto simp: bit_clear_extra_bits)
  then show ?thesis
    unfolding count_ones_card by (simp add: card_top_elements del: mem_Collect_eq)
next
  case True
  let ?A = "(\<lambda>j. 31 - j) ` {j. bit m j}"
  have inj: "inj_on (\<lambda>j. 31 - j) {j. bit m j \<and> P j}" for P
    by (rule inj_onI) (auto dest!: bit_imp_le_length)
  have eq: "{k \<in> ?A. 31 - j < k} = (\<lambda>j. 31 - j) ` {k. bit m k \<and> k < j}" if "bit m j" for j
  proof (intro equalityI subsetI)
    fix k assume "k \<in> {k \<in> ?A. 31 - j < k}"
    then obtain i where "k = 31 - i" "bit m i" "31 - j < 31 - i" by auto
    moreover have "i < j" using \<open>31 - j < 31 - i\<close> by arith
    ultimately show "k \<in> (\<lambda>j. 31 - j) ` {k. bit m k \<and> k < j}" by auto
  next
    fix k assume "k \<in> (\<lambda>j. 31 - j) ` {k. bit m k \<and> k < j}"
    then obtain i where i: "k = 31 - i" "bit m i" "i < j" by auto
    then have "31 - j < 31 - i" using bit_u32_lt [OF that] by arith
    with i show "k \<in> {k \<in> ?A. 31 - j < k}" by auto
  qed
  have c: "card {k \<in> ?A. 31 - j < k} = card {k. bit m k \<and> k < j}" if "bit m j" for j
    using that inj by (simp add: eq card_image)
  have "{j \<in> ?A. card {k \<in> ?A. j < k} < limit} =
      (\<lambda>j. 31 - j) ` {j. bit (clear_extra_bits m limit direction) j}"
    using True c by (auto simp: bit_clear_extra_bits)
  moreover have "card ?A = count_ones m"
    using inj [of "\<lambda>_. True"] by (simp add: card_image count_ones_card)
  moreover have "inj_on (\<lambda>j. 31 - j) {j. bit (clear_extra_bits m limit direction) j}"
    by (rule inj_onI) (auto dest!: bit_imp_le_length)
  ultimately show ?thesis
    using card_top_elements [of ?A limit] by (simp add: card_image count_ones_card)
qed


section \<open>The walk visits exactly the set slots, from the left\<close>

lemma leading_zeros_Min:
  assumes "slots m \<noteq> {}"
  shows "leading_zeros m = Min (slots m)"
proof (rule Min_eqI [symmetric])
  obtain i where i: "i \<in> slots m" using assms by auto
  have le: "leading_zeros m \<le> j" if "j \<in> slots m" for j
    using that leading_zeros_leI [of m j] by (simp add: slots_iff)
  then have "leading_zeros m < 30" using i by (fastforce dest: slots_lt)
  then show "leading_zeros m \<in> slots m"
    using leading_zeros_bit [of m] by (simp add: slots_iff)
  show "leading_zeros m \<le> j" if "j \<in> slots m" for j using that by (rule le)
qed simp

lemma leading_zeros_none: "slots m = {} \<longleftrightarrow> 30 \<le> leading_zeros m"
proof
  assume e: "slots m = {}"
  show "30 \<le> leading_zeros m"
  proof (rule ccontr)
    assume "\<not> 30 \<le> leading_zeros m"
    then have "leading_zeros m \<in> slots m"
      using leading_zeros_bit [of m] by (simp add: slots_iff)
    with e show False by simp
  qed
next
  assume "30 \<le> leading_zeros m"
  then show "slots m = {}"
    using leading_zeros_before [of _ m] by (auto simp: slots_iff)
qed

lemma bit_two_power: "bit (2 ^ k :: u32) j \<longleftrightarrow> j = k \<and> k < 32"
  by (auto simp: bit_exp_iff)

lemma slots_single: "i < 30 \<Longrightarrow> slots (2 ^ (31 - i)) = {i}"
  by (auto simp: slots_iff bit_two_power)

lemma drain_next_None [simp]: "drain_next 30 m = None \<longleftrightarrow> slots m = {}"
  by (simp add: drain_next_def leading_zeros_none Let_def)

lemma drain_next_Some:
  assumes "drain_next 30 m = Some (i, m')"
  shows "i \<in> slots m" "i = Min (slots m)" "slots m' = slots m - {i}"
    "bit m' 0 = bit m 0" "bit m' 1 = bit m 1"
proof -
  have ne: "slots m \<noteq> {}" using assms drain_next_None [of m] by force
  have i: "i = Min (slots m)" "m' = m AND NOT (push_bit (31 - i) 1)"
    using assms leading_zeros_Min [OF ne] by (auto simp: drain_next_def Let_def split: if_splits)
  show "i = Min (slots m)" by fact
  show mem: "i \<in> slots m" using ne i by simp
  then have "i < 30" by (rule slots_lt)
  then show "slots m' = slots m - {i}" "bit m' 0 = bit m 0" "bit m' 1 = bit m 1"
    unfolding i(2) by (auto simp: slot_simps slots_single bit_and_iff bit_not_iff bit_two_power
        dest: slots_lt)
qed

text \<open>\<^verbatim>\<open>drain_mask\<close> itself: the callback is a state transformer; \<^const>\<open>None\<close> is the
  panic of the shift \<^verbatim>\<open>1 << (u32::BITS - i - 1)\<close>, possible only for \<open>n > 32\<close>.\<close>

function drain_mask :: "nat \<Rightarrow> u32 \<Rightarrow> (nat \<Rightarrow> 's \<Rightarrow> 's) \<Rightarrow> 's \<Rightarrow> 's option" where
  "drain_mask n m f s =
     (case drain_next n m of
        None \<Rightarrow> Some s
      | Some (i, m') \<Rightarrow> if i < 32 then drain_mask n m' f (f i s) else None)"
  by pat_completeness auto
termination
proof (relation "measure (\<lambda>(n, m, f, s). count_ones m)")
  fix n :: nat and m m' :: u32 and f :: "nat \<Rightarrow> 's \<Rightarrow> 's" and s :: 's and x i
  assume "drain_next n m = Some x" "(i, m') = x" "i < 32"
  then have i: "i = leading_zeros m" "m' = m AND NOT (push_bit (31 - i) 1)" "i < 32"
    by (auto simp: drain_next_def Let_def split: if_splits)
  then have "bit m (31 - i)" using leading_zeros_bit [of m] by simp
  moreover have "\<not> bit m' (31 - i)" "\<And>j. bit m' j \<Longrightarrow> bit m j"
    using i by (auto simp: bit_and_iff bit_not_iff bit_two_power)
  ultimately have "{j. bit m' j} \<subset> {j. bit m j}" by blast
  then show "((n, m', f, f i s), n, m, f, s) \<in> measure (\<lambda>(n, m, f, s). count_ones m)"
    by (simp add: count_ones_card psubset_card_mono)
qed simp

declare drain_mask.simps [simp del]

lemma sorted_list_of_set_Min:
  assumes "finite A" "A \<noteq> {}"
  shows "sorted_list_of_set A = Min A # sorted_list_of_set (A - {Min A})"
  using assms sorted_list_of_set_nonempty by blast

lemma drain_mask_fold: "drain_mask 30 m f s = Some (fold f (sorted_list_of_set (slots m)) s)"
proof (induction "30 :: nat" m f s rule: drain_mask.induct)
  case (1 m f s)
  show ?case
  proof (cases "drain_next 30 m")
    case None
    then have "slots m = {}" by simp
    then show ?thesis by (subst drain_mask.simps) (simp add: None)
  next
    case (Some p)
    obtain i m' where p: "p = (i, m')" by (cases p)
    note d = drain_next_Some [OF Some [unfolded p]]
    have "i < 32" using d(1) slots_lt by fastforce
    moreover have "slots m \<noteq> {}" using d(1) by auto
    moreover have "drain_mask 30 m' f (f i s) = Some (fold f (sorted_list_of_set (slots m')) (f i s))"
      using "1" Some p \<open>i < 32\<close> by simp
    ultimately show ?thesis
      using Some p d by (subst drain_mask.simps) (simp add: sorted_list_of_set_Min [of "slots m"])
  qed
qed

end
