(* ===== verification/Memory.thy ===== *)
theory Memory
  imports Prelude
begin

text \<open>
  The memory model under both channels.  A channel has two atomic words (the one senders
  contend on and the one receivers contend on) and non-atomic cells that hold the values.
  All writes to the two words in the code are read-modify-write operations, so every word
  has one total modification order, every such operation reads the latest value, and the
  release sequence of a word is never broken: a word carries the join of everything that was
  ever released into it.

  Happens-before is tracked by views.  Every access of a cell, read or write, is a new epoch
  of the cell; a view says which epoch of each cell is known.  Every thread has the view it
  currently knows, the view it has read with relaxed operations and may still acquire with a
  fence, and the view it published with its last release fence.  An access of a cell is free
  of data races when the thread knows the cell's latest epoch, that is, when every earlier
  access happens before it.
\<close>

section \<open>Views\<close>

datatype chan_word = SendWord | RecvWord

datatype ordering = Relaxed | Acquire | Release

record views =
  v_epoch :: "nat \<Rightarrow> nat"
  v_msg :: "chan_word \<Rightarrow> nat \<Rightarrow> nat"
  v_cur :: "nat \<Rightarrow> nat \<Rightarrow> nat"
  v_acq :: "nat \<Rightarrow> nat \<Rightarrow> nat"
  v_rel :: "nat \<Rightarrow> nat \<Rightarrow> nat"

definition init_views :: views where
  "init_views = \<lparr>v_epoch = (\<lambda>_. 0), v_msg = (\<lambda>_ _. 0), v_cur = (\<lambda>_ _. 0),
     v_acq = (\<lambda>_ _. 0), v_rel = (\<lambda>_ _. 0)\<rparr>"

definition join :: "(nat \<Rightarrow> nat) \<Rightarrow> (nat \<Rightarrow> nat) \<Rightarrow> nat \<Rightarrow> nat" where
  "join f g = (\<lambda>i. max (f i) (g i))"

text \<open>A read-modify-write of word \<open>l\<close> by thread \<open>t\<close>.\<close>

fun rmw :: "ordering \<Rightarrow> nat \<Rightarrow> chan_word \<Rightarrow> views \<Rightarrow> views" where
  "rmw Relaxed t l v = v\<lparr>
     v_acq := (v_acq v)(t := join (v_acq v t) (v_msg v l)),
     v_msg := (v_msg v)(l := join (v_msg v l) (v_rel v t))\<rparr>"
| "rmw Acquire t l v = v\<lparr>
     v_cur := (v_cur v)(t := join (v_cur v t) (v_msg v l)),
     v_acq := (v_acq v)(t := join (v_acq v t) (v_msg v l)),
     v_msg := (v_msg v)(l := join (v_msg v l) (v_rel v t))\<rparr>"
| "rmw Release t l v = v\<lparr>
     v_acq := (v_acq v)(t := join (v_acq v t) (v_msg v l)),
     v_msg := (v_msg v)(l := join (v_msg v l) (v_cur v t))\<rparr>"

definition load_acquire :: "nat \<Rightarrow> chan_word \<Rightarrow> views \<Rightarrow> views" where
  "load_acquire t l v = v\<lparr>v_cur := (v_cur v)(t := join (v_cur v t) (v_msg v l))\<rparr>"

definition fence_acquire :: "nat \<Rightarrow> views \<Rightarrow> views" where
  "fence_acquire t v = v\<lparr>v_cur := (v_cur v)(t := join (v_cur v t) (v_acq v t))\<rparr>"

definition fence_release :: "nat \<Rightarrow> views \<Rightarrow> views" where
  "fence_release t v = v\<lparr>v_rel := (v_rel v)(t := v_cur v t)\<rparr>"

text \<open>A non-atomic access of cell \<open>i\<close>, and the condition that it races with nothing.\<close>

definition race_free :: "nat \<Rightarrow> nat \<Rightarrow> views \<Rightarrow> bool" where
  "race_free t i v \<longleftrightarrow> v_cur v t i = v_epoch v i"

definition access :: "nat \<Rightarrow> nat \<Rightarrow> views \<Rightarrow> views" where
  "access t i v = v\<lparr>v_epoch := (v_epoch v)(i := Suc (v_epoch v i)),
     v_cur := (v_cur v)(t := (v_cur v t)(i := Suc (v_epoch v i)))\<rparr>"

section \<open>Who knows the latest epoch\<close>

definition views_ok :: "views \<Rightarrow> bool" where
  "views_ok v \<longleftrightarrow> (\<forall>i. (\<forall>l. v_msg v l i \<le> v_epoch v i) \<and>
     (\<forall>t. v_cur v t i \<le> v_epoch v i \<and> v_acq v t i \<le> v_epoch v i \<and> v_rel v t i \<le> v_epoch v i))"

datatype holder = Msg chan_word | Cur nat | Acq nat | Rel nat

fun knows :: "views \<Rightarrow> holder \<Rightarrow> nat \<Rightarrow> bool" where
  "knows v (Msg l) i \<longleftrightarrow> v_msg v l i = v_epoch v i"
| "knows v (Cur t) i \<longleftrightarrow> v_cur v t i = v_epoch v i"
| "knows v (Acq t) i \<longleftrightarrow> v_acq v t i = v_epoch v i"
| "knows v (Rel t) i \<longleftrightarrow> v_rel v t i = v_epoch v i"

lemma race_free_knows: "race_free t i v \<longleftrightarrow> knows v (Cur t) i"
  by (simp add: race_free_def)

lemma views_ok_init [simp]: "views_ok init_views"
  by (simp add: views_ok_def init_views_def)

lemma knows_init [simp]: "knows init_views h i"
  by (cases h) (simp_all add: init_views_def)

lemma join_le: "f i \<le> e \<Longrightarrow> g i \<le> e \<Longrightarrow> join f g i \<le> e"
  by (simp add: join_def)

lemma views_ok_rmw [simp]: "views_ok v \<Longrightarrow> views_ok (rmw ord t l v)"
  by (cases ord) (auto simp: views_ok_def join_def)

lemma views_ok_load_acquire [simp]: "views_ok v \<Longrightarrow> views_ok (load_acquire t l v)"
  by (auto simp: views_ok_def load_acquire_def join_def)

lemma views_ok_fence_acquire [simp]: "views_ok v \<Longrightarrow> views_ok (fence_acquire t v)"
  by (auto simp: views_ok_def fence_acquire_def join_def)

lemma views_ok_fence_release [simp]: "views_ok v \<Longrightarrow> views_ok (fence_release t v)"
  by (auto simp: views_ok_def fence_release_def)

lemma views_ok_access [simp]: "views_ok v \<Longrightarrow> views_ok (access t i v)"
  by (auto simp: views_ok_def access_def intro: le_SucI)

text \<open>Synchronisation never loses knowledge, and hands it over as follows.\<close>

lemma knows_rmw [simp]:
  assumes "views_ok v" "knows v h i"
  shows "knows (rmw ord t l v) h i"
  using assms by (cases ord; cases h) (auto simp: views_ok_def join_def max_def intro: antisym)

lemma knows_fences [simp]:
  assumes "views_ok v" "knows v h i"
  shows "knows (fence_acquire t v) h i" "knows (load_acquire t l v) h i"
    "h \<noteq> Rel t \<Longrightarrow> knows (fence_release t v) h i"
  using assms by (cases h; auto simp: views_ok_def join_def max_def fence_acquire_def
      fence_release_def load_acquire_def intro: antisym)+

lemma rmw_reads:
  assumes "views_ok v" "knows v (Msg l) i"
  shows "knows (rmw ord t l v) (Acq t) i" "ord = Acquire \<Longrightarrow> knows (rmw ord t l v) (Cur t) i"
  using assms by (cases ord; auto simp: views_ok_def join_def max_def intro: antisym)+

lemma rmw_publishes:
  assumes "views_ok v"
  shows "knows v (Rel t) i \<Longrightarrow> ord \<noteq> Release \<Longrightarrow> knows (rmw ord t l v) (Msg l) i"
    "knows v (Cur t) i \<Longrightarrow> ord = Release \<Longrightarrow> knows (rmw ord t l v) (Msg l) i"
  using assms by (cases ord; auto simp: views_ok_def join_def max_def intro: antisym)+

lemma fence_acquire_knows: "views_ok v \<Longrightarrow> knows v (Acq t) i \<Longrightarrow> knows (fence_acquire t v) (Cur t) i"
  by (auto simp: views_ok_def join_def max_def fence_acquire_def intro: antisym)

lemma load_acquire_knows: "views_ok v \<Longrightarrow> knows v (Msg l) i \<Longrightarrow> knows (load_acquire t l v) (Cur t) i"
  by (auto simp: views_ok_def join_def max_def load_acquire_def intro: antisym)

lemma fence_release_knows: "knows v (Cur t) i \<Longrightarrow> knows (fence_release t v) (Rel t) i"
  by (simp add: fence_release_def)

lemma access_knows [simp]: "knows (access t i v) (Cur t) i"
  by (simp add: access_def)

lemma access_other [simp]: "j \<noteq> i \<Longrightarrow> knows (access t i v) h j \<longleftrightarrow> knows v h j"
  by (cases h) (auto simp: access_def)

declare knows.simps [simp del]
declare rmw.simps [simp del]

end
