(* ===== verification/Futex.thy ===== *)
theory Futex
  imports Prelude
begin

text \<open>
  The futex helpers of \<^verbatim>\<open>bags/src/lib.rs\<close>.  The kernel is not part of the program: its
  answers (which sleepers a wake call wakes, what a wait call returns) are arguments, and
  \<open>wake_allowed\<close> and \<open>wait_blocks\<close> state the documented contract of the two system calls.
\<close>

section \<open>Sleeping\<close>

datatype wait_result = WaitOk | WaitAgain | WaitIntr | WaitErr nat

text \<open>\<^verbatim>\<open>FUTEX_WAIT\<close> compares the word with the expected value and sleeps only when they
  are equal; otherwise it returns \<^verbatim>\<open>EAGAIN\<close> at once.\<close>

definition wait_blocks :: "u32 \<Rightarrow> u32 \<Rightarrow> bool" where
  "wait_blocks word expected \<longleftrightarrow> word = expected"

text \<open>\<^verbatim>\<open>atomic_sleep\<close> treats a wake-up, a changed word and an interrupt alike; any other
  error is unreachable with debug assertions and ignored without.\<close>

definition atomic_sleep :: "bool \<Rightarrow> wait_result \<Rightarrow> (string, unit) result" where
  "atomic_sleep debug_assertions r =
     (case r of
        WaitErr e \<Rightarrow> if debug_assertions then Inl ''Futex wait bug'' else Inr ()
      | _ \<Rightarrow> Inr ())"

section \<open>Waking\<close>

text \<open>The threads \<open>woken\<close> by a \<^verbatim>\<open>FUTEX_WAKE\<close> of at most \<open>waiters\<close> sleepers: they sleep on
  the word, they are at most \<open>waiters\<close>, and fewer only if nobody else sleeps on it.\<close>

definition wake_allowed :: "nat \<Rightarrow> (nat \<Rightarrow> bool) \<Rightarrow> u32 \<Rightarrow> nat list \<Rightarrow> bool" where
  "wake_allowed n_threads asleep waiters woken \<longleftrightarrow>
     distinct woken \<and> int (length woken) \<le> uint waiters \<and>
     (\<forall>t\<in>set woken. t < n_threads \<and> asleep t) \<and>
     (int (length woken) < uint waiters \<longrightarrow> (\<forall>t\<in>set [0..<n_threads]. asleep t \<longrightarrow> t \<in> set woken))"

text \<open>\<^verbatim>\<open>atomic_wake\<close> reports how many threads it woke, and an error as zero without debug
  assertions.\<close>

definition atomic_wake :: "bool \<Rightarrow> (nat, nat) result \<Rightarrow> (string, nat) result" where
  "atomic_wake debug_assertions r =
     (case r of
        Inr n \<Rightarrow> Inr n
      | Inl e \<Rightarrow> if debug_assertions then Inl ''Futex wake bug'' else Inr 0)"

lemma wake_allowed_none:
  assumes "wake_allowed n asleep waiters []" "waiters \<noteq> 0" "t < n"
  shows "\<not> asleep t"
  using assms by (auto simp: wake_allowed_def word_neq_0_conv word_less_def)

lemma wake_allowed_asleep: "wake_allowed n asleep k W \<Longrightarrow> t \<in> set W \<Longrightarrow> t < n \<and> asleep t"
  by (simp add: wake_allowed_def)

text \<open>The kernel always has a set of threads it may wake.\<close>

lemma wake_possible: "\<exists>W. wake_allowed n asleep k W"
proof
  let ?A = "filter asleep [0..<n]"
  let ?W = "take (unat k) ?A"
  have "distinct ?W" by (rule distinct_take) simp
  moreover have "int (length ?W) \<le> uint k"
  proof -
    have "length ?W \<le> unat k" by simp
    then have "int (length ?W) \<le> int (unat k)" by (simp only: of_nat_le_iff)
    then show ?thesis by (simp only: uint_nat)
  qed
  moreover have "t < n \<and> asleep t" if "t \<in> set ?W" for t using in_set_takeD [OF that] by auto
  moreover have "t \<in> set ?W" if "int (length ?W) < uint k" "t \<in> set [0..<n]" "asleep t" for t
  proof -
    have "int (length ?W) < int (unat k)" using that(1) by (simp only: uint_nat)
    then have "length ?A \<le> unat k" by (auto simp: min_def split: if_splits)
    then show ?thesis using that(2,3) by simp
  qed
  ultimately show "wake_allowed n asleep k ?W" unfolding wake_allowed_def by blast
qed

section \<open>The futex inside a 64-bit word\<close>

text \<open>The two 32-bit halves of a \<^verbatim>\<open>u64\<close> in memory order, and the half \<^verbatim>\<open>u64_to_futex\<close>
  points at.\<close>

definition u64_halves :: "bool \<Rightarrow> u64 \<Rightarrow> u32 list" where
  "u64_halves big_endian w =
     (if big_endian then [ucast (drop_bit 32 w), ucast w] else [ucast w, ucast (drop_bit 32 w)])"

definition u64_to_futex :: "bool \<Rightarrow> u64 \<Rightarrow> u32" where
  "u64_to_futex big_endian w =
     (if big_endian then u64_halves big_endian w ! 0 else u64_halves big_endian w ! (0 + 1))"

lemma u64_to_futex_high: "u64_to_futex big_endian w = ucast (drop_bit 32 w)"
  by (simp add: u64_to_futex_def u64_halves_def)

end
