(* ===== verification/Send_Buffer.thy ===== *)
theory Send_Buffer
  imports Prelude
begin

text \<open>
  The \<^verbatim>\<open>SendBuffer\<close> and \<^verbatim>\<open>SendBufferContainer\<close> traits of
  \<^verbatim>\<open>bags/src/mpmc.rs\<close>: how a sender proposes items, hands them over one by one and
  gets the rest back.  The traits are the locale \<open>send_buffer\<close>; the implementations for a
  single value and for \<^verbatim>\<open>&mut Vec<T>\<close> are the datatype \<open>buffer\<close> below, which
  interprets it.  The implementation for \<^verbatim>\<open>&mut ArrayVec<T, N>\<close> calls a third-party
  type: its \<open>len\<close> and \<open>pop\<close> are parameters with their documented laws.
\<close>

section \<open>The contract of the traits\<close>

text \<open>\<open>take\<close> and \<open>remit\<close> return \<^const>\<open>None\<close> where the code's
  \<^verbatim>\<open>unwrap_unchecked\<close> is undefined behaviour.  \<open>fresh\<close> marks the containers
  \<open>available_items\<close> returns.\<close>

locale send_buffer =
  fixes available_items :: "'b \<Rightarrow> nat"
    and take :: "'b \<Rightarrow> ('a \<times> 'b) option"
    and remit :: "'b \<Rightarrow> 'b option"
    and contents :: "'b \<Rightarrow> 'a list"
    and fresh :: "'b \<Rightarrow> bool"
  assumes available_contents: "fresh b \<Longrightarrow> available_items b = length (contents b)"
    and take_last: "contents b \<noteq> [] \<Longrightarrow> \<exists>b'. take b = Some (last (contents b), b') \<and>
        contents b' = butlast (contents b)"
    and remit_fresh: "fresh b \<Longrightarrow> remit b = Some b"
begin

text \<open>Taking \<open>n\<close> items, as the callback of \<^verbatim>\<open>drain_mask\<close> does once per slot.\<close>

fun take_n :: "nat \<Rightarrow> 'b \<Rightarrow> ('a list \<times> 'b) option" where
  "take_n 0 b = Some ([], b)"
| "take_n (Suc n) b =
     (case take b of
        None \<Rightarrow> None
      | Some (x, b') \<Rightarrow> map_option (\<lambda>(xs, b''). (x # xs, b'')) (take_n n b'))"

lemma take_never_stuck: "contents b \<noteq> [] \<Longrightarrow> take b \<noteq> None"
  using take_last by fastforce

lemma take_n_suffix:
  assumes "n \<le> length (contents b)"
  shows "\<exists>xs b'. take_n n b = Some (xs, b') \<and> length xs = n \<and> contents b = contents b' @ rev xs"
  using assms
proof (induction n arbitrary: b)
  case (Suc n)
  then have ne: "contents b \<noteq> []" by auto
  then obtain b1 where b1: "take b = Some (last (contents b), b1)" "contents b1 = butlast (contents b)"
    using take_last by blast
  have "n \<le> length (contents b1)" using b1(2) Suc.prems by simp
  then obtain xs b2 where r: "take_n n b1 = Some (xs, b2)" "length xs = n"
      "contents b1 = contents b2 @ rev xs"
    using Suc.IH by blast
  have "contents b = contents b1 @ [last (contents b)]" using b1(2) ne by simp
  then have "contents b = contents b2 @ rev (last (contents b) # xs)" using r(3) by simp
  with b1(1) r show ?case by auto
qed simp

end

section \<open>The implementations in the crate\<close>

datatype 'a buffer = Item "'a option" | VecBuf "'a list"

fun available_items :: "'a buffer \<Rightarrow> nat" where
  "available_items (Item _) = 1"
| "available_items (VecBuf xs) = length xs"

fun take_item :: "'a buffer \<Rightarrow> ('a \<times> 'a buffer) option" where
  "take_item (Item (Some x)) = Some (x, Item None)"
| "take_item (Item None) = None"
| "take_item (VecBuf xs) = (if xs = [] then None else Some (last xs, VecBuf (butlast xs)))"

fun remit :: "'a buffer \<Rightarrow> 'a buffer option" where
  "remit (Item (Some x)) = Some (Item (Some x))"
| "remit (Item None) = None"
| "remit (VecBuf xs) = Some (VecBuf xs)"

fun contents :: "'a buffer \<Rightarrow> 'a list" where
  "contents (Item None) = []"
| "contents (Item (Some x)) = [x]"
| "contents (VecBuf xs) = xs"

definition fresh :: "'a buffer \<Rightarrow> bool" where
  "fresh b \<longleftrightarrow> b \<noteq> Item None"

interpretation buf: send_buffer available_items take_item remit contents fresh
proof
  show "available_items b = length (contents b)" if "fresh b" for b :: "'a buffer"
    using that by (cases b rule: contents.cases) (auto simp: fresh_def)
  show "\<exists>b'. take_item b = Some (last (contents b), b') \<and> contents b' = butlast (contents b)"
    if "contents b \<noteq> []" for b :: "'a buffer"
    using that by (cases b rule: contents.cases) auto
  show "remit b = Some b" if "fresh b" for b :: "'a buffer"
    using that by (cases b rule: contents.cases) (auto simp: fresh_def)
qed

lemma fresh_simps [simp]: "fresh (VecBuf xs)" "fresh (Item (Some x))" "\<not> fresh (Item None)"
  by (simp_all add: fresh_def)

lemma take_item_Some:
  assumes "take_item d = Some (x, d')"
  shows "contents d = contents d' @ [x]"
  using assms by (cases d rule: contents.cases) (auto split: if_splits)

lemma take_item_None: "take_item d = None \<longleftrightarrow> contents d = []"
  by (cases d rule: contents.cases) auto

text \<open>\<^verbatim>\<open>&mut ArrayVec<T, N>\<close>: the container is the vector itself, and its methods are
  the vector's.\<close>

definition arrayvec_available :: "('v \<Rightarrow> nat) \<Rightarrow> 'v \<Rightarrow> nat" where
  "arrayvec_available len v = len v"

definition arrayvec_take :: "('v \<Rightarrow> ('a \<times> 'v) option) \<Rightarrow> 'v \<Rightarrow> ('a \<times> 'v) option" where
  "arrayvec_take pop v = pop v"

definition arrayvec_remit :: "'v \<Rightarrow> 'v option" where
  "arrayvec_remit v = Some v"

lemma send_buffer_arrayvec:
  assumes "\<And>v. len v = length (items v)"
    and "\<And>v. items v \<noteq> [] \<Longrightarrow> \<exists>v'. pop v = Some (last (items v), v') \<and> items v' = butlast (items v)"
  shows "send_buffer (arrayvec_available len) (arrayvec_take pop) arrayvec_remit items (\<lambda>_. True)"
  by unfold_locales (use assms in \<open>auto simp: arrayvec_available_def arrayvec_take_def arrayvec_remit_def\<close>)

end
