(* ===== verification/Mpmc.thy ===== *)
theory Mpmc
  imports Request_Mask Memory Futex Send_Buffer
begin

text \<open>
  The multi-producer multi-consumer bag of \<^verbatim>\<open>bags/src/mpmc.rs\<close> as a transition system.
  The shared state is the source's \<^verbatim>\<open>Inner\<close>; every thread runs at most one call, and a
  program counter names the next atomic operation of that call together with its local
  variables.  One step is one atomic operation on a channel word, one access of a bag slot, one
  fence or one futex call, so every interleaving of the threads is a run.

  The functions are followed operation by operation: \<open>Try\<dots>\<close> counters are inside
  \<^verbatim>\<open>Sender::try_send\<close>, \<open>Send\<dots>\<close> counters in the rest of \<^verbatim>\<open>Sender::send\<close>,
  \<open>Claim\<dots>\<close> counters inside \<^verbatim>\<open>Receiver::try_recv\<close>, \<open>Recv\<dots>\<close> counters in the rest of
  \<^verbatim>\<open>Receiver::recv\<close>, and the four \<open>\<dots>Drop\<dots>\<close> counters in the two \<^verbatim>\<open>Drop\<close>
  implementations.  Relaxed loads of the spin loops may return any value the word has held.
\<close>

section \<open>State\<close>

datatype 'a send_result = SendOk "'a buffer" | SendDisconnected "'a buffer" | SendFull "'a buffer"

datatype 'a recv_result = RecvOk "'a list" | RecvDisconnected | RecvEmpty

text \<open>What a call on a handle carries: the handle, its bias, and whether the call is the
  blocking \<^verbatim>\<open>send\<close> / \<^verbatim>\<open>recv\<close> or the \<^verbatim>\<open>try_\<close> variant.\<close>

datatype scall = SCall (sc_handle: nat) (sc_bias: u32) (sc_blocking: bool)

datatype rcall = RCall (rc_handle: nat) (rc_blocking: bool)

datatype 'a pc =
    Idle
  | SendRet "'a send_result"
  | RecvRet "'a recv_result"
  | TryReserve scall nat u32 "'a buffer"
  | TryFence scall u32 "'a buffer"
  | TryWrite scall u32 u32 "'a buffer"
  | TryCommit scall u32 "'a buffer"
  | TryWake scall "'a buffer"
  | SendSpin scall nat "'a buffer"
  | SendSleep scall u32 "'a buffer"
  | SendAsleep scall "'a buffer"
  | SendTorch scall "'a buffer"
  | SDropDead
  | SDropWake
  | ClaimAll rcall
  | ClaimRead rcall u32 u32 "'a list"
  | ClaimFence rcall u32 "'a list"
  | ClaimRelease rcall u32 "'a list"
  | ClaimWake rcall "'a list"
  | RecvSpin rcall nat
  | RecvSleep rcall u32
  | RecvAsleep rcall
  | RecvTorch rcall
  | RDropDead
  | RDropWake

text \<open>\<^verbatim>\<open>struct Inner\<close>.  \<^const>\<open>None\<close> is an uninitialised or moved-out slot.\<close>

record 'a inner =
  send :: u32
  recv :: u32
  num_senders :: u32
  num_receivers :: u32
  bag :: "nat \<Rightarrow> 'a option"

text \<open>The system: the live handles (with the senders' biases), the threads, the values each
  word has held, the memory views, and logs of the values written to and read from the bag.\<close>

record 'a sys = "'a inner" +
  senders :: "nat \<Rightarrow> u32 option"
  receivers :: "nat set"
  threads :: "nat \<Rightarrow> 'a pc"
  n_threads :: nat
  send_seen :: "u32 list"
  recv_seen :: "u32 list"
  mem :: views
  sent_log :: "'a list"
  recv_log :: "'a list"
  inner_dropped :: "'a list option"

text \<open>\<^verbatim>\<open>mpmc()\<close>: one sender with bias 0 and one receiver.\<close>

definition mpmc :: "nat \<Rightarrow> 'a sys" where
  "mpmc n = \<lparr>send = 0, recv = status_all, num_senders = 1, num_receivers = 1, bag = (\<lambda>_. None),
     senders = [0 \<mapsto> 0], receivers = {0}, threads = (\<lambda>_. Idle), n_threads = n,
     send_seen = [0], recv_seen = [status_all], mem = init_views,
     sent_log = [], recv_log = [], inner_dropped = None\<rparr>"

text \<open>What can go wrong, beyond the aborts the code asks for.\<close>

datatype fault =
    DataRace nat
  | UninitRead nat
  | LeakedWrite nat
  | TakeEmpty
  | RemitEmpty
  | CapacityExceeded
  | SpinUnderflow
  | DebugAssert
  | ShiftPanic

datatype 'a outcome = Next "'a sys" | Fault fault | Aborted string | Disabled

text \<open>The calls a client can start, and the moves of a running thread: its next operation, a
  relaxed load with the value it returns, a wake call with the threads the kernel wakes, and
  the interruption of a sleeping thread.\<close>

datatype 'a call =
    CallTrySend nat "'a buffer"
  | CallSend nat "'a buffer"
  | CallTryRecv nat
  | CallRecv nat
  | CloneSender nat nat
  | DropSender nat
  | CloneReceiver nat nat
  | DropReceiver nat
  | DropInner

datatype 'a action = Start "'a call" | Step | Load u32 | Woken "nat list" | Interrupt

section \<open>State updates\<close>

definition goto :: "nat \<Rightarrow> 'a pc \<Rightarrow> 'a sys \<Rightarrow> 'a sys" where
  "goto t p s = s\<lparr>threads := (threads s)(t := p)\<rparr>"

definition rmw_send :: "ordering \<Rightarrow> nat \<Rightarrow> u32 \<Rightarrow> 'a sys \<Rightarrow> 'a sys" where
  "rmw_send ord t w s = s\<lparr>send := w, send_seen := w # send_seen s, mem := rmw ord t SendWord (mem s)\<rparr>"

definition rmw_recv :: "ordering \<Rightarrow> nat \<Rightarrow> u32 \<Rightarrow> 'a sys \<Rightarrow> 'a sys" where
  "rmw_recv ord t w s = s\<lparr>recv := w, recv_seen := w # recv_seen s, mem := rmw ord t RecvWord (mem s)\<rparr>"

fun wake_pc :: "'a pc \<Rightarrow> 'a pc" where
  "wake_pc (SendAsleep c d) = SendTorch c d"
| "wake_pc (RecvAsleep c) = RecvTorch c"
| "wake_pc p = p"

definition wake :: "nat list \<Rightarrow> 'a sys \<Rightarrow> 'a sys" where
  "wake W s = s\<lparr>threads := (\<lambda>t. if t \<in> set W then wake_pc (threads s t) else threads s t)\<rparr>"

fun send_asleep :: "'a pc \<Rightarrow> bool" where
  "send_asleep (SendAsleep c d) = True"
| "send_asleep _ = False"

fun recv_asleep :: "'a pc \<Rightarrow> bool" where
  "recv_asleep (RecvAsleep c) = True"
| "recv_asleep _ = False"

text \<open>A thread between calls, and the handle a running call borrows.\<close>

fun ready :: "'a pc \<Rightarrow> bool" where
  "ready Idle = True"
| "ready (SendRet r) = True"
| "ready (RecvRet r) = True"
| "ready _ = False"

fun scall_of :: "'a pc \<Rightarrow> scall option" where
  "scall_of (TryReserve c items m d) = Some c"
| "scall_of (TryFence c r d) = Some c"
| "scall_of (TryWrite c r rest d) = Some c"
| "scall_of (TryCommit c r d) = Some c"
| "scall_of (TryWake c d) = Some c"
| "scall_of (SendSpin c n d) = Some c"
| "scall_of (SendSleep c e d) = Some c"
| "scall_of (SendAsleep c d) = Some c"
| "scall_of (SendTorch c d) = Some c"
| "scall_of _ = None"

fun rcall_of :: "'a pc \<Rightarrow> rcall option" where
  "rcall_of (ClaimAll c) = Some c"
| "rcall_of (ClaimRead c m rest vs) = Some c"
| "rcall_of (ClaimFence c m vs) = Some c"
| "rcall_of (ClaimRelease c m vs) = Some c"
| "rcall_of (ClaimWake c vs) = Some c"
| "rcall_of (RecvSpin c n) = Some c"
| "rcall_of (RecvSleep c e) = Some c"
| "rcall_of (RecvAsleep c) = Some c"
| "rcall_of (RecvTorch c) = Some c"
| "rcall_of _ = None"

section \<open>Sender::try\_send\<close>

text \<open>What the loop of \<^verbatim>\<open>try_send\<close> decides from the value its \<^verbatim>\<open>fetch_or\<close> returned.\<close>

datatype reserve_outcome = Disconnected | Full | Reserved u32 | Retry u32

definition try_reserve :: "nat \<Rightarrow> u32 \<Rightarrow> u32 \<Rightarrow> u32 \<Rightarrow> reserve_outcome" where
  "try_reserve items bias prev aligned_request_mask =
     (if contains prev COUNTERPARTY_DEAD then Disconnected
      else let slots = prev OR status_all in
        if slots = u32_max then Full
        else let reserved = NOT slots AND aligned_request_mask in
          if reserved > 0 then Reserved reserved
          else Retry (clear_extra_bits (NOT slots) items (even (unat bias))))"

definition try_send_entry :: "scall \<Rightarrow> 'a buffer \<Rightarrow> 'a pc" where
  "try_send_entry c data =
     (let items = available_items data
      in if items = 0 then SendRet (SendOk data)
         else TryReserve c items (compute_request_mask mpmc_n items (sc_bias c)) data)"

text \<open>The two assertions before the loop, with which a debug build stops: the bias is a slot (inside
  \<^verbatim>\<open>compute_request_mask\<close>) and the mask leaves the status bits alone.\<close>

definition request_asserts :: "nat \<Rightarrow> u32 \<Rightarrow> bool" where
  "request_asserts items bias \<longleftrightarrow>
     bias_assert bias \<and> compute_request_mask mpmc_n items bias AND status_all = 0"

definition try_send_start :: "nat \<Rightarrow> scall \<Rightarrow> 'a buffer \<Rightarrow> 'a sys \<Rightarrow> 'a outcome" where
  "try_send_start t c data s =
     (if available_items data \<noteq> 0 \<and> \<not> request_asserts (available_items data) (sc_bias c)
      then Fault DebugAssert
      else Next (goto t (try_send_entry c data) s))"

definition try_reserve_step :: "nat \<Rightarrow> scall \<Rightarrow> nat \<Rightarrow> u32 \<Rightarrow> 'a buffer \<Rightarrow> 'a sys \<Rightarrow> 'a outcome" where
  "try_reserve_step t c items aligned_request_mask data s =
     (let prev = send s;
          s = rmw_send Relaxed t (prev OR aligned_request_mask) s
      in case try_reserve items (sc_bias c) prev aligned_request_mask of
           Disconnected \<Rightarrow>
             (case remit data of
                None \<Rightarrow> Fault RemitEmpty
              | Some restored \<Rightarrow> Next (goto t (SendRet (SendDisconnected restored)) s))
         | Full \<Rightarrow>
             (case remit data of
                None \<Rightarrow> Fault RemitEmpty
              | Some restored \<Rightarrow>
                  Next (goto t (if sc_blocking c then SendSpin c 32 restored
                                else SendRet (SendFull restored)) s))
         | Reserved reserved \<Rightarrow>
             if \<not> reserved > 0 then Fault DebugAssert
             else if count_ones reserved > items then Fault DebugAssert
             else Next (goto t (TryFence c reserved data) s)
         | Retry m \<Rightarrow> Next (goto t (TryReserve c items m data) s))"

definition try_fence_step :: "nat \<Rightarrow> scall \<Rightarrow> u32 \<Rightarrow> 'a buffer \<Rightarrow> 'a sys \<Rightarrow> 'a outcome" where
  "try_fence_step t c reserved data s =
     Next (goto t (TryWrite c reserved reserved data) (s\<lparr>mem := fence_acquire t (mem s)\<rparr>))"

definition try_write_step :: "nat \<Rightarrow> scall \<Rightarrow> u32 \<Rightarrow> u32 \<Rightarrow> 'a buffer \<Rightarrow> 'a sys \<Rightarrow> 'a outcome" where
  "try_write_step t c reserved rest data s =
     (case drain_next mpmc_n rest of
        None \<Rightarrow> Next (goto t (TryCommit c reserved data) s)
      | Some (i, rest') \<Rightarrow>
          (case take_item data of
             None \<Rightarrow> Fault TakeEmpty
           | Some (value, data') \<Rightarrow>
               if \<not> race_free t i (mem s) then Fault (DataRace i)
               else if bag s i \<noteq> None then Fault (LeakedWrite i)
               else Next (goto t (TryWrite c reserved rest' data')
                 (s\<lparr>bag := (bag s)(i := Some value), mem := access t i (mem s),
                    sent_log := sent_log s @ [value]\<rparr>))))"

definition commit_recv :: "bool \<Rightarrow> u32 \<Rightarrow> u32 \<Rightarrow> u32" where
  "commit_recv x86_64 reserved prev =
     (let commit = reserved OR status_all
      in if x86_64 \<and> commit = u32_max then commit else prev OR commit)"

definition try_commit_step :: "bool \<Rightarrow> nat \<Rightarrow> scall \<Rightarrow> u32 \<Rightarrow> 'a buffer \<Rightarrow> 'a sys \<Rightarrow> 'a outcome" where
  "try_commit_step x86_64 t c reserved data s =
     (let prev = recv s;
          s = rmw_recv Release t (commit_recv x86_64 reserved prev) s;
          receiver_sleeping = contains (NOT prev) SLEEPING
      in Next (goto t (if receiver_sleeping then TryWake c data else SendRet (SendOk data)) s))"

text \<open>The wake calls: \<open>n\<close> sleepers on one word, then on to \<open>p\<close>.\<close>

definition wake_step :: "nat \<Rightarrow> ('a pc \<Rightarrow> bool) \<Rightarrow> u32 \<Rightarrow> 'a pc \<Rightarrow> nat list \<Rightarrow> 'a sys \<Rightarrow> 'a outcome" where
  "wake_step t asleep waiters p W s =
     (if wake_allowed (n_threads s) (\<lambda>u. asleep (threads s u)) waiters W
      then Next (goto t p (wake W s)) else Disabled)"

section \<open>Sender::send\<close>

datatype spin_outcome = SpinContinue | SpinDead | SpinSleep | SpinAgain

definition send_spin_check :: "u32 \<Rightarrow> spin_outcome" where
  "send_spin_check w =
     (if w OR status_all < u32_max then SpinContinue
      else if contains w COUNTERPARTY_DEAD then SpinDead
      else if contains w SLEEPING then SpinSleep
      else SpinAgain)"

definition send_spin_goto :: "nat \<Rightarrow> scall \<Rightarrow> nat \<Rightarrow> 'a buffer \<Rightarrow> u32 \<Rightarrow> 'a sys \<Rightarrow> 'a outcome" where
  "send_spin_goto t c spin data w s =
     (case send_spin_check w of
        SpinContinue \<Rightarrow> try_send_start t c data s
      | SpinDead \<Rightarrow> Next (goto t (SendRet (SendDisconnected data)) s)
      | SpinSleep \<Rightarrow> Next (goto t (SendSleep c w data) s)
      | SpinAgain \<Rightarrow> if spin = 0 then Fault SpinUnderflow
                     else Next (goto t (SendSpin c (spin - 1) data) s))"

text \<open>At \<open>spin = 0\<close> the thread announces that it will sleep; before, it only looks.\<close>

definition send_spin_rmw :: "nat \<Rightarrow> scall \<Rightarrow> nat \<Rightarrow> 'a buffer \<Rightarrow> 'a sys \<Rightarrow> 'a outcome" where
  "send_spin_rmw t c spin data s =
     (if spin = 0
      then let w = send s OR SLEEPING
           in send_spin_goto t c spin data w (rmw_send Relaxed t w s)
      else Disabled)"

definition send_spin_load :: "nat \<Rightarrow> scall \<Rightarrow> nat \<Rightarrow> 'a buffer \<Rightarrow> u32 \<Rightarrow> 'a sys \<Rightarrow> 'a outcome" where
  "send_spin_load t c spin data w s =
     (if spin \<noteq> 0 \<and> w \<in> set (send_seen s) then send_spin_goto t c spin data w s else Disabled)"

definition send_sleep_step :: "nat \<Rightarrow> scall \<Rightarrow> u32 \<Rightarrow> 'a buffer \<Rightarrow> 'a sys \<Rightarrow> 'a outcome" where
  "send_sleep_step t c expected data s =
     Next (goto t (if wait_blocks (send s) expected then SendAsleep c data else SendTorch c data) s)"

definition send_torch_step :: "nat \<Rightarrow> scall \<Rightarrow> 'a buffer \<Rightarrow> 'a sys \<Rightarrow> 'a outcome" where
  "send_torch_step t c data s =
     try_send_start t c data (rmw_send Relaxed t (send s OR SLEEPING) s)"

section \<open>Receiver::try\_recv\<close>

definition claim_all_step :: "nat \<Rightarrow> rcall \<Rightarrow> 'a sys \<Rightarrow> 'a outcome" where
  "claim_all_step t c s =
     (let prev = recv s;
          s = rmw_recv Acquire t (prev AND status_all) s;
          claimed = prev AND NOT status_all
      in if claimed = 0
         then Next (goto t
                (if contains (NOT prev) COUNTERPARTY_DEAD then RecvRet RecvDisconnected
                 else if rc_blocking c then RecvSpin c 32 else RecvRet RecvEmpty) s)
         else if count_ones claimed > mpmc_n then Fault DebugAssert
         else if \<not> claimed > 0 then Fault DebugAssert
         else Next (goto t (ClaimRead c claimed claimed []) s))"

definition claim_read_step :: "nat \<Rightarrow> rcall \<Rightarrow> u32 \<Rightarrow> u32 \<Rightarrow> 'a list \<Rightarrow> 'a sys \<Rightarrow> 'a outcome" where
  "claim_read_step t c claimed rest values s =
     (case drain_next mpmc_n rest of
        None \<Rightarrow> Next (goto t (ClaimFence c claimed values) s)
      | Some (i, rest') \<Rightarrow>
          if \<not> race_free t i (mem s) then Fault (DataRace i)
          else (case bag s i of
             None \<Rightarrow> Fault (UninitRead i)
           | Some value \<Rightarrow>
               if length values \<ge> mpmc_n then Fault CapacityExceeded
               else Next (goto t (ClaimRead c claimed rest' (values @ [value]))
                 (s\<lparr>bag := (bag s)(i := None), mem := access t i (mem s),
                    recv_log := recv_log s @ [value]\<rparr>))))"

definition claim_fence_step :: "nat \<Rightarrow> rcall \<Rightarrow> u32 \<Rightarrow> 'a list \<Rightarrow> 'a sys \<Rightarrow> 'a outcome" where
  "claim_fence_step t c claimed values s =
     Next (goto t (ClaimRelease c claimed values) (s\<lparr>mem := fence_release t (mem s)\<rparr>))"

definition release_send :: "bool \<Rightarrow> u32 \<Rightarrow> u32 \<Rightarrow> u32" where
  "release_send x86_64 claimed prev =
     (let commit = NOT claimed AND NOT status_all
      in if x86_64 \<and> commit = 0 then commit else prev AND commit)"

definition claim_release_step :: "bool \<Rightarrow> nat \<Rightarrow> rcall \<Rightarrow> u32 \<Rightarrow> 'a list \<Rightarrow> 'a sys \<Rightarrow> 'a outcome" where
  "claim_release_step x86_64 t c claimed values s =
     (let prev = send s;
          s = rmw_send Relaxed t (release_send x86_64 claimed prev) s;
          sender_sleeping = contains prev SLEEPING
      in Next (goto t (if sender_sleeping then ClaimWake c values else RecvRet (RecvOk values)) s))"

section \<open>Receiver::recv\<close>

definition recv_spin_check :: "u32 \<Rightarrow> spin_outcome" where
  "recv_spin_check w =
     (if w AND NOT status_all > 0 then SpinContinue
      else if contains (NOT w) COUNTERPARTY_DEAD then SpinDead
      else if contains (NOT w) SLEEPING then SpinSleep
      else SpinAgain)"

definition recv_spin_goto :: "nat \<Rightarrow> rcall \<Rightarrow> nat \<Rightarrow> u32 \<Rightarrow> 'a sys \<Rightarrow> 'a outcome" where
  "recv_spin_goto t c spin w s =
     (case recv_spin_check w of
        SpinContinue \<Rightarrow> Next (goto t (ClaimAll c) s)
      | SpinDead \<Rightarrow> Next (goto t (RecvRet RecvDisconnected) s)
      | SpinSleep \<Rightarrow> Next (goto t (RecvSleep c w) s)
      | SpinAgain \<Rightarrow> if spin = 0 then Fault SpinUnderflow
                     else Next (goto t (RecvSpin c (spin - 1)) s))"

definition recv_spin_rmw :: "nat \<Rightarrow> rcall \<Rightarrow> nat \<Rightarrow> 'a sys \<Rightarrow> 'a outcome" where
  "recv_spin_rmw t c spin s =
     (if spin = 0
      then let w = recv s AND NOT SLEEPING
           in recv_spin_goto t c spin w (rmw_recv Relaxed t w s)
      else Disabled)"

definition recv_spin_load :: "nat \<Rightarrow> rcall \<Rightarrow> nat \<Rightarrow> u32 \<Rightarrow> 'a sys \<Rightarrow> 'a outcome" where
  "recv_spin_load t c spin w s =
     (if spin \<noteq> 0 \<and> w \<in> set (recv_seen s) then recv_spin_goto t c spin w s else Disabled)"

definition recv_sleep_step :: "nat \<Rightarrow> rcall \<Rightarrow> u32 \<Rightarrow> 'a sys \<Rightarrow> 'a outcome" where
  "recv_sleep_step t c expected s =
     Next (goto t (if wait_blocks (recv s) expected then RecvAsleep c else RecvTorch c) s)"

definition recv_torch_step :: "nat \<Rightarrow> rcall \<Rightarrow> 'a sys \<Rightarrow> 'a outcome" where
  "recv_torch_step t c s =
     Next (goto t (ClaimAll c) (rmw_recv Relaxed t (recv s AND NOT SLEEPING) s))"

section \<open>Handles: Clone and Drop\<close>

definition clone_bias :: "u32 \<Rightarrow> u32" where
  "clone_bias prev_senders = (prev_senders * 7) mod of_nat mpmc_n"

definition borrowed_sender :: "'a sys \<Rightarrow> nat \<Rightarrow> bool" where
  "borrowed_sender s h \<longleftrightarrow>
     (\<exists>u\<in>set [0..<n_threads s]. map_option sc_handle (scall_of (threads s u)) = Some h)"

definition borrowed_receiver :: "'a sys \<Rightarrow> nat \<Rightarrow> bool" where
  "borrowed_receiver s h \<longleftrightarrow>
     (\<exists>u\<in>set [0..<n_threads s]. map_option rc_handle (rcall_of (threads s u)) = Some h)"

definition clone_sender :: "nat \<Rightarrow> nat \<Rightarrow> nat \<Rightarrow> 'a sys \<Rightarrow> 'a outcome" where
  "clone_sender t h h' s =
     (if senders s h = None \<or> senders s h' \<noteq> None then Disabled
      else let prev_senders = num_senders s in
        if prev_senders > u32_max div 2 then Aborted ''Too many senders, aborting.''
        else Next (goto t Idle (s\<lparr>num_senders := prev_senders + 1,
               senders := (senders s)(h' := Some (clone_bias prev_senders))\<rparr>)))"

definition drop_sender :: "nat \<Rightarrow> nat \<Rightarrow> 'a sys \<Rightarrow> 'a outcome" where
  "drop_sender t h s =
     (if senders s h = None \<or> borrowed_sender s h then Disabled
      else let prev = num_senders s in
        Next (goto t (if prev > 1 then Idle else SDropDead)
          (s\<lparr>num_senders := prev - 1, senders := (senders s)(h := None)\<rparr>)))"

definition sdrop_dead_step :: "nat \<Rightarrow> 'a sys \<Rightarrow> 'a outcome" where
  "sdrop_dead_step t s =
     (let prev = recv s;
          s = rmw_recv Relaxed t (prev AND NOT COUNTERPARTY_DEAD) s;
          receiver_sleeping = contains (NOT prev) SLEEPING
      in Next (goto t (if receiver_sleeping then SDropWake else Idle) s))"

definition clone_receiver :: "nat \<Rightarrow> nat \<Rightarrow> nat \<Rightarrow> 'a sys \<Rightarrow> 'a outcome" where
  "clone_receiver t h h' s =
     (if h \<notin> receivers s \<or> h' \<in> receivers s then Disabled
      else let prev = num_receivers s in
        if prev > u32_max div 2 then Aborted ''Too many receivers, aborting.''
        else Next (goto t Idle (s\<lparr>num_receivers := prev + 1, receivers := insert h' (receivers s)\<rparr>)))"

definition drop_receiver :: "nat \<Rightarrow> nat \<Rightarrow> 'a sys \<Rightarrow> 'a outcome" where
  "drop_receiver t h s =
     (if h \<notin> receivers s \<or> borrowed_receiver s h then Disabled
      else let prev = num_receivers s in
        Next (goto t (if prev > 1 then Idle else RDropDead)
          (s\<lparr>num_receivers := prev - 1, receivers := receivers s - {h}\<rparr>)))"

definition rdrop_dead_step :: "nat \<Rightarrow> 'a sys \<Rightarrow> 'a outcome" where
  "rdrop_dead_step t s =
     (let prev = send s;
          s = rmw_send Relaxed t (prev OR COUNTERPARTY_DEAD) s;
          sender_sleeping = contains prev SLEEPING
      in Next (goto t (if sender_sleeping then RDropWake else Idle) s))"

text \<open>\<^verbatim>\<open>Drop for Inner\<close> runs when the last handle is gone and every drop has finished,
  that is, when the reference count of the \<^verbatim>\<open>Arc\<close> reaches zero.\<close>

type_synonym 'a drop_state = "(fault, (nat \<Rightarrow> 'a option) \<times> views \<times> 'a list) result"

definition drop_slot :: "nat \<Rightarrow> nat \<Rightarrow> 'a drop_state \<Rightarrow> 'a drop_state" where
  "drop_slot t i r =
     (case r of
        Inl f \<Rightarrow> Inl f
      | Inr (b, v, dropped) \<Rightarrow>
          if \<not> race_free t i v then Inl (DataRace i)
          else (case b i of
             None \<Rightarrow> Inl (UninitRead i)
           | Some x \<Rightarrow> Inr (b(i := None), access t i v, dropped @ [x])))"

definition last_handle_gone :: "'a sys \<Rightarrow> bool" where
  "last_handle_gone s \<longleftrightarrow> num_senders s = 0 \<and> num_receivers s = 0 \<and> inner_dropped s = None \<and>
     (\<forall>u\<in>set [0..<n_threads s]. ready (threads s u))"

definition drop_inner :: "nat \<Rightarrow> 'a sys \<Rightarrow> 'a outcome" where
  "drop_inner t s =
     (if \<not> last_handle_gone s then Disabled
      else let values = recv s AND NOT status_all in
        (case drain_mask mpmc_n values (drop_slot t) (Inr (bag s, load_acquire t RecvWord (mem s), [])) of
           None \<Rightarrow> Fault ShiftPanic
         | Some (Inl f) \<Rightarrow> Fault f
         | Some (Inr (b, v, dropped)) \<Rightarrow>
             Next (goto t Idle (s\<lparr>bag := b, mem := v, inner_dropped := Some dropped\<rparr>))))"

section \<open>The transition system\<close>

definition start :: "nat \<Rightarrow> 'a call \<Rightarrow> 'a sys \<Rightarrow> 'a outcome" where
  "start t call s =
     (case call of
        CallTrySend h data \<Rightarrow>
          (case senders s h of
             None \<Rightarrow> Disabled
           | Some bias \<Rightarrow> if fresh data then try_send_start t (SCall h bias False) data s
                          else Disabled)
      | CallSend h data \<Rightarrow>
          (case senders s h of
             None \<Rightarrow> Disabled
           | Some bias \<Rightarrow> if fresh data then try_send_start t (SCall h bias True) data s
                          else Disabled)
      | CallTryRecv h \<Rightarrow>
          if h \<in> receivers s then Next (goto t (ClaimAll (RCall h False)) s) else Disabled
      | CallRecv h \<Rightarrow>
          if h \<in> receivers s then Next (goto t (ClaimAll (RCall h True)) s) else Disabled
      | CloneSender h h' \<Rightarrow> clone_sender t h h' s
      | DropSender h \<Rightarrow> drop_sender t h s
      | CloneReceiver h h' \<Rightarrow> clone_receiver t h h' s
      | DropReceiver h \<Rightarrow> drop_receiver t h s
      | DropInner \<Rightarrow> drop_inner t s)"

definition on_step :: "'a action \<Rightarrow> 'a outcome \<Rightarrow> 'a outcome" where
  "on_step a r = (case a of Step \<Rightarrow> r | _ \<Rightarrow> Disabled)"

definition on_woken :: "'a action \<Rightarrow> (nat list \<Rightarrow> 'a outcome) \<Rightarrow> 'a outcome" where
  "on_woken a r = (case a of Woken W \<Rightarrow> r W | _ \<Rightarrow> Disabled)"

definition on_start :: "'a action \<Rightarrow> ('a call \<Rightarrow> 'a outcome) \<Rightarrow> 'a outcome" where
  "on_start a r = (case a of Start k \<Rightarrow> r k | _ \<Rightarrow> Disabled)"

definition on_interrupt :: "'a action \<Rightarrow> 'a outcome \<Rightarrow> 'a outcome" where
  "on_interrupt a r = (case a of Interrupt \<Rightarrow> r | _ \<Rightarrow> Disabled)"

definition on_spin :: "'a action \<Rightarrow> 'a outcome \<Rightarrow> (u32 \<Rightarrow> 'a outcome) \<Rightarrow> 'a outcome" where
  "on_spin a r f = (case a of Step \<Rightarrow> r | Load w \<Rightarrow> f w | _ \<Rightarrow> Disabled)"

definition step :: "bool \<Rightarrow> nat \<Rightarrow> 'a action \<Rightarrow> 'a sys \<Rightarrow> 'a outcome" where
  "step x86_64 t a s =
    (if t \<ge> n_threads s then Disabled else
     case threads s t of
       Idle \<Rightarrow> on_start a (\<lambda>k. start t k s)
     | SendRet r \<Rightarrow> on_start a (\<lambda>k. start t k s)
     | RecvRet r \<Rightarrow> on_start a (\<lambda>k. start t k s)
     | TryReserve c items m data \<Rightarrow> on_step a (try_reserve_step t c items m data s)
     | TryFence c reserved data \<Rightarrow> on_step a (try_fence_step t c reserved data s)
     | TryWrite c reserved rest data \<Rightarrow> on_step a (try_write_step t c reserved rest data s)
     | TryCommit c reserved data \<Rightarrow> on_step a (try_commit_step x86_64 t c reserved data s)
     | TryWake c data \<Rightarrow> on_woken a (\<lambda>W. wake_step t recv_asleep 1 (SendRet (SendOk data)) W s)
     | SendSpin c spin data \<Rightarrow>
         on_spin a (send_spin_rmw t c spin data s) (\<lambda>w. send_spin_load t c spin data w s)
     | SendSleep c expected data \<Rightarrow> on_step a (send_sleep_step t c expected data s)
     | SendAsleep c data \<Rightarrow> on_interrupt a (Next (goto t (SendTorch c data) s))
     | SendTorch c data \<Rightarrow> on_step a (send_torch_step t c data s)
     | SDropDead \<Rightarrow> on_step a (sdrop_dead_step t s)
     | SDropWake \<Rightarrow> on_woken a (\<lambda>W. wake_step t recv_asleep u32_max Idle W s)
     | ClaimAll c \<Rightarrow> on_step a (claim_all_step t c s)
     | ClaimRead c claimed rest values \<Rightarrow> on_step a (claim_read_step t c claimed rest values s)
     | ClaimFence c claimed values \<Rightarrow> on_step a (claim_fence_step t c claimed values s)
     | ClaimRelease c claimed values \<Rightarrow> on_step a (claim_release_step x86_64 t c claimed values s)
     | ClaimWake c values \<Rightarrow> on_woken a (\<lambda>W. wake_step t send_asleep 1 (RecvRet (RecvOk values)) W s)
     | RecvSpin c spin \<Rightarrow>
         on_spin a (recv_spin_rmw t c spin s) (\<lambda>w. recv_spin_load t c spin w s)
     | RecvSleep c expected \<Rightarrow> on_step a (recv_sleep_step t c expected s)
     | RecvAsleep c \<Rightarrow> on_interrupt a (Next (goto t (RecvTorch c) s))
     | RecvTorch c \<Rightarrow> on_step a (recv_torch_step t c s)
     | RDropDead \<Rightarrow> on_step a (rdrop_dead_step t s)
     | RDropWake \<Rightarrow> on_woken a (\<lambda>W. wake_step t send_asleep u32_max Idle W s))"

text \<open>The states a run of the program can reach, with any number of threads.\<close>

inductive reachable :: "bool \<Rightarrow> 'a sys \<Rightarrow> bool" for x86_64 where
  reachable_init: "reachable x86_64 (mpmc n)"
| reachable_step: "reachable x86_64 s \<Longrightarrow> step x86_64 t a s = Next s' \<Longrightarrow> reachable x86_64 s'"

text \<open>Running a given schedule, for concrete executions.\<close>

fun exec :: "bool \<Rightarrow> (nat \<times> 'a action) list \<Rightarrow> 'a sys \<Rightarrow> 'a outcome" where
  "exec x86_64 [] s = Next s"
| "exec x86_64 ((t, a) # as) s =
     (case step x86_64 t a s of Next s' \<Rightarrow> exec x86_64 as s' | r \<Rightarrow> r)"

lemma reachable_exec:
  assumes "reachable x86_64 s" "exec x86_64 as s = Next s'"
  shows "reachable x86_64 s'"
  using assms
proof (induction as arbitrary: s)
  case (Cons p as)
  obtain t a where p: "p = (t, a)" by (cases p)
  with Cons.prems(2) obtain s1 where s1: "step x86_64 t a s = Next s1" "exec x86_64 as s1 = Next s'"
    by (auto split: outcome.splits)
  have "reachable x86_64 s1" using Cons.prems(1) s1(1) by (rule reachable_step)
  then show ?case using s1(2) by (rule Cons.IH)
qed simp

end
