(* ===== verification/Mpmc_Own.thy ===== *)
theory Mpmc_Own
  imports Mpmc
begin


text \<open>
  Who owns which slot of the bag.  A slot is free, reserved by one sender call, committed, or
  claimed by one receiver call; the channel words and the program counters determine which.
  The predicate \<open>core\<close> states the discipline, and one lemma per kind of step shows that the
  step keeps it.
\<close>

section \<open>Ownership of a program counter\<close>

fun owned :: "'a pc \<Rightarrow> nat set" where
  "owned (TryFence c r d) = slots r"
| "owned (TryWrite c r rest d) = slots r"
| "owned (TryCommit c r d) = slots r"
| "owned (ClaimRead c cl rest vs) = slots cl"
| "owned (ClaimFence c cl vs) = slots cl"
| "owned (ClaimRelease c cl vs) = slots cl"
| "owned _ = {}"

text \<open>The owned slots that hold a value.\<close>

fun filled :: "'a pc \<Rightarrow> nat set" where
  "filled (TryWrite c r rest d) = slots r - slots rest"
| "filled (TryCommit c r d) = slots r"
| "filled (ClaimRead c cl rest vs) = slots rest"
| "filled _ = {}"

text \<open>Where the knowledge of the owned slots' latest epoch sits.\<close>

fun stage :: "nat \<Rightarrow> 'a pc \<Rightarrow> holder" where
  "stage t (TryFence c r d) = Acq t"
| "stage t (ClaimRelease c cl vs) = Rel t"
| "stage t _ = Cur t"

lemma stage_other: "u \<noteq> t \<Longrightarrow> stage u p \<noteq> Rel t"
  by (cases p) auto

lemma owned_lt: "i \<in> owned p \<Longrightarrow> i < 30"
  by (cases p) (auto dest: slots_lt)

lemma wake_pc_simps [simp]:
  "owned (wake_pc p) = owned p" "filled (wake_pc p) = filled p" "stage t (wake_pc p) = stage t p"
  "scall_of (wake_pc p) = scall_of p" "rcall_of (wake_pc p) = rcall_of p"
  by (cases p; simp)+

section \<open>The ownership discipline\<close>

definition core ::
  "nat set \<Rightarrow> nat set \<Rightarrow> (nat \<Rightarrow> 'a pc) \<Rightarrow> (nat \<Rightarrow> 'a option) \<Rightarrow> views \<Rightarrow> bool" where
  "core S R th b v \<longleftrightarrow>
     R \<subseteq> S \<and> S \<subseteq> {..<30} \<and>
     (\<forall>t. owned (th t) \<subseteq> S - R) \<and>
     (\<forall>t u. t \<noteq> u \<longrightarrow> owned (th t) \<inter> owned (th u) = {}) \<and>
     (\<forall>t. filled (th t) \<subseteq> owned (th t)) \<and>
     (\<forall>i. b i \<noteq> None \<longleftrightarrow> i \<in> R \<or> (\<exists>t. i \<in> filled (th t))) \<and>
     views_ok v \<and>
     (\<forall>i<30. i \<notin> S \<longrightarrow> knows v (Msg SendWord) i) \<and>
     (\<forall>i\<in>R. knows v (Msg RecvWord) i) \<and>
     (\<forall>t. \<forall>i\<in>owned (th t). knows v (stage t (th t)) i)"

lemma coreD:
  assumes "core S R th b v"
  shows "R \<subseteq> S" "S \<subseteq> {..<30}" "owned (th t) \<subseteq> S - R" "t \<noteq> u \<Longrightarrow> owned (th t) \<inter> owned (th u) = {}"
    "filled (th t) \<subseteq> owned (th t)" "b i \<noteq> None \<longleftrightarrow> i \<in> R \<or> (\<exists>t. i \<in> filled (th t))" "views_ok v"
    "i < 30 \<Longrightarrow> i \<notin> S \<Longrightarrow> knows v (Msg SendWord) i" "i \<in> R \<Longrightarrow> knows v (Msg RecvWord) i"
    "i \<in> owned (th t) \<Longrightarrow> knows v (stage t (th t)) i"
  using assms unfolding core_def by blast+

lemma coreI:
  assumes "R \<subseteq> S" "S \<subseteq> {..<30}" "\<And>t. owned (th t) \<subseteq> S - R"
    and "\<And>t u. t \<noteq> u \<Longrightarrow> owned (th t) \<inter> owned (th u) = {}"
    and "\<And>t. filled (th t) \<subseteq> owned (th t)"
    and "\<And>i. b i \<noteq> None \<longleftrightarrow> i \<in> R \<or> (\<exists>t. i \<in> filled (th t))" "views_ok v"
    and "\<And>i. i < 30 \<Longrightarrow> i \<notin> S \<Longrightarrow> knows v (Msg SendWord) i"
    and "\<And>i. i \<in> R \<Longrightarrow> knows v (Msg RecvWord) i"
    and "\<And>t i. i \<in> owned (th t) \<Longrightarrow> knows v (stage t (th t)) i"
  shows "core S R th b v"
  unfolding core_def by (intro conjI allI ballI impI) (fact assms | erule assms | rule assms)+

text \<open>A step of thread \<open>t\<close> that moves no slot.\<close>

lemma core_thread:
  assumes c: "core S R th b v" and ok: "views_ok v'"
    and mono: "\<And>h i. knows v h i \<Longrightarrow> h \<noteq> Rel t \<Longrightarrow> knows v' h i"
    and p: "owned p = owned (th t)" "filled p = filled (th t)"
    and k: "\<And>i. i \<in> owned (th t) \<Longrightarrow> knows v' (stage t p) i"
  shows "core S R (th(t := p)) b v'"
proof -
  let ?th = "th(t := p)"
  note d = coreD [OF c]
  have own: "owned (?th u) = owned (th u)" "filled (?th u) = filled (th u)" for u
    using p by auto
  show ?thesis
  proof (rule coreI, goal_cases)
    case (6 i) show ?case using d(6) [of i] unfolding own .
  next
    case (10 u i)
    then have i: "i \<in> owned (th u)" unfolding own .
    show ?case
    proof (cases "u = t")
      case False
      then show ?thesis using mono [OF d(10) [OF i] stage_other [OF False]] by simp
    qed (use k i in simp)
  next
    case (3 u) show ?case using d(3) unfolding own .
  next
    case (4 u w) show ?case using d(4) [OF 4] unfolding own .
  next
    case (5 u) show ?case using d(5) unfolding own .
  next
    case (8 i) then show ?case using mono [OF d(8)] by simp
  next
    case (9 i) then show ?case using mono [OF d(9)] by simp
  qed (use d(1,2) ok in auto)
qed

lemma core_quiet:
  assumes "core S R th b v" "views_ok v'" "\<And>h i. knows v h i \<Longrightarrow> knows v' h i"
    and "owned p = owned (th t)" "filled p = filled (th t)"
    and "owned (th t) \<noteq> {} \<Longrightarrow> stage t p = stage t (th t)"
  shows "core S R (th(t := p)) b v'"
proof (rule core_thread [OF assms(1,2)])
  fix i assume i: "i \<in> owned (th t)"
  then have "stage t p = stage t (th t)" using assms(6) by blast
  then show "knows v' (stage t p) i" using assms(3) coreD(10) [OF assms(1) i] by simp
qed (use assms in auto)

lemma core_wake:
  assumes "core S R th b v"
    and "\<And>u. owned (th' u) = owned (th u)" "\<And>u. filled (th' u) = filled (th u)"
    and "\<And>u. stage u (th' u) = stage u (th u)"
  shows "core S R th' b v"
  using assms(1) unfolding core_def assms(2-4) .

text \<open>A sender takes the slots of \<open>M\<close> that were free; the others of \<open>M\<close> were taken, or are
  lost when the receivers are gone.\<close>

lemma core_reserve:
  assumes c: "core S R th b v" and v': "views_ok v'" "\<And>h i. knows v h i \<Longrightarrow> knows v' h i"
    and M: "M \<subseteq> {..<30}"
    and p: "owned (th t) = {}" "owned p \<subseteq> M - S" "filled p = {}"
    and k: "\<And>i. i \<in> owned p \<Longrightarrow> knows v' (stage t p) i"
  shows "core (S \<union> M) R (th(t := p)) b v'"
proof -
  let ?th = "th(t := p)"
  note d = coreD [OF c]
  have own: "owned (?th u) = (if u = t then owned p else owned (th u))" for u by simp
  have fl: "filled (?th u) = filled (th u)" for u
    using p d(5) [of t] by auto
  show ?thesis
  proof (rule coreI, goal_cases)
    case (3 u) show ?case using d(1) d(3) [of u] p M unfolding own by auto
  next
    case (4 u w) show ?case
      using d(4) [OF 4] d(3) [of u] d(3) [of w] p 4 unfolding own by auto
  next
    case (5 u) show ?case using d(5) [of u] p unfolding fl own by auto
  next
    case (6 i) show ?case using d(6) [of i] unfolding fl .
  next
    case (10 u i) then show ?case using k v'(2) d(10) by (cases "u = t") auto
  qed (use d(1,2,7-9) v' M in auto)
qed

lemma core_write:
  assumes c: "core S R th b v" and i: "i \<in> owned (th t)" "i \<notin> filled (th t)" "stage t (th t) = Cur t"
    and p: "owned p = owned (th t)" "filled p = insert i (filled (th t))" "stage t p = Cur t"
  shows "core S R (th(t := p)) (b(i := Some x)) (access t i v)"
proof -
  let ?th = "th(t := p)"
  note d = coreD [OF c]
  have own: "owned (?th u) = owned (th u)" for u using p by auto
  have fl: "filled (?th u) \<subseteq> owned (th u)" "j \<in> filled (?th u) \<longleftrightarrow> j \<in> filled (th u) \<or> u = t \<and> j = i" for u j
    using p i d(5) by auto
  have other: "i \<notin> owned (th u)" if "u \<noteq> t" for u using d(4) [OF that] i by auto
  have iR: "i \<in> S" "i \<notin> R" using i d(3) by blast+
  show ?thesis
  proof (rule coreI, goal_cases)
    case (6 j) show ?case using d(6) [of j] unfolding fl(2) by auto
  next
    case (8 j) then show ?case using iR d(8) access_other by metis
  next
    case (9 j) then show ?case using iR d(9) access_other by metis
  next
    case (10 u j)
    then have "j \<in> owned (th u)" unfolding own .
    then show ?case
      using d(10) [of j u] other [of u] p i by (cases "u = t"; cases "j = i") auto
  next
    case (3 u) show ?case using d(3) unfolding own .
  next
    case (4 u w) then show ?case using d(4) unfolding own by blast
  next
    case (5 u) show ?case using fl(1) unfolding own .
  qed (use d(1,2,7) in auto)
qed

lemma core_read:
  assumes c: "core S R th b v" and i: "i \<in> filled (th t)" "stage t (th t) = Cur t"
    and p: "owned p = owned (th t)" "filled p = filled (th t) - {i}" "stage t p = Cur t"
  shows "core S R (th(t := p)) (b(i := None)) (access t i v)"
proof -
  let ?th = "th(t := p)"
  note d = coreD [OF c]
  have io: "i \<in> owned (th t)" using i d(5) by blast
  have own: "owned (?th u) = owned (th u)" for u using p by auto
  have other: "i \<notin> owned (th u)" if "u \<noteq> t" for u using d(4) [OF that] io by auto
  have nf: "i \<notin> filled (th u)" if "u \<noteq> t" for u using other [OF that] d(5) by blast
  have fl: "j \<in> filled (?th u) \<longleftrightarrow> j \<in> filled (th u) \<and> j \<noteq> i" for u j
    using p i nf by auto
  have iR: "i \<in> S" "i \<notin> R" using io d(3) by blast+
  show ?thesis
  proof (rule coreI, goal_cases)
    case (6 j) show ?case using d(6) [of j] iR unfolding fl by auto
  next
    case (8 j) then show ?case using iR d(8) access_other by metis
  next
    case (9 j) then show ?case using iR d(9) access_other by metis
  next
    case (10 u j)
    then have "j \<in> owned (th u)" unfolding own .
    then show ?case
      using d(10) [of j u] other [of u] p i by (cases "u = t"; cases "j = i") auto
  next
    case (3 u) show ?case using d(3) unfolding own .
  next
    case (4 u w) then show ?case using d(4) unfolding own by blast
  next
    case (5 u) show ?case using d(5) fl unfolding own by blast
  qed (use d(1,2,7) in auto)
qed

text \<open>A thread gives up its slots: it commits them, or releases them.\<close>

lemma core_commit:
  assumes c: "core S R th b v" and v': "views_ok v'" "\<And>h i. knows v h i \<Longrightarrow> knows v' h i"
    and p: "owned p = {}" "filled p = {}" "filled (th t) = owned (th t)"
    and k: "\<And>i. i \<in> owned (th t) \<Longrightarrow> knows v' (Msg RecvWord) i"
  shows "core S (R \<union> owned (th t)) (th(t := p)) b v'"
proof -
  let ?th = "th(t := p)"
  note d = coreD [OF c]
  have own: "owned (?th u) = (if u = t then {} else owned (th u))"
    "filled (?th u) = (if u = t then {} else filled (th u))" for u
    using p by auto
  show ?thesis
  proof (rule coreI, goal_cases)
    case 1 show ?case using d(1) d(3) [of t] by auto
  next
    case (3 u) show ?case using d(3) [of u] d(4) [of u t] unfolding own by auto
  next
    case (4 u w) then show ?case using d(4) unfolding own by auto
  next
    case (5 u) show ?case using d(5) unfolding own by auto
  next
    case (6 i) show ?case using d(6) [of i] p(3) unfolding own by (auto split: if_splits)
  next
    case (10 u i) then show ?case using v'(2) d(10) by (cases "u = t") (auto simp: p)
  qed (use d(1,2,8,9) v' k in auto)
qed

lemma core_release:
  assumes c: "core S R th b v" and v': "views_ok v'" "\<And>h i. knows v h i \<Longrightarrow> knows v' h i"
    and p: "owned p = {}" "filled p = {}" "filled (th t) = {}"
    and k: "\<And>i. i \<in> owned (th t) \<Longrightarrow> knows v' (Msg SendWord) i"
  shows "core (S - owned (th t)) R (th(t := p)) b v'"
proof -
  let ?th = "th(t := p)"
  note d = coreD [OF c]
  have own: "owned (?th u) = (if u = t then {} else owned (th u))"
    "filled (?th u) = filled (th u)" for u
    using p by auto
  show ?thesis
  proof (rule coreI, goal_cases)
    case 1 show ?case using d(1) d(3) [of t] by auto
  next
    case (3 u) show ?case using d(3) [of u] d(4) [of u t] unfolding own by auto
  next
    case (4 u w) then show ?case using d(4) unfolding own by auto
  next
    case (5 u) show ?case using d(5) [of u] p unfolding own by auto
  next
    case (6 i) show ?case using d(6) [of i] unfolding own .
  next
    case (10 u i) then show ?case using v'(2) d(10) by (cases "u = t") (auto simp: p)
  qed (use d(1,2,8,9) v' k in auto)
qed

text \<open>A receiver claims every committed slot.\<close>

lemma core_claim:
  assumes c: "core S R th b v" and v': "views_ok v'" "\<And>h i. knows v h i \<Longrightarrow> knows v' h i"
    and p: "owned (th t) = {}" "owned p = R" "filled p = R" "\<And>i. i \<in> R \<Longrightarrow> knows v' (stage t p) i"
  shows "core S {} (th(t := p)) b v'"
proof -
  let ?th = "th(t := p)"
  note d = coreD [OF c]
  have own: "owned (?th u) = (if u = t then R else owned (th u))"
    "filled (?th u) = (if u = t then R else filled (th u))" for u
    using p by auto
  have nf: "filled (th t) = {}" using d(5) [of t] p(1) by auto
  show ?thesis
  proof (rule coreI, goal_cases)
    case (3 u) show ?case using d(1) d(3) [of u] unfolding own by auto
  next
    case (4 u w) then show ?case
      using d(3) [of u] d(3) [of w] d(4) [OF 4] unfolding own by auto
  next
    case (5 u) show ?case using d(5) [of u] unfolding own by auto
  next
    case (6 i) show ?case using d(6) [of i] nf unfolding own by (auto split: if_splits)
  next
    case (10 u i) then show ?case using v'(2) d(10) p by (cases "u = t") auto
  qed (use d(1,2,8) v' in auto)
qed

section \<open>The channel words\<close>

lemma slots_commit_recv: "slots (commit_recv x86_64 r prev) = slots prev \<union> slots r"
proof (cases "x86_64 \<and> r OR status_all = u32_max")
  case True
  then have "slots r = {..<30}" by (simp add: all_slots_taken_iff)
  with True show ?thesis by (auto simp: commit_recv_def slot_simps dest: slots_lt)
qed (auto simp: commit_recv_def slot_simps Let_def)

text \<open>The \<^verbatim>\<open>swap\<close> that replaces \<^verbatim>\<open>fetch_or\<close> on x86-64 computes the same word.\<close>

lemma commit_recv_arch: "commit_recv x86_64 r prev = prev OR (r OR status_all)"
  by (simp add: commit_recv_def Let_def u32_max_def)

lemma release_send_arch: "release_send x86_64 cl prev = prev AND (NOT cl AND NOT status_all)"
  by (simp add: release_send_def Let_def)

lemma slots_release_send: "slots (release_send x86_64 cl prev) = slots prev - slots cl"
  by (auto simp: release_send_arch slot_simps dest: slots_lt)

lemma bits_commit_recv: "bit (commit_recv x86_64 r prev) 0" "bit (commit_recv x86_64 r prev) (Suc 0)"
  by (simp_all add: commit_recv_arch bit_or_iff slot_simps)

lemma bits_release_send:
  "\<not> bit (release_send x86_64 cl prev) 0" "\<not> bit (release_send x86_64 cl prev) (Suc 0)"
  by (simp_all add: release_send_arch bit_and_iff bit_not_iff slot_simps)

end
