(* ===== verification/Mpmc_Steps.thy ===== *)
theory Mpmc_Steps
  imports Mpmc_Own
begin

text \<open>
  One elimination rule for the steps of \<open>Mpmc\<close>, with a named case per kind of step, and
  the effect of the state updates on every field.
\<close>

section \<open>The assertions of the handlers\<close>

text \<open>With a bias in range the assertions at the start of a \<^verbatim>\<open>try_send\<close> hold; the ones on what was
  reserved or claimed and not zero hold always.  So these handlers have simpler equations.\<close>

lemma request_asserts: "0 < items \<Longrightarrow> unat bias < 30 \<Longrightarrow> request_asserts items bias"
  using status_free_request_mask [of items bias] by (simp add: request_asserts_def bias_assert_def mpmc_n_def status_free_def)

lemma try_send_start_ok: "unat (sc_bias c) < 30 \<Longrightarrow> try_send_start t c d s = Next (goto t (try_send_entry c d) s)"
  using request_asserts [of "available_items d" "sc_bias c"] by (auto simp: try_send_start_def)

lemma try_send_start_next: "try_send_start t c d s = Next s' \<Longrightarrow> s' = goto t (try_send_entry c d) s"
  by (auto simp: try_send_start_def split: if_splits)

lemma try_send_start_possible [simp]:
  "try_send_start t c d s \<noteq> Disabled" "try_send_start t c d s \<noteq> Aborted e"
  by (simp_all add: try_send_start_def)

lemma try_reserve_pos: "try_reserve items b w m = Reserved r \<Longrightarrow> r > 0"
  by (auto simp: try_reserve_def Let_def split: if_splits)

lemma try_reserve_step_eq:
  "try_reserve_step t c items m d s =
    (let s1 = rmw_send Relaxed t (send s OR m) s
     in case try_reserve items (sc_bias c) (send s) m of
          Disconnected \<Rightarrow> (case remit d of None \<Rightarrow> Fault RemitEmpty
            | Some r \<Rightarrow> Next (goto t (SendRet (SendDisconnected r)) s1))
        | Full \<Rightarrow> (case remit d of None \<Rightarrow> Fault RemitEmpty
            | Some r \<Rightarrow> Next (goto t (if sc_blocking c then SendSpin c 32 r else SendRet (SendFull r)) s1))
        | Reserved r \<Rightarrow> if count_ones r > items then Fault DebugAssert else Next (goto t (TryFence c r d) s1)
        | Retry m' \<Rightarrow> Next (goto t (TryReserve c items m' d) s1))"
  by (auto simp: try_reserve_step_def Let_def dest: try_reserve_pos split: reserve_outcome.split)

lemma count_ones_claimed: "count_ones (w AND NOT status_all) \<le> mpmc_n"
proof -
  have "status_free (w AND NOT status_all)" by (simp add: status_free_iff bit_and_iff bit_not_iff slot_simps)
  then have "count_ones (w AND NOT status_all) = card (slots (w AND NOT status_all))" by (rule count_ones_slots)
  also have "\<dots> \<le> card {..<30::nat}" by (intro card_mono) (auto dest: slots_lt)
  finally show ?thesis by (simp add: mpmc_n_def)
qed

lemma claim_all_step_eq:
  "claim_all_step t c s = Next (goto t
     (if recv s AND NOT status_all = 0
      then if contains (NOT (recv s)) COUNTERPARTY_DEAD then RecvRet RecvDisconnected
           else if rc_blocking c then RecvSpin c 32 else RecvRet RecvEmpty
      else ClaimRead c (recv s AND NOT status_all) (recv s AND NOT status_all) [])
     (rmw_recv Acquire t (recv s AND status_all) s))"
  using count_ones_claimed [of "recv s"] by (auto simp: claim_all_step_def Let_def word_gt_0)

section \<open>Steps by cases\<close>

text \<open>One case per kind of step, with the handler that produced the new state.\<close>

lemma step_NextE:
  assumes "step x86_64 t a s = Next s'"
  obtains
    (start) k where "ready (threads s t)" "start t k s = Next s'"
  | (reserve) c items m d where "threads s t = TryReserve c items m d"
      "try_reserve_step t c items m d s = Next s'"
  | (fence) c r d where "threads s t = TryFence c r d" "try_fence_step t c r d s = Next s'"
  | (wr) c r rest d where "threads s t = TryWrite c r rest d" "try_write_step t c r rest d s = Next s'"
  | (commit) c r d where "threads s t = TryCommit c r d" "try_commit_step x86_64 t c r d s = Next s'"
  | (twake) c d W where "threads s t = TryWake c d"
      "wake_step t recv_asleep 1 (SendRet (SendOk d)) W s = Next s'"
  | (sspin) c n d where "threads s t = SendSpin c n d" "send_spin_rmw t c n d s = Next s'"
  | (sload) c n d w where "threads s t = SendSpin c n d" "send_spin_load t c n d w s = Next s'"
  | (ssleep) c e d where "threads s t = SendSleep c e d" "send_sleep_step t c e d s = Next s'"
  | (sintr) c d where "threads s t = SendAsleep c d" "s' = goto t (SendTorch c d) s"
  | (storch) c d where "threads s t = SendTorch c d" "send_torch_step t c d s = Next s'"
  | (sdead) "threads s t = SDropDead" "sdrop_dead_step t s = Next s'"
  | (sdwake) W where "threads s t = SDropWake" "wake_step t recv_asleep u32_max Idle W s = Next s'"
  | (claim) c where "threads s t = ClaimAll c" "claim_all_step t c s = Next s'"
  | (rd) c cl rest vs where "threads s t = ClaimRead c cl rest vs"
      "claim_read_step t c cl rest vs s = Next s'"
  | (rfence) c cl vs where "threads s t = ClaimFence c cl vs" "claim_fence_step t c cl vs s = Next s'"
  | (release) c cl vs where "threads s t = ClaimRelease c cl vs"
      "claim_release_step x86_64 t c cl vs s = Next s'"
  | (cwake) c vs W where "threads s t = ClaimWake c vs"
      "wake_step t send_asleep 1 (RecvRet (RecvOk vs)) W s = Next s'"
  | (rspin) c n where "threads s t = RecvSpin c n" "recv_spin_rmw t c n s = Next s'"
  | (rload) c n w where "threads s t = RecvSpin c n" "recv_spin_load t c n w s = Next s'"
  | (rsleep) c e where "threads s t = RecvSleep c e" "recv_sleep_step t c e s = Next s'"
  | (rintr) c where "threads s t = RecvAsleep c" "s' = goto t (RecvTorch c) s"
  | (rtorch) c where "threads s t = RecvTorch c" "recv_torch_step t c s = Next s'"
  | (rdead) "threads s t = RDropDead" "rdrop_dead_step t s = Next s'"
  | (rdwake) W where "threads s t = RDropWake" "wake_step t send_asleep u32_max Idle W s = Next s'"
proof -
  note defs = step_def on_step_def on_woken_def on_start_def on_interrupt_def on_spin_def
  note n = assms [unfolded defs]
  show thesis
  proof (cases "threads s t")
    case Idle
    with n start show ?thesis by (auto split: if_splits action.splits)
  next
    case SendRet
    with n start show ?thesis by (auto split: if_splits action.splits)
  next
    case RecvRet
    with n start show ?thesis by (auto split: if_splits action.splits)
  qed (use n that in \<open>auto split: if_splits action.splits\<close>)
qed

lemma step_lt: "step x86_64 t a s = Next s' \<Longrightarrow> t < n_threads s"
  by (auto simp: step_def split: if_splits)

section \<open>What the state updates change\<close>

lemma goto_sel [simp]:
  "send (goto t p s) = send s"
  "recv (goto t p s) = recv s"
  "num_senders (goto t p s) = num_senders s"
  "num_receivers (goto t p s) = num_receivers s"
  "bag (goto t p s) = bag s"
  "senders (goto t p s) = senders s"
  "receivers (goto t p s) = receivers s"
  "threads (goto t p s) = (threads s)(t := p)"
  "n_threads (goto t p s) = n_threads s"
  "send_seen (goto t p s) = send_seen s"
  "recv_seen (goto t p s) = recv_seen s"
  "mem (goto t p s) = mem s"
  "sent_log (goto t p s) = sent_log s"
  "recv_log (goto t p s) = recv_log s"
  "inner_dropped (goto t p s) = inner_dropped s"
  by (simp_all add: goto_def)

lemma rmw_send_sel [simp]:
  "send (rmw_send ord t w s) = w"
  "recv (rmw_send ord t w s) = recv s"
  "num_senders (rmw_send ord t w s) = num_senders s"
  "num_receivers (rmw_send ord t w s) = num_receivers s"
  "bag (rmw_send ord t w s) = bag s"
  "senders (rmw_send ord t w s) = senders s"
  "receivers (rmw_send ord t w s) = receivers s"
  "threads (rmw_send ord t w s) = threads s"
  "n_threads (rmw_send ord t w s) = n_threads s"
  "send_seen (rmw_send ord t w s) = w # send_seen s"
  "recv_seen (rmw_send ord t w s) = recv_seen s"
  "mem (rmw_send ord t w s) = rmw ord t SendWord (mem s)"
  "sent_log (rmw_send ord t w s) = sent_log s"
  "recv_log (rmw_send ord t w s) = recv_log s"
  "inner_dropped (rmw_send ord t w s) = inner_dropped s"
  by (simp_all add: rmw_send_def)

lemma rmw_recv_sel [simp]:
  "send (rmw_recv ord t w s) = send s"
  "recv (rmw_recv ord t w s) = w"
  "num_senders (rmw_recv ord t w s) = num_senders s"
  "num_receivers (rmw_recv ord t w s) = num_receivers s"
  "bag (rmw_recv ord t w s) = bag s"
  "senders (rmw_recv ord t w s) = senders s"
  "receivers (rmw_recv ord t w s) = receivers s"
  "threads (rmw_recv ord t w s) = threads s"
  "n_threads (rmw_recv ord t w s) = n_threads s"
  "send_seen (rmw_recv ord t w s) = send_seen s"
  "recv_seen (rmw_recv ord t w s) = w # recv_seen s"
  "mem (rmw_recv ord t w s) = rmw ord t RecvWord (mem s)"
  "sent_log (rmw_recv ord t w s) = sent_log s"
  "recv_log (rmw_recv ord t w s) = recv_log s"
  "inner_dropped (rmw_recv ord t w s) = inner_dropped s"
  by (simp_all add: rmw_recv_def)

lemma wake_sel [simp]:
  "send (wake W s) = send s"
  "recv (wake W s) = recv s"
  "num_senders (wake W s) = num_senders s"
  "num_receivers (wake W s) = num_receivers s"
  "bag (wake W s) = bag s"
  "senders (wake W s) = senders s"
  "receivers (wake W s) = receivers s"
  "threads (wake W s) = (\<lambda>t. if t \<in> set W then wake_pc (threads s t) else threads s t)"
  "n_threads (wake W s) = n_threads s"
  "send_seen (wake W s) = send_seen s"
  "recv_seen (wake W s) = recv_seen s"
  "mem (wake W s) = mem s"
  "sent_log (wake W s) = sent_log s"
  "recv_log (wake W s) = recv_log s"
  "inner_dropped (wake W s) = inner_dropped s"
  by (simp_all add: wake_def)

end
