(* ===== verification/Mpmc_Effect.thy ===== *)
theory Mpmc_Effect
  imports Mpmc_Steps
begin

text \<open>
  The steps of the system as five relations, with the new state written out: the calls, the moves
  of a send that carry values, those of a receive, those that spin, sleep and wake, and those that announce
  the end of a side.  The invariants are proved by cases on them.
\<close>

section \<open>Words\<close>

lemma slots_torch:
  "slots (w OR SLEEPING) = slots w" "slots (w AND NOT SLEEPING) = slots w"
  "slots (w AND NOT COUNTERPARTY_DEAD) = slots w" "slots (w OR COUNTERPARTY_DEAD) = slots w"
  by (auto simp: slot_simps dest: slots_lt)

lemma slots_claim: "slots (w AND status_all) = {}" "slots (w AND NOT status_all) = slots w"
  by (auto simp: slot_simps dest: slots_lt)

lemma send_spin_check_Sleep:
  "send_spin_check w = SpinSleep \<longleftrightarrow> slots w = {..<30} \<and> \<not> bit w 0 \<and> bit w 1"
  by (auto simp: send_spin_check_def u32_max_less_iff all_slots_taken_iff slot_simps)

lemma recv_spin_check_Sleep:
  "recv_spin_check w = SpinSleep \<longleftrightarrow> slots w = {} \<and> bit w 0 \<and> \<not> bit w 1"
  by (auto simp: recv_spin_check_def items_pos_iff slot_simps bit_not_iff)

section \<open>Spin loops and reservations\<close>

text \<open>The successor of a thread that looks at the word \<open>w\<close> in a spin loop.\<close>

definition send_spin_next :: "scall \<Rightarrow> nat \<Rightarrow> 'a buffer \<Rightarrow> u32 \<Rightarrow> 'a pc \<Rightarrow> bool" where
  "send_spin_next c n d w q \<longleftrightarrow>
     q = try_send_entry c d \<and> slots w \<noteq> {..<30} \<or>
     q = SendRet (SendDisconnected d) \<and> bit w 0 \<and> slots w = {..<30} \<or>
     q = SendSleep c w d \<and> \<not> bit w 0 \<and> bit w 1 \<and> slots w = {..<30} \<or>
     q = SendSpin c (n - 1) d \<and> 0 < n"

definition recv_spin_next :: "rcall \<Rightarrow> nat \<Rightarrow> u32 \<Rightarrow> 'a pc \<Rightarrow> bool" where
  "recv_spin_next c n w q \<longleftrightarrow>
     q = ClaimAll c \<and> slots w \<noteq> {} \<or>
     q = RecvRet RecvDisconnected \<and> \<not> bit w 0 \<and> slots w = {} \<or>
     q = RecvSleep c w \<and> bit w 0 \<and> \<not> bit w 1 \<and> slots w = {} \<or>
     q = RecvSpin c (n - 1) \<and> 0 < n"

lemma send_spin_goto_next:
  assumes "send_spin_goto t c n d w s = Next s'"
  obtains q where "s' = goto t q s" "send_spin_next c n d w q"
proof (cases "send_spin_check w")
  case SpinContinue
  then have "slots w \<noteq> {..<30}"
    unfolding send_spin_check_def u32_max_less_iff all_slots_taken_iff by (auto split: if_splits)
  with SpinContinue show ?thesis using assms
    by (intro that [of "try_send_entry c d"]) (simp_all add: send_spin_goto_def send_spin_next_def try_send_start_next)
next
  case SpinDead
  then have "bit w 0" "slots w = {..<30}"
    unfolding send_spin_check_def u32_max_less_iff all_slots_taken_iff contains_DEAD
    by (auto split: if_splits)
  with SpinDead show ?thesis using assms
    by (intro that [of "SendRet (SendDisconnected d)"]) (simp_all add: send_spin_goto_def send_spin_next_def)
next
  case SpinSleep
  then have "\<not> bit w 0" "bit w 1" "slots w = {..<30}" by (simp_all add: send_spin_check_Sleep)
  with SpinSleep show ?thesis using assms
    by (intro that [of "SendSleep c w d"]) (simp_all add: send_spin_goto_def send_spin_next_def)
next
  case SpinAgain
  then show ?thesis using assms by (intro that [of "SendSpin c (n - 1) d"])
    (auto simp: send_spin_goto_def send_spin_next_def split: if_splits)
qed

lemma recv_spin_goto_next:
  assumes "recv_spin_goto t c n w s = Next s'"
  obtains q where "s' = goto t q s" "recv_spin_next c n w q"
proof (cases "recv_spin_check w")
  case SpinContinue
  then have "slots w \<noteq> {}"
    by (auto simp: recv_spin_check_def items_pos_iff split: if_splits)
  with SpinContinue show ?thesis using assms
    by (intro that [of "ClaimAll c"]) (auto simp: recv_spin_goto_def recv_spin_next_def)
next
  case SpinDead
  then have "\<not> bit w 0" "slots w = {}"
    by (auto simp: recv_spin_check_def slot_simps items_pos_iff bit_not_iff split: if_splits)
  then show ?thesis using assms SpinDead
    by (intro that [of "RecvRet RecvDisconnected"]) (auto simp: recv_spin_goto_def recv_spin_next_def)
next
  case SpinSleep
  then have "bit w 0" "\<not> bit w 1" "slots w = {}" by (simp_all add: recv_spin_check_Sleep)
  with SpinSleep show ?thesis using assms
    by (intro that [of "RecvSleep c w"]) (simp_all add: recv_spin_goto_def recv_spin_next_def)
next
  case SpinAgain
  then show ?thesis using assms
    by (intro that [of "RecvSpin c (n - 1)"]) (auto simp: recv_spin_goto_def recv_spin_next_def split: if_splits)
qed

lemma reserve_effect:
  assumes "try_reserve_step t c items m d s = Next s'"
  obtains q where "s' = goto t q (rmw_send Relaxed t (send s OR m) s)"
    "(\<exists>r. try_reserve items (sc_bias c) (send s) m = Reserved r \<and> count_ones r \<le> items \<and> q = TryFence c r d) \<or>
     (\<exists>m'. try_reserve items (sc_bias c) (send s) m = Retry m' \<and> q = TryReserve c items m' d) \<or>
     bit (send s) 0 \<and> (\<exists>r. q = SendRet (SendDisconnected r) \<and> remit d = Some r) \<or>
     \<not> bit (send s) 0 \<and> slots (send s) = {..<30} \<and>
       (\<exists>r. remit d = Some r \<and> q = (if sc_blocking c then SendSpin c 32 r else SendRet (SendFull r)))"
proof (cases "try_reserve items (sc_bias c) (send s) m")
  case (Reserved r)
  then show ?thesis
    using that [of "TryFence c r d"] assms by (simp add: try_reserve_step_eq split: if_splits)
next
  case (Retry m')
  then show ?thesis using that [of "TryReserve c items m' d"] assms by (simp add: try_reserve_step_eq)
next
  case Disconnected
  then have "bit (send s) 0"
    by (auto simp: try_reserve_def Let_def slot_simps split: if_splits)
  then show ?thesis using that [of "SendRet (SendDisconnected (the (remit d)))"] assms Disconnected
    by (simp add: try_reserve_step_eq split: option.splits)
next
  case Full
  then have w: "\<not> bit (send s) 0 \<and> slots (send s) = {..<30}"
    by (auto simp: try_reserve_def Let_def contains_DEAD all_slots_taken_iff split: if_splits)
  from Full obtain r where "remit d = Some r"
    "s' = goto t (if sc_blocking c then SendSpin c 32 r else SendRet (SendFull r))
      (rmw_send Relaxed t (send s OR m) s)"
    using assms by (auto simp: try_reserve_step_eq split: option.splits)
  then show ?thesis using w by (intro that [of "if sc_blocking c then SendSpin c 32 r else SendRet (SendFull r)"]) blast+
qed

section \<open>Moves\<close>

text \<open>The calls that return at once, and the start of those that do not.  The last one is the drop
  of the storage.\<close>

inductive call_move :: "nat \<Rightarrow> 'a sys \<Rightarrow> 'a sys \<Rightarrow> bool" for t s s' where
  snd: "senders s h = Some bias \<Longrightarrow> fresh d \<Longrightarrow>
    s' = goto t (try_send_entry (SCall h bias blocking) d) s \<Longrightarrow>
    call_move t s s'"
| rcv: "h \<in> receivers s \<Longrightarrow>
    s' = goto t (ClaimAll (RCall h blocking)) s \<Longrightarrow>
    call_move t s s'"
| sclone: "senders s h = Some b \<Longrightarrow> senders s h' = None \<Longrightarrow> \<not> num_senders s > u32_max div 2 \<Longrightarrow>
    s' = goto t Idle (s\<lparr>num_senders := num_senders s + 1,
               senders := (senders s)(h' := Some (clone_bias (num_senders s)))\<rparr>) \<Longrightarrow>
    call_move t s s'"
| sdrop: "senders s h = Some b \<Longrightarrow> \<not> borrowed_sender s h \<Longrightarrow>
    s' = goto t (if num_senders s > 1 then Idle else SDropDead)
          (s\<lparr>num_senders := num_senders s - 1, senders := (senders s)(h := None)\<rparr>) \<Longrightarrow>
    call_move t s s'"
| rclone: "h \<in> receivers s \<Longrightarrow> h' \<notin> receivers s \<Longrightarrow> \<not> num_receivers s > u32_max div 2 \<Longrightarrow>
    s' = goto t Idle (s\<lparr>num_receivers := num_receivers s + 1, receivers := insert h' (receivers s)\<rparr>) \<Longrightarrow>
    call_move t s s'"
| rdrop: "h \<in> receivers s \<Longrightarrow> \<not> borrowed_receiver s h \<Longrightarrow>
    s' = goto t (if num_receivers s > 1 then Idle else RDropDead)
          (s\<lparr>num_receivers := num_receivers s - 1, receivers := receivers s - {h}\<rparr>) \<Longrightarrow>
    call_move t s s'"
| inner: "drop_inner t s = Next s' \<Longrightarrow> last_handle_gone s \<Longrightarrow>
    s' = goto t Idle (s\<lparr>bag := b, mem := v, inner_dropped := Some dropped\<rparr>) \<Longrightarrow>
    call_move t s s'"

text \<open>The moves of \<^verbatim>\<open>try_send\<close>.\<close>

inductive send_move :: "bool \<Rightarrow> nat \<Rightarrow> 'a sys \<Rightarrow> 'a sys \<Rightarrow> bool" for x86_64 t s s' where
  reserve: "threads s t = TryReserve c items m d \<Longrightarrow>
    s' = goto t q (rmw_send Relaxed t (send s OR m) s) \<Longrightarrow>
    ((\<exists>r. try_reserve items (sc_bias c) (send s) m = Reserved r \<and> count_ones r \<le> items \<and> q = TryFence c r d) \<or>
       (\<exists>m'. try_reserve items (sc_bias c) (send s) m = Retry m' \<and> q = TryReserve c items m' d) \<or>
       bit (send s) 0 \<and> (\<exists>r. q = SendRet (SendDisconnected r) \<and> remit d = Some r) \<or>
       \<not> bit (send s) 0 \<and> slots (send s) = {..<30} \<and>
         (\<exists>r. remit d = Some r \<and> q = (if sc_blocking c then SendSpin c 32 r else SendRet (SendFull r)))) \<Longrightarrow>
    send_move x86_64 t s s'"
| fence: "threads s t = TryFence c r d \<Longrightarrow>
    s' = goto t (TryWrite c r r d) (s\<lparr>mem := fence_acquire t (mem s)\<rparr>) \<Longrightarrow>
    send_move x86_64 t s s'"
| wr: "threads s t = TryWrite c r rest d \<Longrightarrow>
    drain_next mpmc_n rest = Some (i, rest') \<Longrightarrow>
    take_item d = Some (x, d') \<Longrightarrow>
    s' = goto t (TryWrite c r rest' d') (s\<lparr>bag := (bag s)(i := Some x), mem := access t i (mem s),
                    sent_log := sent_log s @ [x]\<rparr>) \<Longrightarrow>
    bag s i = None \<Longrightarrow>
    send_move x86_64 t s s'"
| wrdone: "threads s t = TryWrite c r rest d \<Longrightarrow>
    drain_next mpmc_n rest = None \<Longrightarrow>
    s' = goto t (TryCommit c r d) s \<Longrightarrow>
    send_move x86_64 t s s'"
| commit: "threads s t = TryCommit c r d \<Longrightarrow>
    s' = goto t q (rmw_recv Release t (commit_recv x86_64 r (recv s)) s) \<Longrightarrow>
    q = (if bit (recv s) 1 then SendRet (SendOk d) else TryWake c d) \<Longrightarrow>
    send_move x86_64 t s s'"

text \<open>The moves of \<^verbatim>\<open>try_recv\<close>.\<close>

inductive recv_move :: "bool \<Rightarrow> nat \<Rightarrow> 'a sys \<Rightarrow> 'a sys \<Rightarrow> bool" for x86_64 t s s' where
  claim: "threads s t = ClaimAll c \<Longrightarrow>
    s' = goto t q (rmw_recv Acquire t (recv s AND status_all) s) \<Longrightarrow>
    q = (if slots (recv s) = {} then if \<not> bit (recv s) 0 then RecvRet RecvDisconnected
              else if rc_blocking c then RecvSpin c 32 else RecvRet RecvEmpty
            else ClaimRead c (recv s AND NOT status_all) (recv s AND NOT status_all) []) \<Longrightarrow>
    recv_move x86_64 t s s'"
| rd: "threads s t = ClaimRead c cl rest vs \<Longrightarrow>
    drain_next mpmc_n rest = Some (i, rest') \<Longrightarrow>
    bag s i = Some x \<Longrightarrow>
    s' = goto t (ClaimRead c cl rest' (vs @ [x])) (s\<lparr>bag := (bag s)(i := None),
              mem := access t i (mem s), recv_log := recv_log s @ [x]\<rparr>) \<Longrightarrow>
    recv_move x86_64 t s s'"
| rddone: "threads s t = ClaimRead c cl rest vs \<Longrightarrow>
    drain_next mpmc_n rest = None \<Longrightarrow>
    s' = goto t (ClaimFence c cl vs) s \<Longrightarrow>
    recv_move x86_64 t s s'"
| rfence: "threads s t = ClaimFence c cl vs \<Longrightarrow>
    s' = goto t (ClaimRelease c cl vs) (s\<lparr>mem := fence_release t (mem s)\<rparr>) \<Longrightarrow>
    recv_move x86_64 t s s'"
| release: "threads s t = ClaimRelease c cl vs \<Longrightarrow>
    s' = goto t q (rmw_send Relaxed t (release_send x86_64 cl (send s)) s) \<Longrightarrow>
    q = (if bit (send s) 1 then ClaimWake c vs else RecvRet (RecvOk vs)) \<Longrightarrow>
    recv_move x86_64 t s s'"

text \<open>The spin loops, the futex calls around them and the wake-ups after a commit or a release.\<close>

inductive sleep_move :: "nat \<Rightarrow> 'a sys \<Rightarrow> 'a sys \<Rightarrow> bool" for t s s' where
  sspin: "threads s t = SendSpin c n d \<Longrightarrow>
    n = 0 \<Longrightarrow>
    w = send s OR SLEEPING \<Longrightarrow>
    send_spin_next c n d w q \<Longrightarrow>
    s' = goto t q (rmw_send Relaxed t w s) \<Longrightarrow>
    sleep_move t s s'"
| sload: "threads s t = SendSpin c n d \<Longrightarrow>
    n \<noteq> 0 \<Longrightarrow>
    w \<in> set (send_seen s) \<Longrightarrow>
    send_spin_next c n d w q \<Longrightarrow>
    s' = goto t q s \<Longrightarrow>
    sleep_move t s s'"
| ssleep: "threads s t = SendSleep c e d \<Longrightarrow>
    s' = goto t q s \<Longrightarrow>
    q = (if send s = e then SendAsleep c d else SendTorch c d) \<Longrightarrow>
    sleep_move t s s'"
| sintr: "threads s t = SendAsleep c d \<Longrightarrow>
    s' = goto t (SendTorch c d) s \<Longrightarrow>
    sleep_move t s s'"
| storch: "threads s t = SendTorch c d \<Longrightarrow>
    s' = goto t (try_send_entry c d) (rmw_send Relaxed t (send s OR SLEEPING) s) \<Longrightarrow>
    sleep_move t s s'"
| twake: "threads s t = TryWake c d \<Longrightarrow>
    wake_allowed (n_threads s) (\<lambda>u. recv_asleep (threads s u)) 1 W \<Longrightarrow>
    s' = goto t (SendRet (SendOk d)) (wake W s) \<Longrightarrow>
    sleep_move t s s'"
| rspin: "threads s t = RecvSpin c n \<Longrightarrow>
    n = 0 \<Longrightarrow>
    w = recv s AND NOT SLEEPING \<Longrightarrow>
    recv_spin_next c n w q \<Longrightarrow>
    s' = goto t q (rmw_recv Relaxed t w s) \<Longrightarrow>
    sleep_move t s s'"
| rload: "threads s t = RecvSpin c n \<Longrightarrow>
    n \<noteq> 0 \<Longrightarrow>
    w \<in> set (recv_seen s) \<Longrightarrow>
    recv_spin_next c n w q \<Longrightarrow>
    s' = goto t q s \<Longrightarrow>
    sleep_move t s s'"
| rsleep: "threads s t = RecvSleep c e \<Longrightarrow>
    s' = goto t q s \<Longrightarrow>
    q = (if recv s = e then RecvAsleep c else RecvTorch c) \<Longrightarrow>
    sleep_move t s s'"
| rintr: "threads s t = RecvAsleep c \<Longrightarrow>
    s' = goto t (RecvTorch c) s \<Longrightarrow>
    sleep_move t s s'"
| rtorch: "threads s t = RecvTorch c \<Longrightarrow>
    s' = goto t (ClaimAll c) (rmw_recv Relaxed t (recv s AND NOT SLEEPING) s) \<Longrightarrow>
    sleep_move t s s'"
| cwake: "threads s t = ClaimWake c vs \<Longrightarrow>
    wake_allowed (n_threads s) (\<lambda>u. send_asleep (threads s u)) 1 W \<Longrightarrow>
    s' = goto t (RecvRet (RecvOk vs)) (wake W s) \<Longrightarrow>
    sleep_move t s s'"

text \<open>The announcements of the last drop of a side.\<close>

inductive death_move :: "nat \<Rightarrow> 'a sys \<Rightarrow> 'a sys \<Rightarrow> bool" for t s s' where
  sdead: "threads s t = SDropDead \<Longrightarrow>
    s' = goto t q (rmw_recv Relaxed t (recv s AND NOT COUNTERPARTY_DEAD) s) \<Longrightarrow>
    q = (if bit (recv s) 1 then Idle else SDropWake) \<Longrightarrow>
    death_move t s s'"
| sdwake: "threads s t = SDropWake \<Longrightarrow>
    wake_allowed (n_threads s) (\<lambda>u. recv_asleep (threads s u)) u32_max W \<Longrightarrow>
    s' = goto t Idle (wake W s) \<Longrightarrow>
    death_move t s s'"
| rdead: "threads s t = RDropDead \<Longrightarrow>
    s' = goto t q (rmw_send Relaxed t (send s OR COUNTERPARTY_DEAD) s) \<Longrightarrow>
    q = (if bit (send s) 1 then RDropWake else Idle) \<Longrightarrow>
    death_move t s s'"
| rdwake: "threads s t = RDropWake \<Longrightarrow>
    wake_allowed (n_threads s) (\<lambda>u. send_asleep (threads s u)) u32_max W \<Longrightarrow>
    s' = goto t Idle (wake W s) \<Longrightarrow>
    death_move t s s'"

section \<open>Every step is a move\<close>

lemma drop_inner_Next:
  assumes "drop_inner t s = Next s'"
  obtains b v dropped where "last_handle_gone s"
    "drain_mask mpmc_n (recv s AND NOT status_all) (drop_slot t)
       (Inr (bag s, load_acquire t RecvWord (mem s), [])) = Some (Inr (b, v, dropped))"
    "s' = goto t Idle (s\<lparr>bag := b, mem := v, inner_dropped := Some dropped\<rparr>)"
proof (cases "drain_mask mpmc_n (recv s AND NOT status_all) (drop_slot t)
       (Inr (bag s, load_acquire t RecvWord (mem s), []))")
  case (Some r)
  then show ?thesis using assms that
    by (cases r) (auto simp: drop_inner_def Let_def split: if_splits)
qed (use assms in \<open>auto simp: drop_inner_def Let_def split: if_splits\<close>)

lemma start_move:
  assumes "start t k s = Next s'"
  shows "call_move t s s'"
proof (cases k)
  case (CallTrySend h d)
  then show ?thesis using assms
    by (auto simp: start_def dest!: try_send_start_next intro: call_move.snd split: option.splits if_splits)
next
  case (CallSend h d)
  then show ?thesis using assms
    by (auto simp: start_def dest!: try_send_start_next intro: call_move.snd split: option.splits if_splits)
next
  case (CallTryRecv h)
  then show ?thesis using assms by (auto simp: start_def intro: call_move.rcv split: if_splits)
next
  case (CallRecv h)
  then show ?thesis using assms by (auto simp: start_def intro: call_move.rcv split: if_splits)
next
  case (CloneSender h h')
  then show ?thesis using assms call_move.sclone [of s h _ h']
    by (auto simp: start_def clone_sender_def Let_def split: if_splits)
next
  case (DropSender h)
  then show ?thesis using assms call_move.sdrop [of s h]
    by (auto simp: start_def drop_sender_def Let_def split: if_splits)
next
  case (CloneReceiver h h')
  then show ?thesis using assms call_move.rclone [of h s h']
    by (auto simp: start_def clone_receiver_def Let_def split: if_splits)
next
  case (DropReceiver h)
  then show ?thesis using assms call_move.rdrop [of h s]
    by (auto simp: start_def drop_receiver_def Let_def split: if_splits)
next
  case DropInner
  then have d: "drop_inner t s = Next s'" using assms by (simp add: start_def)
  then show ?thesis by (rule drop_inner_Next) (rule call_move.inner [OF d])
qed

lemma write_move:
  assumes "threads s t = TryWrite c r rest d" "try_write_step t c r rest d s = Next s'"
  shows "send_move x86_64 t s s'"
proof (cases "drain_next mpmc_n rest")
  case None
  then show ?thesis using assms by (intro send_move.wrdone) (auto simp: try_write_step_def)
next
  case (Some p)
  obtain i rest' where p: "p = (i, rest')" by (cases p)
  show ?thesis
  proof (cases "take_item d")
    case None
    then show ?thesis using assms Some p by (simp add: try_write_step_def)
  next
    case td: (Some e)
    obtain x d' where "e = (x, d')" by (cases e)
    then show ?thesis using assms Some p td
      by (intro send_move.wr [of s t c r rest d i rest' x d']) (auto simp: try_write_step_def split: if_splits)
  qed
qed

lemma reserve_move:
  assumes "threads s t = TryReserve c items m d" "try_reserve_step t c items m d s = Next s'"
  shows "send_move x86_64 t s s'"
  using assms(2) by (rule reserve_effect) (rule send_move.reserve [OF assms(1)])

lemma fence_move:
  assumes "threads s t = TryFence c r d" "try_fence_step t c r d s = Next s'"
  shows "send_move x86_64 t s s'"
  using assms by (intro send_move.fence) (auto simp: try_fence_step_def)

lemma commit_move:
  assumes "threads s t = TryCommit c r d" "try_commit_step x86_64 t c r d s = Next s'"
  shows "send_move x86_64 t s s'"
  using assms
  by (intro send_move.commit) (auto simp: try_commit_step_def Let_def contains_SLEEPING bit_not_iff)

lemma claim_move:
  assumes "threads s t = ClaimAll c" "claim_all_step t c s = Next s'"
  shows "recv_move x86_64 t s s'"
proof -
  have dead: "contains (NOT (recv s)) COUNTERPARTY_DEAD \<longleftrightarrow> \<not> bit (recv s) 0"
    by (simp add: contains_DEAD bit_not_iff)
  have "goto t (if slots (recv s) = {} then if \<not> bit (recv s) 0 then RecvRet RecvDisconnected
              else if rc_blocking c then RecvSpin c 32 else RecvRet RecvEmpty
            else ClaimRead c (recv s AND NOT status_all) (recv s AND NOT status_all) [])
          (rmw_recv Acquire t (recv s AND status_all) s) = s'"
    using assms(2) unfolding claim_all_step_eq Let_def dead items_eq_0_iff by (rule outcome.inject(1) [THEN iffD1])
  from this [symmetric] show ?thesis by (rule recv_move.claim [OF assms(1) _ refl])
qed

lemma read_move:
  assumes "threads s t = ClaimRead c cl rest vs" "claim_read_step t c cl rest vs s = Next s'"
  shows "recv_move x86_64 t s s'"
proof (cases "drain_next mpmc_n rest")
  case None
  then show ?thesis using assms by (intro recv_move.rddone) (auto simp: claim_read_step_def)
next
  case (Some p)
  obtain i rest' where p: "p = (i, rest')" by (cases p)
  show ?thesis
  proof (cases "bag s i")
    case None
    then show ?thesis using assms Some p by (simp add: claim_read_step_def split: if_splits)
  next
    case b: (Some x)
    then show ?thesis using assms Some p
      by (intro recv_move.rd [of s t c cl rest vs i rest' x]) (auto simp: claim_read_step_def split: if_splits)
  qed
qed

lemma rfence_move:
  assumes "threads s t = ClaimFence c cl vs" "claim_fence_step t c cl vs s = Next s'"
  shows "recv_move x86_64 t s s'"
  using assms by (intro recv_move.rfence) (auto simp: claim_fence_step_def)

lemma release_move:
  assumes "threads s t = ClaimRelease c cl vs" "claim_release_step x86_64 t c cl vs s = Next s'"
  shows "recv_move x86_64 t s s'"
  using assms by (intro recv_move.release) (auto simp: claim_release_step_def Let_def contains_SLEEPING)

lemma send_spin_move:
  assumes "threads s t = SendSpin c n d"
  shows "send_spin_rmw t c n d s = Next s' \<Longrightarrow> sleep_move t s s'"
    and "send_spin_load t c n d w s = Next s' \<Longrightarrow> sleep_move t s s'"
proof -
  assume "send_spin_rmw t c n d s = Next s'"
  then have "send_spin_goto t c n d (send s OR SLEEPING) (rmw_send Relaxed t (send s OR SLEEPING) s) = Next s'"
    and n: "n = 0" by (simp_all add: send_spin_rmw_def Let_def split: if_splits)
  then show "sleep_move t s s'"
    by (elim send_spin_goto_next) (rule sleep_move.sspin [OF assms n refl])
next
  assume "send_spin_load t c n d w s = Next s'"
  then have "send_spin_goto t c n d w s = Next s'" and n: "n \<noteq> 0" "w \<in> set (send_seen s)"
    by (simp_all add: send_spin_load_def split: if_splits)
  then show "sleep_move t s s'" by (elim send_spin_goto_next) (rule sleep_move.sload [OF assms n])
qed

lemma recv_spin_move:
  assumes "threads s t = RecvSpin c n"
  shows "recv_spin_rmw t c n s = Next s' \<Longrightarrow> sleep_move t s s'"
    and "recv_spin_load t c n w s = Next s' \<Longrightarrow> sleep_move t s s'"
proof -
  assume "recv_spin_rmw t c n s = Next s'"
  then have "recv_spin_goto t c n (recv s AND NOT SLEEPING) (rmw_recv Relaxed t (recv s AND NOT SLEEPING) s) = Next s'"
    and n: "n = 0" by (simp_all add: recv_spin_rmw_def Let_def split: if_splits)
  then show "sleep_move t s s'"
    by (elim recv_spin_goto_next) (rule sleep_move.rspin [OF assms n refl])
next
  assume "recv_spin_load t c n w s = Next s'"
  then have "recv_spin_goto t c n w s = Next s'" and n: "n \<noteq> 0" "w \<in> set (recv_seen s)"
    by (simp_all add: recv_spin_load_def split: if_splits)
  then show "sleep_move t s s'" by (elim recv_spin_goto_next) (rule sleep_move.rload [OF assms n])
qed

lemma futex_move:
  "threads s t = SendSleep c e d \<Longrightarrow> send_sleep_step t c e d s = Next s' \<Longrightarrow> sleep_move t s s'"
  "threads s t = SendTorch c d \<Longrightarrow> send_torch_step t c d s = Next s' \<Longrightarrow> sleep_move t s s'"
  "threads s t = RecvSleep k e \<Longrightarrow> recv_sleep_step t k e s = Next s' \<Longrightarrow> sleep_move t s s'"
  "threads s t = RecvTorch k \<Longrightarrow> recv_torch_step t k s = Next s' \<Longrightarrow> sleep_move t s s'"
  by (auto simp: send_sleep_step_def send_torch_step_def recv_sleep_step_def recv_torch_step_def wait_blocks_def
      dest!: try_send_start_next intro: sleep_move.intros)

lemma wake_move:
  "threads s t = TryWake c d \<Longrightarrow> wake_step t recv_asleep 1 (SendRet (SendOk d)) W s = Next s' \<Longrightarrow> sleep_move t s s'"
  "threads s t = ClaimWake k vs \<Longrightarrow> wake_step t send_asleep 1 (RecvRet (RecvOk vs)) W s = Next s' \<Longrightarrow> sleep_move t s s'"
  "threads s t = SDropWake \<Longrightarrow> wake_step t recv_asleep u32_max Idle W s = Next s' \<Longrightarrow> death_move t s s'"
  "threads s t = RDropWake \<Longrightarrow> wake_step t send_asleep u32_max Idle W s = Next s' \<Longrightarrow> death_move t s s'"
  by (auto simp: wake_step_def split: if_splits
      intro: sleep_move.twake sleep_move.cwake death_move.sdwake death_move.rdwake)

lemma dead_move:
  "threads s t = SDropDead \<Longrightarrow> sdrop_dead_step t s = Next s' \<Longrightarrow> death_move t s s'"
  "threads s t = RDropDead \<Longrightarrow> rdrop_dead_step t s = Next s' \<Longrightarrow> death_move t s s'"
  by (auto simp: sdrop_dead_step_def rdrop_dead_step_def Let_def contains_SLEEPING bit_not_iff
      intro: death_move.sdead death_move.rdead)

lemmas handler_moves = reserve_move fence_move write_move commit_move claim_move read_move rfence_move release_move
  send_spin_move recv_spin_move futex_move wake_move dead_move sleep_move.sintr sleep_move.rintr

theorem step_moves:
  assumes "step x86_64 t a s = Next s'"
  obtains
    (call) "ready (threads s t)" "call_move t s s'"
  | (send) "send_move x86_64 t s s'"
  | (recv) "recv_move x86_64 t s s'"
  | (sleep) "sleep_move t s s'"
  | (death) "death_move t s s'"
  using assms by (cases rule: step_NextE) (use that in \<open>blast intro: start_move handler_moves\<close>)+

end
