(* ===== verification/Mpmc_Wf.thy ===== *)
theory Mpmc_Wf
  imports Mpmc_Effect
begin

text \<open>
  What holds of the local variables of a call, whatever the other threads do: the masks carry
  no status bits, a sender never reserves more slots than it has items, a receiver collects
  exactly as many values as it claimed, nobody goes to sleep on a word that leaves work to do.
\<close>

section \<open>Local well-formedness\<close>

fun wf_pc :: "'a pc \<Rightarrow> bool" where
  "wf_pc (TryReserve c items m d) \<longleftrightarrow> fresh d \<and> items = length (contents d) \<and> 0 < items \<and>
     status_free m \<and> slots m \<noteq> {} \<and> card (slots m) \<le> items"
| "wf_pc (TryFence c r d) \<longleftrightarrow> status_free r \<and> slots r \<noteq> {} \<and> card (slots r) \<le> length (contents d)"
| "wf_pc (TryWrite c r rest d) \<longleftrightarrow> status_free r \<and> slots r \<noteq> {} \<and> slots rest \<subseteq> slots r \<and>
     card (slots rest) \<le> length (contents d)"
| "wf_pc (TryCommit c r d) \<longleftrightarrow> status_free r \<and> slots r \<noteq> {}"
| "wf_pc (SendSpin c n d) \<longleftrightarrow> fresh d \<and> contents d \<noteq> []"
| "wf_pc (SendSleep c e d) \<longleftrightarrow> fresh d \<and> contents d \<noteq> [] \<and> slots e = {..<30} \<and> bit e 1 \<and> \<not> bit e 0"
| "wf_pc (SendAsleep c d) \<longleftrightarrow> fresh d \<and> contents d \<noteq> []"
| "wf_pc (SendTorch c d) \<longleftrightarrow> fresh d \<and> contents d \<noteq> []"
| "wf_pc (SendRet (SendDisconnected d)) \<longleftrightarrow> fresh d"
| "wf_pc (SendRet (SendFull d)) \<longleftrightarrow> fresh d"
| "wf_pc (ClaimRead c cl rest vs) \<longleftrightarrow> status_free cl \<and> slots cl \<noteq> {} \<and> slots rest \<subseteq> slots cl \<and>
     length vs + card (slots rest) = card (slots cl)"
| "wf_pc (ClaimFence c cl vs) \<longleftrightarrow> status_free cl \<and> slots cl \<noteq> {} \<and> length vs = card (slots cl)"
| "wf_pc (ClaimRelease c cl vs) \<longleftrightarrow> status_free cl \<and> slots cl \<noteq> {} \<and> length vs = card (slots cl)"
| "wf_pc (ClaimWake c vs) \<longleftrightarrow> 0 < length vs \<and> length vs \<le> 30"
| "wf_pc (RecvRet (RecvOk vs)) \<longleftrightarrow> 0 < length vs \<and> length vs \<le> 30"
| "wf_pc (RecvSleep c e) \<longleftrightarrow> slots e = {} \<and> \<not> bit e 1 \<and> bit e 0"
| "wf_pc _ = True"

lemma wf_wake_pc [simp]: "wf_pc (wake_pc p) = wf_pc p"
  by (cases p) auto

lemma card_slots_le: "card (slots w) \<le> 30"
  using card_mono [of "{..<30}" "slots w"] slots_lt by auto

lemma slots_nonempty_card: "slots w \<noteq> {} \<Longrightarrow> 0 < card (slots w)"
  by (simp add: card_gt_0_iff)

lemma fresh_items: "fresh d \<Longrightarrow> available_items d = length (contents d)"
  by (rule buf.available_contents)

lemma wf_try_send_entry:
  assumes "fresh d" "unat (sc_bias c) < 30"
  shows "wf_pc (try_send_entry c d)"
proof (cases "contents d = []")
  case True
  then show ?thesis using assms by (simp add: try_send_entry_def fresh_items)
next
  case False
  let ?n = "length (contents d)"
  have "0 < ?n" using False by simp
  moreover have "card (slots (compute_request_mask 30 ?n (sc_bias c))) = min ?n 30"
    using \<open>0 < ?n\<close> assms by (intro card_request_mask)
  ultimately show ?thesis
    using assms False status_free_request_mask [of ?n "sc_bias c"]
    by (auto simp: try_send_entry_def fresh_items mpmc_n_def Let_def min_def split: if_splits)
qed

lemma try_reserve_Reserved:
  assumes "try_reserve items bias prev m = Reserved r" "status_free m"
  shows "status_free r" "slots r = slots m - slots prev" "slots r \<noteq> {}" "\<not> bit prev 0"
proof -
  have r: "r = NOT (prev OR status_all) AND m" "r > 0" "\<not> bit prev 0"
    using assms(1) by (auto simp: try_reserve_def Let_def slot_simps split: if_splits)
  show "status_free r" using r(1) assms(2) by (simp add: status_free_iff bit_and_iff)
  then show "slots r \<noteq> {}" using r(2) status_free_eq_0_iff [of r] by auto
  show "slots r = slots m - slots prev"
    unfolding r(1) by (auto simp: slot_simps dest: slots_lt)
  show "\<not> bit prev 0" by fact
qed

lemma try_reserve_Retry:
  assumes "try_reserve items bias prev m = Retry m'" "status_free m" "0 < items"
  shows "status_free m'" "slots m' \<subseteq> {..<30} - slots prev" "slots m' \<noteq> {}" "card (slots m') \<le> items"
    "slots m \<subseteq> slots prev" "\<not> bit prev 0"
proof -
  let ?free = "NOT (prev OR status_all)"
  have m': "m' = clear_extra_bits ?free items (even (unat bias))"
    and nf: "prev OR status_all \<noteq> u32_max" and z: "?free AND m = 0" and d: "\<not> bit prev 0"
    using assms(1) word_gt_0 by (auto simp: try_reserve_def Let_def slot_simps split: if_splits)
  have sub: "bit ?free j" if "bit m' j" for j
    using that clear_extra_bits_subset unfolding m' by blast
  have sf: "status_free ?free" by (simp add: status_free_iff bit_and_iff bit_not_iff bit_or_iff slot_simps)
  then show sf': "status_free m'" using sub unfolding status_free_iff by blast
  show "slots m' \<subseteq> {..<30} - slots prev"
    using sub by (fastforce simp: slots_iff bit_and_iff bit_not_iff bit_or_iff)
  have "slots ?free \<noteq> {}"
    using nf unfolding all_slots_taken_iff by (auto simp: slot_simps dest: slots_lt)
  then have "0 < count_ones ?free" using sf by (simp add: count_ones_slots card_gt_0_iff)
  moreover have c: "card (slots m') = min (count_ones ?free) items"
    using count_ones_slots [OF sf'] count_ones_clear_extra_bits [of ?free items] unfolding m' by metis
  ultimately show "slots m' \<noteq> {}" using assms(3) by auto
  show "card (slots m') \<le> items" using c by simp
  have "slots (?free AND m) = {}" using z by simp
  then show "slots m \<subseteq> slots prev" by (auto simp: slot_simps dest: slots_lt)
  show "\<not> bit prev 0" by fact
qed

lemma wf_spin_next:
  "send_spin_next c n d w q \<Longrightarrow> fresh d \<Longrightarrow> contents d \<noteq> [] \<Longrightarrow> unat (sc_bias c) < 30 \<Longrightarrow> wf_pc q"
  "recv_spin_next k n w q' \<Longrightarrow> wf_pc q'"
  unfolding send_spin_next_def recv_spin_next_def
  by (elim disjE conjE, simp_all add: wf_try_send_entry) (elim disjE conjE, simp_all)

text \<open>Every step leaves every program counter well formed.\<close>

definition wf_threads :: "(nat \<Rightarrow> 'a pc) \<Rightarrow> bool" where
  "wf_threads th \<longleftrightarrow> (\<forall>u. wf_pc (th u))"

lemma wf_threads_upd: "wf_threads th \<Longrightarrow> wf_pc p \<Longrightarrow> wf_threads (th(t := p))"
  by (simp add: wf_threads_def)

lemma wf_threads_goto:
  "wf_threads (threads s) \<Longrightarrow> wf_pc p \<Longrightarrow> threads s1 = threads s \<Longrightarrow> wf_threads (threads (goto t p s1))"
  by (simp add: goto_def wf_threads_upd)

lemma drain_next_wf:
  assumes "drain_next mpmc_n rest = Some (i, rest')"
  shows "i \<in> slots rest" "slots rest' = slots rest - {i}" "Suc (card (slots rest')) = card (slots rest)"
proof -
  note d = drain_next_Some [OF assms [unfolded mpmc_n_def]]
  show "i \<in> slots rest" "slots rest' = slots rest - {i}" by (fact d)+
  show "Suc (card (slots rest')) = card (slots rest)"
    unfolding d(3) by (rule card_Suc_Diff1 [OF finite_slots d(1)])
qed

lemma wf_threads_wake: "wf_threads (threads s) \<Longrightarrow> wf_threads (threads (wake W s))"
  by (simp add: wf_threads_def)

lemma wf_threads_next:
  assumes "wf_threads (threads s)" "s' = goto t q s1" "threads s1 = threads s \<or> threads s1 = threads (wake W s)" "wf_pc q"
  shows "wf_threads (threads s')"
  using assms wf_threads_wake [of s W] by (auto simp: wf_threads_upd)

lemma wf_call_move:
  assumes "call_move t s s'" and wf: "wf_threads (threads s)"
    and bias: "\<And>h b. senders s h = Some b \<Longrightarrow> unat b < 30"
  shows "wf_threads (threads s')"
  using assms(1)
proof cases
  case (snd h b d blocking)
  then show ?thesis using bias by (intro wf_threads_next [OF wf snd(3)] wf_try_send_entry) auto
next
  case (rcv h blocking) then show ?thesis by (intro wf_threads_next [OF wf rcv(2)]) auto
next
  case (sclone h b h') then show ?thesis by (intro wf_threads_next [OF wf sclone(4)]) auto
next
  case (sdrop h b) then show ?thesis by (intro wf_threads_next [OF wf sdrop(3)]) auto
next
  case (rclone h h') then show ?thesis by (intro wf_threads_next [OF wf rclone(4)]) auto
next
  case (rdrop h) then show ?thesis by (intro wf_threads_next [OF wf rdrop(3)]) auto
next
  case (inner b v dropped) then show ?thesis by (intro wf_threads_next [OF wf inner(3)]) auto
qed

lemma wf_reserve:
  assumes "wf_pc (TryReserve c items m d)"
    and "(\<exists>r. try_reserve items (sc_bias c) prev m = Reserved r \<and> count_ones r \<le> items \<and> q = TryFence c r d) \<or>
       (\<exists>m'. try_reserve items (sc_bias c) prev m = Retry m' \<and> q = TryReserve c items m' d) \<or>
       bit prev 0 \<and> (\<exists>r. q = SendRet (SendDisconnected r) \<and> remit d = Some r) \<or>
       \<not> bit prev 0 \<and> slots prev = {..<30} \<and>
         (\<exists>r. remit d = Some r \<and> q = (if sc_blocking c then SendSpin c 32 r else SendRet (SendFull r)))"
  shows "wf_pc q"
proof -
  have w: "fresh d" "items = length (contents d)" "0 < items" "status_free m" "card (slots m) \<le> items"
    using assms(1) by auto
  have reserved: "wf_pc (TryFence c r d)" if "try_reserve items (sc_bias c) prev m = Reserved r" for r
  proof -
    note r = try_reserve_Reserved [OF that w(4)]
    have "card (slots m - slots prev) \<le> items"
      using w(5) card_mono [of "slots m" "slots m - slots prev"] by simp
    then show ?thesis using r w by simp
  qed
  have retry: "wf_pc (TryReserve c items m' d)" if "try_reserve items (sc_bias c) prev m = Retry m'" for m'
    using try_reserve_Retry [OF that w(4,3)] w by simp
  have "remit d = Some r \<Longrightarrow> r = d" for r using buf.remit_fresh [OF w(1)] by simp
  then have "wf_pc (SendRet (SendDisconnected r))" "wf_pc (if sc_blocking c then SendSpin c 32 r else SendRet (SendFull r))"
    if "remit d = Some r" for r using that w(1-3) by auto
  then show ?thesis using assms(2) reserved retry by blast
qed

lemma wf_send_move:
  assumes "send_move x86_64 t s s'" and wf: "wf_threads (threads s)"
  shows "wf_threads (threads s')"
proof -
  have p: "wf_pc (threads s t)" using wf by (simp add: wf_threads_def)
  note step = wf_threads_next [OF wf]
  from assms(1) show ?thesis
  proof cases
    case (reserve c items m d q)
    have "wf_pc q" using wf_reserve [OF _ reserve(3)] p unfolding reserve(1) .
    then show ?thesis by (intro step [OF reserve(2)]) auto
  next
    case (fence c r d)
    then show ?thesis using p by (intro step [OF fence(2)]) auto
  next
    case (wr c r rest d i rest' x d')
    note dn = drain_next_wf [OF wr(2)]
    have "length (contents d) = Suc (length (contents d'))" using take_item_Some [OF wr(3)] by simp
    then have "wf_pc (TryWrite c r rest' d')" using p wr(1) dn by auto
    then show ?thesis by (intro step [OF wr(4)]) auto
  next
    case (wrdone c r rest d)
    then show ?thesis using p by (intro step [OF wrdone(3)]) auto
  next
    case (commit c r d q)
    then show ?thesis using p by (intro step [OF commit(2)]) auto
  qed
qed

lemma wf_recv_move:
  assumes "recv_move x86_64 t s s'" and wf: "wf_threads (threads s)"
  shows "wf_threads (threads s')"
proof -
  have p: "wf_pc (threads s t)" using wf by (simp add: wf_threads_def)
  note step = wf_threads_next [OF wf]
  from assms(1) show ?thesis
  proof cases
    case (claim c q)
    have "status_free (recv s AND NOT status_all)" by (simp add: status_free_iff bit_and_iff bit_not_iff slot_simps)
    then have "wf_pc q" using claim(3) by (auto simp: slots_claim)
    then show ?thesis by (intro step [OF claim(2)]) auto
  next
    case (rd c cl rest vs i rest' x)
    note dn = drain_next_wf [OF rd(2)]
    have "wf_pc (ClaimRead c cl rest' (vs @ [x]))" using p rd(1) dn by auto
    then show ?thesis by (intro step [OF rd(4)]) auto
  next
    case (rddone c cl rest vs)
    then have "slots rest = {}" by (simp add: mpmc_n_def)
    then show ?thesis using p rddone(1) by (intro step [OF rddone(3)]) auto
  next
    case (rfence c cl vs)
    then show ?thesis using p by (intro step [OF rfence(2)]) auto
  next
    case (release c cl vs q)
    then have "0 < length vs" "length vs \<le> 30"
      using p card_slots_le [of cl] slots_nonempty_card [of cl] by auto
    then show ?thesis using release(3) by (intro step [OF release(2)]) auto
  qed
qed

lemma wf_sleep_move:
  assumes "sleep_move t s s'" and wf: "wf_threads (threads s)"
    and calls: "\<And>c. scall_of (threads s t) = Some c \<Longrightarrow> unat (sc_bias c) < 30"
  shows "wf_threads (threads s')"
proof -
  have p: "wf_pc (threads s t)" using wf by (simp add: wf_threads_def)
  note step = wf_threads_next [OF wf]
  from assms(1) show ?thesis
  proof cases
    case (sspin c n d w q)
    then show ?thesis using p wf_spin_next(1) calls by (intro step [OF sspin(5)]) auto
  next
    case (sload c n d w q)
    then show ?thesis using p wf_spin_next(1) calls by (intro step [OF sload(5)]) auto
  next
    case (ssleep c e d q) then show ?thesis using p by (intro step [OF ssleep(2)]) auto
  next
    case (sintr c d) then show ?thesis using p by (intro step [OF sintr(2)]) auto
  next
    case (storch c d)
    then show ?thesis using p calls by (intro step [OF storch(2)] wf_try_send_entry) auto
  next
    case (twake c d W) then show ?thesis by (intro step [OF twake(3), of W]) auto
  next
    case (rspin c n w q) then show ?thesis using wf_spin_next(2) by (intro step [OF rspin(5)]) auto
  next
    case (rload c n w q) then show ?thesis using wf_spin_next(2) by (intro step [OF rload(5)]) auto
  next
    case (rsleep c e q) then show ?thesis by (intro step [OF rsleep(2)]) auto
  next
    case (rintr c) then show ?thesis by (intro step [OF rintr(2)]) auto
  next
    case (rtorch c) then show ?thesis by (intro step [OF rtorch(2)]) auto
  next
    case (cwake c vs W) then show ?thesis using p by (intro step [OF cwake(3), of W]) auto
  qed
qed

lemma wf_death_move:
  assumes "death_move t s s'" and wf: "wf_threads (threads s)"
  shows "wf_threads (threads s')"
  using assms(1)
proof cases
  case (sdead q) then show ?thesis by (intro wf_threads_next [OF wf sdead(2)]) auto
next
  case (sdwake W) then show ?thesis by (intro wf_threads_next [OF wf sdwake(3), of W]) auto
next
  case (rdead q) then show ?thesis by (intro wf_threads_next [OF wf rdead(2)]) auto
next
  case (rdwake W) then show ?thesis by (intro wf_threads_next [OF wf rdwake(3), of W]) auto
qed

lemma wf_step:
  assumes "step x86_64 t a s = Next s'" and wf: "wf_threads (threads s)"
    and bias: "\<And>h b. senders s h = Some b \<Longrightarrow> unat b < 30"
    and calls: "\<And>c. scall_of (threads s t) = Some c \<Longrightarrow> unat (sc_bias c) < 30"
  shows "wf_threads (threads s')"
  using assms(1)
proof (cases rule: step_moves)
  case call
  from call(2) wf bias show ?thesis by (rule wf_call_move)
next
  case send
  then show ?thesis using wf by (rule wf_send_move)
next
  case recv
  then show ?thesis using wf by (rule wf_recv_move)
next
  case sleep
  then show ?thesis using wf calls by (rule wf_sleep_move)
next
  case death
  then show ?thesis using wf by (rule wf_death_move)
qed

end
