(* ===== verification/Mpmc_Inv.thy ===== *)
theory Mpmc_Inv
  imports Mpmc_Wf
begin

text \<open>
  The ownership discipline is an invariant: every step of every thread keeps \<open>core\<close>, as long as
  the storage has not been dropped.
\<close>

definition core_inv :: "'a sys \<Rightarrow> bool" where
  "core_inv s \<longleftrightarrow> core (slots (send s)) (slots (recv s)) (threads s) (bag s) (mem s)"

lemma slots_subset_30: "slots w \<subseteq> {..<30}"
  by (auto dest: slots_lt)

lemma ready_owned [simp]: "ready p \<Longrightarrow> owned p = {}" "ready p \<Longrightarrow> filled p = {}"
  by (cases p; simp)+

lemma pc_if [simp]:
  "owned (if b then p else q) = (if b then owned p else owned q)"
  "filled (if b then p else q) = (if b then filled p else filled q)"
  "stage t (if b then p else q) = (if b then stage t p else stage t q)"
  "scall_of (if b then p else q) = (if b then scall_of p else scall_of q)"
  "rcall_of (if b then p else q) = (if b then rcall_of p else rcall_of q)"
  by simp_all

lemma core_inv_quiet:
  assumes "core_inv s" "owned p = owned (threads s t)" "filled p = filled (threads s t)"
    and "owned (threads s t) \<noteq> {} \<Longrightarrow> stage t p = stage t (threads s t)"
    and "slots (send s1) = slots (send s)" "slots (recv s1) = slots (recv s)" "bag s1 = bag s"
      "threads s1 = threads s"
    and "mem s1 = mem s \<or> (\<exists>ord l. mem s1 = rmw ord t l (mem s))"
  shows "core_inv (goto t p s1)"
proof -
  have ok: "views_ok (mem s)" using assms(1) coreD(7) by (fastforce simp: core_inv_def)
  have "core (slots (send s)) (slots (recv s)) ((threads s)(t := p)) (bag s) (mem s1)"
    using assms(9) ok by (intro core_quiet [OF assms(1) [unfolded core_inv_def] _ _ assms(2-4)]) auto
  then show ?thesis by (simp add: core_inv_def assms)
qed

lemma owned_try_send_entry [simp]:
  "owned (try_send_entry c d) = {}" "filled (try_send_entry c d) = {}"
  by (simp_all add: try_send_entry_def Let_def)

lemma owned_spin_next:
  "send_spin_next c n d w q \<Longrightarrow> owned q = {} \<and> filled q = {}"
  "recv_spin_next k n w q' \<Longrightarrow> owned q' = {} \<and> filled q' = {}"
  unfolding send_spin_next_def recv_spin_next_def by (elim disjE conjE, simp_all)+

section \<open>The moves of a send\<close>

lemma core_inv_reserve:
  assumes c: "core_inv s" and t: "threads s t = TryReserve k items m d"
    and own: "owned q \<subseteq> slots m - slots (send s)" "filled q = {}" "owned q \<noteq> {} \<Longrightarrow> stage t q = Acq t"
  shows "core_inv (goto t q (rmw_send Relaxed t (send s OR m) s))"
proof -
  note core = c [unfolded core_inv_def]
  have ok: "views_ok (mem s)" using coreD(7) [OF core] .
  let ?v = "rmw Relaxed t SendWord (mem s)"
  have "knows ?v (stage t q) i" if i: "i \<in> owned q" for i
  proof -
    have "i < 30" "i \<notin> slots (send s)" using i own(1) by (auto dest: slots_lt)
    then have k: "knows ?v (Acq t) i" using coreD(8) [OF core] rmw_reads(1) [OF ok] by blast
    have "stage t q = Acq t" using own(3) i by blast
    then show ?thesis using k by simp
  qed
  then have "core (slots (send s) \<union> slots m) (slots (recv s)) ((threads s)(t := q)) (bag s) ?v"
    using t own(1,2) ok by (intro core_reserve [OF core]) (auto simp: slots_subset_30)
  then show ?thesis by (simp add: core_inv_def slots_or)
qed

lemma core_inv_send_move:
  assumes "send_move x86_64 t s s'" and c: "core_inv s" and wf: "wf_threads (threads s)"
  shows "core_inv s'"
proof -
  have p: "wf_pc (threads s t)" using wf by (simp add: wf_threads_def)
  note core = c [unfolded core_inv_def]
  have ok: "views_ok (mem s)" using coreD(7) [OF core] .
  from assms(1) show ?thesis
  proof cases
    case (reserve c items m d q)
    have "status_free m" using p reserve(1) by simp
    then have "owned q \<subseteq> slots m - slots (send s) \<and> filled q = {} \<and> (owned q \<noteq> {} \<longrightarrow> stage t q = Acq t)"
      using reserve(3) try_reserve_Reserved(2) by (elim disjE exE conjE) (simp_all split: if_splits)
    then show ?thesis using core_inv_reserve [OF assms(2) reserve(1)] reserve(2) by simp
  next
    case (fence c r d)
    let ?v = "fence_acquire t (mem s)"
    have "core (slots (send s)) (slots (recv s)) ((threads s)(t := TryWrite c r r d)) (bag s) ?v"
    proof (rule core_thread [OF core])
      fix i assume "i \<in> owned (threads s t)"
      then have "knows (mem s) (Acq t) i" using coreD(10) [OF core, of i t] fence(1) by simp
      then show "knows ?v (stage t (TryWrite c r r d)) i" using fence_acquire_knows [OF ok] by simp
    qed (use fence(1) ok in auto)
    then show ?thesis using fence(2) by (simp add: core_inv_def)
  next
    case (wr c r rest d i rest' x d')
    have "slots rest \<subseteq> slots r" using p wr(1) by simp
    then have "core (slots (send s)) (slots (recv s)) ((threads s)(t := TryWrite c r rest' d'))
        ((bag s)(i := Some x)) (access t i (mem s))"
      using wr(1) drain_next_wf [OF wr(2)] by (intro core_write [OF core]) auto
    then show ?thesis by (simp add: wr(4) core_inv_def)
  next
    case (wrdone c r rest d)
    then have "slots rest = {}" by (simp add: mpmc_n_def)
    then show ?thesis using wrdone(1,3) by (auto intro!: core_inv_quiet [OF assms(2)])
  next
    case (commit c r d q)
    let ?v = "rmw Release t RecvWord (mem s)"
    have "knows ?v (Msg RecvWord) i" if "i \<in> owned (threads s t)" for i
      using coreD(10) [OF core that] commit(1) rmw_publishes(2) [OF ok] by simp
    then have "core (slots (send s)) (slots (recv s) \<union> owned (threads s t)) ((threads s)(t := q)) (bag s) ?v"
      using commit(1,3) ok by (intro core_commit [OF core]) auto
    then show ?thesis using commit(1,2) by (simp add: core_inv_def slots_commit_recv)
  qed
qed

section \<open>The moves of a receive\<close>

lemma core_inv_claim:
  assumes "core_inv s" "threads s t = ClaimAll c"
    and "owned q = slots (recv s)" "filled q = slots (recv s)" "stage t q = Cur t"
  shows "core_inv (goto t q (rmw_recv Acquire t (recv s AND status_all) s))"
proof -
  note core = assms(1) [unfolded core_inv_def]
  have ok: "views_ok (mem s)" using coreD(7) [OF core] .
  have "core (slots (send s)) {} ((threads s)(t := q)) (bag s) (rmw Acquire t RecvWord (mem s))"
    using assms(2-) ok coreD(9) [OF core] rmw_reads(2) [OF ok] by (intro core_claim [OF core]) auto
  then show ?thesis by (simp add: core_inv_def slots_claim)
qed

lemma core_inv_recv_move:
  assumes "recv_move x86_64 t s s'" and c: "core_inv s" and wf: "wf_threads (threads s)"
  shows "core_inv s'"
proof -
  have p: "wf_pc (threads s t)" using wf by (simp add: wf_threads_def)
  note core = c [unfolded core_inv_def]
  have ok: "views_ok (mem s)" using coreD(7) [OF core] .
  from assms(1) show ?thesis
  proof cases
    case (claim c q)
    then show ?thesis unfolding claim(2)
      by (intro core_inv_claim [OF assms(2) claim(1)]) (auto simp: slots_claim)
  next
    case (rd c cl rest vs i rest' x)
    have "core (slots (send s)) (slots (recv s)) ((threads s)(t := ClaimRead c cl rest' (vs @ [x])))
        ((bag s)(i := None)) (access t i (mem s))"
      using rd(1) drain_next_wf [OF rd(2)] by (intro core_read [OF core]) auto
    then show ?thesis by (simp add: rd(4) core_inv_def)
  next
    case (rddone c cl rest vs)
    then have "slots rest = {}" by (simp add: mpmc_n_def)
    then show ?thesis using rddone(1,3) by (auto intro!: core_inv_quiet [OF assms(2)])
  next
    case (rfence c cl vs)
    let ?v = "fence_release t (mem s)"
    have "core (slots (send s)) (slots (recv s)) ((threads s)(t := ClaimRelease c cl vs)) (bag s) ?v"
    proof (rule core_thread [OF core])
      fix i assume "i \<in> owned (threads s t)"
      then have "knows (mem s) (Cur t) i" using coreD(10) [OF core, of i t] rfence(1) by simp
      then show "knows ?v (stage t (ClaimRelease c cl vs)) i" using fence_release_knows by simp
    qed (use rfence(1) ok in auto)
    then show ?thesis using rfence(2) by (simp add: core_inv_def)
  next
    case (release c cl vs q)
    let ?v = "rmw Relaxed t SendWord (mem s)"
    have "knows ?v (Msg SendWord) i" if "i \<in> owned (threads s t)" for i
      using coreD(10) [OF core that] release(1) rmw_publishes(1) [OF ok] by simp
    then have "core (slots (send s) - owned (threads s t)) (slots (recv s)) ((threads s)(t := q)) (bag s) ?v"
      using release(1,3) ok by (intro core_release [OF core]) auto
    then show ?thesis using release(1,2) by (simp add: core_inv_def slots_release_send)
  qed
qed

section \<open>The moves that leave the slots alone\<close>

lemma core_inv_wake:
  assumes "core_inv s" "owned (threads s t) = {}" "owned p = {}" "filled p = {}"
  shows "core_inv (goto t p (wake W s))"
proof -
  have "core_inv (wake W s)"
    using assms(1) unfolding core_inv_def wake_sel by (rule core_wake) simp_all
  moreover have "owned (threads (wake W s) t) = {}" using assms(2) by simp
  moreover have "filled (threads (wake W s) t) = {}"
    using calculation coreD(5) by (fastforce simp: core_inv_def)
  ultimately show ?thesis using assms by (intro core_inv_quiet [where s = "wake W s"]) auto
qed

text \<open>Such a move is a new program counter that owns nothing, in a state that differs in status bits
  only.\<close>

lemma core_inv_status:
  assumes "core_inv s" "s' = goto t q s1" "owned (threads s t) = {}" "owned q = {}" "filled q = {}"
    "slots (send s1) = slots (send s)" "slots (recv s1) = slots (recv s)" "bag s1 = bag s"
    "threads s1 = threads s" "mem s1 = mem s \<or> (\<exists>ord l. mem s1 = rmw ord t l (mem s))"
  shows "core_inv s'"
proof -
  have "filled (threads s t) = {}" using coreD(5) [OF assms(1) [unfolded core_inv_def], of t] assms(3) by blast
  then show ?thesis using assms by (auto intro!: core_inv_quiet)
qed

lemma core_inv_call_move:
  assumes "call_move t s s'" and c: "core_inv s" and t: "ready (threads s t)" and nd: "inner_dropped s' = None"
  shows "core_inv s'"
  using assms(1)
proof cases
  case (snd h b d blocking) then show ?thesis using t by (intro core_inv_status [OF c snd(3)]) auto
next
  case (rcv h blocking) then show ?thesis using t by (intro core_inv_status [OF c rcv(2)]) auto
next
  case (sclone h b h') then show ?thesis using t by (intro core_inv_status [OF c sclone(4)]) auto
next
  case (sdrop h b) then show ?thesis using t by (intro core_inv_status [OF c sdrop(3)]) auto
next
  case (rclone h h') then show ?thesis using t by (intro core_inv_status [OF c rclone(4)]) auto
next
  case (rdrop h) then show ?thesis using t by (intro core_inv_status [OF c rdrop(3)]) auto
next
  case (inner b v dropped) then show ?thesis using nd by simp
qed

lemma core_inv_sleep_move:
  assumes "sleep_move t s s'" and c: "core_inv s"
  shows "core_inv s'"
  using assms(1)
proof cases
  case (sspin c n d w q)
  then show ?thesis using owned_spin_next(1) [OF sspin(4)] by (intro core_inv_status [OF c sspin(5)]) (auto simp: slots_torch)
next
  case (sload c n d w q)
  then show ?thesis using owned_spin_next(1) [OF sload(4)] by (intro core_inv_status [OF c sload(5)]) auto
next
  case (ssleep c e d q) then show ?thesis by (intro core_inv_status [OF c ssleep(2)]) auto
next
  case (sintr c d) then show ?thesis by (intro core_inv_status [OF c sintr(2)]) auto
next
  case (storch c d) then show ?thesis by (intro core_inv_status [OF c storch(2)]) (auto simp: slots_torch)
next
  case (twake c d W) then show ?thesis by (simp add: core_inv_wake [OF c])
next
  case (rspin c n w q)
  then show ?thesis using owned_spin_next(2) [OF rspin(4)] by (intro core_inv_status [OF c rspin(5)]) (auto simp: slots_torch)
next
  case (rload c n w q)
  then show ?thesis using owned_spin_next(2) [OF rload(4)] by (intro core_inv_status [OF c rload(5)]) auto
next
  case (rsleep c e q) then show ?thesis by (intro core_inv_status [OF c rsleep(2)]) auto
next
  case (rintr c) then show ?thesis by (intro core_inv_status [OF c rintr(2)]) auto
next
  case (rtorch c) then show ?thesis by (intro core_inv_status [OF c rtorch(2)]) (auto simp: slots_torch)
next
  case (cwake c vs W) then show ?thesis by (simp add: core_inv_wake [OF c])
qed

lemma core_inv_death_move:
  assumes "death_move t s s'" and c: "core_inv s"
  shows "core_inv s'"
  using assms(1)
proof cases
  case (sdead q) then show ?thesis by (intro core_inv_status [OF c sdead(2)]) (auto simp: slots_torch)
next
  case (sdwake W) then show ?thesis by (simp add: core_inv_wake [OF c])
next
  case (rdead q) then show ?thesis by (intro core_inv_status [OF c rdead(2)]) (auto simp: slots_torch)
next
  case (rdwake W) then show ?thesis by (simp add: core_inv_wake [OF c])
qed

section \<open>Every step\<close>

lemma core_inv_step:
  assumes "step x86_64 t a s = Next s'" and c: "core_inv s" and wf: "wf_threads (threads s)"
    and nd: "inner_dropped s' = None"
  shows "core_inv s'"
  using assms(1)
proof (cases rule: step_moves)
  case call
  from call(2) c call(1) nd show ?thesis by (rule core_inv_call_move)
next
  case send
  then show ?thesis using c wf by (rule core_inv_send_move)
next
  case recv
  then show ?thesis using c wf by (rule core_inv_recv_move)
next
  case sleep
  then show ?thesis using c by (rule core_inv_sleep_move)
next
  case death
  then show ?thesis using c by (rule core_inv_death_move)
qed

end
