(* ===== verification/Mpmc_Handles.thy ===== *)
theory Mpmc_Handles
  imports Mpmc_Inv
begin

text \<open>
  The handles: the two reference counts are exact, a running call's handle is alive, and every
  bias is below the number of slots.
\<close>


lemma try_send_entry_call [simp]:
  "scall_of (try_send_entry c d) = None \<or> scall_of (try_send_entry c d) = Some c"
  "rcall_of (try_send_entry c d) = None"
  by (simp_all add: try_send_entry_def Let_def)

lemma try_send_entry_scall: "scall_of (try_send_entry c d) = Some c' \<Longrightarrow> c' = c"
  using try_send_entry_call(1) [of c d] by auto

lemma spin_next_calls:
  "send_spin_next c n d w q \<Longrightarrow> scall_of q = None \<or> scall_of q = Some c"
  "send_spin_next c n d w q \<Longrightarrow> rcall_of q = None"
  "recv_spin_next c' n w q \<Longrightarrow> rcall_of q = None \<or> rcall_of q = Some c'"
  "recv_spin_next c' n w q \<Longrightarrow> scall_of q = None"
  unfolding send_spin_next_def recv_spin_next_def
  by (elim disjE conjE; simp)+

text \<open>A running call leaves the handles alone, moves its own program counter within the same
  call, and at most wakes other threads.\<close>

definition runs :: "nat \<Rightarrow> 'a sys \<Rightarrow> 'a sys \<Rightarrow> bool" where
  "runs t s s' \<longleftrightarrow> (\<exists>q W s1. s' = goto t q s1 \<and>
     senders s1 = senders s \<and> receivers s1 = receivers s \<and> num_senders s1 = num_senders s \<and>
     num_receivers s1 = num_receivers s \<and> n_threads s1 = n_threads s \<and> inner_dropped s1 = inner_dropped s \<and>
     threads s1 = (\<lambda>u. if u \<in> W then wake_pc (threads s u) else threads s u) \<and>
     (scall_of q = None \<or> scall_of q = scall_of (threads s t)) \<and>
     (rcall_of q = None \<or> rcall_of q = rcall_of (threads s t)))"

lemma runs_goto:
  assumes "s' = goto t q s1" "scall_of q = None \<or> scall_of q = scall_of (threads s t)"
    "rcall_of q = None \<or> rcall_of q = rcall_of (threads s t)"
    "senders s1 = senders s" "receivers s1 = receivers s" "num_senders s1 = num_senders s"
    "num_receivers s1 = num_receivers s" "n_threads s1 = n_threads s" "inner_dropped s1 = inner_dropped s"
    "threads s1 = threads s"
  shows "runs t s s'"
  unfolding runs_def using assms by (intro exI [of _ q] exI [of _ "{}"] exI [of _ s1]) simp

lemma runs_wake:
  assumes "scall_of q = None" "rcall_of q = None"
  shows "runs t s (goto t q (wake W s))"
  unfolding runs_def using assms by (intro exI [of _ q] exI [of _ "set W"] exI [of _ "wake W s"]) simp

lemma send_move_runs:
  assumes "send_move x86_64 t s s'"
  shows "runs t s s'"
  using assms
proof cases
  case (reserve c items m d q)
  then show ?thesis by (intro runs_goto [OF reserve(2)]) (elim disjE exE conjE; simp)+
qed (simp_all add: runs_goto)

lemma recv_move_runs:
  assumes "recv_move x86_64 t s s'"
  shows "runs t s s'"
  using assms by cases (simp_all add: runs_goto)

lemma sleep_move_runs:
  assumes "sleep_move t s s'"
  shows "runs t s s'"
  using assms
proof cases
  case (sspin c n d w q)
  then show ?thesis using spin_next_calls(1,2) [OF sspin(4)] by (intro runs_goto [OF sspin(5)]) simp_all
next
  case (sload c n d w q)
  then show ?thesis using spin_next_calls(1,2) [OF sload(4)] by (intro runs_goto [OF sload(5)]) simp_all
next
  case (rspin c n w q)
  then show ?thesis using spin_next_calls(3,4) [OF rspin(4)] by (intro runs_goto [OF rspin(5)]) simp_all
next
  case (rload c n w q)
  then show ?thesis using spin_next_calls(3,4) [OF rload(4)] by (intro runs_goto [OF rload(5)]) simp_all
qed (simp_all add: runs_goto runs_wake)

lemma death_move_runs:
  assumes "death_move t s s'"
  shows "runs t s s'"
  using assms by cases (simp_all add: runs_goto runs_wake)

text \<open>So a step is a call of a ready thread, or a running call that goes on.\<close>

lemma step_call_or_runs:
  assumes "step x86_64 t a s = Next s'"
  obtains (call) "ready (threads s t)" "call_move t s s'" | (runs) "runs t s s'"
  using assms
  by (cases rule: step_moves) (use that send_move_runs recv_move_runs sleep_move_runs death_move_runs in blast)+

definition handle_inv :: "'a sys \<Rightarrow> bool" where
  "handle_inv s \<longleftrightarrow>
     finite (dom (senders s)) \<and> unat (num_senders s) = card (dom (senders s)) \<and>
     finite (receivers s) \<and> unat (num_receivers s) = card (receivers s) \<and>
     (\<forall>h b. senders s h = Some b \<longrightarrow> unat b < 30) \<and>
     (\<forall>u c. scall_of (threads s u) = Some c \<longrightarrow> senders s (sc_handle c) = Some (sc_bias c)) \<and>
     (\<forall>u c. rcall_of (threads s u) = Some c \<longrightarrow> rc_handle c \<in> receivers s) \<and>
     (\<forall>u\<ge>n_threads s. threads s u = Idle)"

lemma handle_invD:
  assumes "handle_inv s"
  shows "finite (dom (senders s))" "unat (num_senders s) = card (dom (senders s))"
    "finite (receivers s)" "unat (num_receivers s) = card (receivers s)"
    "senders s h = Some b \<Longrightarrow> unat b < 30"
    "scall_of (threads s u) = Some c \<Longrightarrow> senders s (sc_handle c) = Some (sc_bias c)"
    "rcall_of (threads s u) = Some c' \<Longrightarrow> rc_handle c' \<in> receivers s"
    "n_threads s \<le> u \<Longrightarrow> threads s u = Idle"
  using assms unfolding handle_inv_def by blast+

lemma handle_inv_runs:
  assumes "runs t s s'" "handle_inv s" "t < n_threads s"
  shows "handle_inv s'"
proof -
  obtain q W s1 where s': "s' = goto t q s1" and
     "senders s1 = senders s" "receivers s1 = receivers s" "num_senders s1 = num_senders s"
     "num_receivers s1 = num_receivers s" "n_threads s1 = n_threads s"
     "threads s1 = (\<lambda>u. if u \<in> W then wake_pc (threads s u) else threads s u)"
     "scall_of q = None \<or> scall_of q = scall_of (threads s t)"
     "rcall_of q = None \<or> rcall_of q = rcall_of (threads s t)"
    using assms(1) unfolding runs_def by blast
  with handle_invD [OF assms(2)] assms(3) show ?thesis
    unfolding handle_inv_def s' by (auto 0 3 split: if_splits)
qed

lemma ready_calls [simp]: "ready p \<Longrightarrow> scall_of p = None" "ready p \<Longrightarrow> rcall_of p = None"
  by (cases p; simp)+

lemma not_borrowed_sender:
  assumes "handle_inv s" "\<not> borrowed_sender s h" "scall_of (threads s u) = Some c"
  shows "sc_handle c \<noteq> h"
proof -
  have "u < n_threads s" using handle_invD(8) [OF assms(1), of u] assms(3) by (cases "u < n_threads s") auto
  then show ?thesis using assms(2,3) by (force simp: borrowed_sender_def)
qed

lemma not_borrowed_receiver:
  assumes "handle_inv s" "\<not> borrowed_receiver s h" "rcall_of (threads s u) = Some c"
  shows "rc_handle c \<noteq> h"
proof -
  have "u < n_threads s" using handle_invD(8) [OF assms(1), of u] assms(3) by (cases "u < n_threads s") auto
  then show ?thesis using assms(2,3) by (force simp: borrowed_receiver_def)
qed

lemma unat_clone_bias: "unat (clone_bias p) < 30"
  by (simp add: clone_bias_def mpmc_n_def unat_mod)

lemma unat_succ: "\<not> p > u32_max div 2 \<Longrightarrow> unat (p + 1) = Suc (unat p)"
  for p :: u32
proof -
  assume "\<not> p > u32_max div 2"
  then have "p \<le> 2147483647" by (simp add: u32_max_def)
  then have "unat p \<le> 2147483647" by (simp add: word_le_nat_alt)
  then show ?thesis by (simp add: unatSuc unat_eq_0 unat_word_ariths)
qed

lemma unat_pred: "0 < unat p \<Longrightarrow> unat (p - 1) = unat p - 1"
  for p :: u32
  by (simp add: unat_minus_one unat_gt_0)

lemma handle_inv_call_move:
  assumes "call_move t s s'" "ready (threads s t)" "handle_inv s" "t < n_threads s"
  shows "handle_inv s'"
  using assms(1)
proof cases
  case (snd h bias d blocking)
  then show ?thesis
    using handle_invD [OF assms(3)] assms(4) try_send_entry_scall [of "SCall h bias blocking" d]
    unfolding handle_inv_def snd(3) by (auto split: if_splits)
next
  case (rcv h blocking)
  then show ?thesis using handle_invD [OF assms(3)] assms(4)
    unfolding handle_inv_def rcv(2) by (auto split: if_splits)
next
  case (sclone h b h')
  note inv = handle_invD [OF assms(3)]
  have "h' \<notin> dom (senders s)" using sclone(2) by blast
  moreover have "sc_handle c \<noteq> h'" if "scall_of (threads s u) = Some c" for u c
    using inv(6) [OF that] sclone(2) by auto
  ultimately show ?thesis
    using inv assms(4) unat_succ [OF sclone(3)] unat_clone_bias
    unfolding handle_inv_def sclone(4) by (auto split: if_splits)
next
  case (sdrop h b)
  note inv = handle_invD [OF assms(3)]
  have h: "h \<in> dom (senders s)" using sdrop(1) by blast
  then have "0 < unat (num_senders s)" using inv(1,2) by (auto simp: card_gt_0_iff)
  then have "unat (num_senders s - 1) = card (dom (senders s) - {h})"
    using inv(1,2) h unat_pred by simp
  moreover note not_borrowed_sender [OF assms(3) sdrop(2)]
  ultimately show ?thesis
    using inv assms(4) unfolding handle_inv_def sdrop(3) by (auto split: if_splits)
next
  case (rclone h h')
  note inv = handle_invD [OF assms(3)]
  then show ?thesis
    using assms(4) unat_succ [OF rclone(3)] rclone(2)
    unfolding handle_inv_def rclone(4) by (auto split: if_splits)
next
  case (rdrop h)
  note inv = handle_invD [OF assms(3)]
  have "0 < unat (num_receivers s)" using inv(3,4) rdrop(1) by (auto simp: card_gt_0_iff)
  then have "unat (num_receivers s - 1) = card (receivers s - {h})"
    using inv(3,4) rdrop(1) unat_pred by simp
  moreover note not_borrowed_receiver [OF assms(3) rdrop(2)]
  ultimately show ?thesis
    using inv assms(4) unfolding handle_inv_def rdrop(3) by (auto split: if_splits)
next
  case (inner b v dropped)
  then show ?thesis using handle_invD [OF assms(3)] assms(4)
    unfolding handle_inv_def inner(3) by (auto split: if_splits)
qed

lemma handle_inv_step:
  assumes "step x86_64 t a s = Next s'" "handle_inv s"
  shows "handle_inv s'"
  using assms(1)
proof (cases rule: step_call_or_runs)
  case call
  from call(2,1) assms(2) step_lt [OF assms(1)] show ?thesis by (rule handle_inv_call_move)
next
  case runs
  then show ?thesis using assms(2) step_lt [OF assms(1)] by (rule handle_inv_runs)
qed

end
