(* ===== verification/Mpmc_Death.thy ===== *)
theory Mpmc_Death
  imports Mpmc_Handles
begin

text \<open>
  Disconnection: the dead bit of a word is set exactly when the other side is gone and its last
  drop has announced it, and a disconnection once seen is final.
\<close>


text \<open>The status bits and the slots after the updates the code makes.\<close>

lemma word_bits [simp]:
  "bit (w OR SLEEPING) 0 = bit w 0" "bit (w OR SLEEPING) (Suc 0)" "slots (w OR SLEEPING) = slots w"
  "bit (w AND NOT SLEEPING) 0 = bit w 0" "\<not> bit (w AND NOT SLEEPING) (Suc 0)"
  "slots (w AND NOT SLEEPING) = slots w"
  "bit (w OR COUNTERPARTY_DEAD) 0" "bit (w OR COUNTERPARTY_DEAD) (Suc 0) = bit w (Suc 0)"
  "slots (w OR COUNTERPARTY_DEAD) = slots w"
  "\<not> bit (w AND NOT COUNTERPARTY_DEAD) 0"
  "bit (w AND NOT COUNTERPARTY_DEAD) (Suc 0) = bit w (Suc 0)"
  "slots (w AND NOT COUNTERPARTY_DEAD) = slots w"
  "bit (w AND status_all) 0 = bit w 0" "bit (w AND status_all) (Suc 0) = bit w (Suc 0)"
  "slots (w AND status_all) = {}"
  by (simp_all only: slots_torch slots_claim)
    (simp_all add: bit_or_iff bit_and_iff bit_not_iff slot_simps)

lemma bits_status_free:
  "status_free m \<Longrightarrow> bit (w OR m) 0 = bit w 0" "status_free m \<Longrightarrow> bit (w OR m) (Suc 0) = bit w (Suc 0)"
  by (simp_all add: status_free_iff bit_or_iff)

fun sdying :: "'a pc \<Rightarrow> bool" where
  "sdying SDropDead = True"
| "sdying SDropWake = True"
| "sdying _ = False"

fun rdying :: "'a pc \<Rightarrow> bool" where
  "rdying RDropDead = True"
| "rdying RDropWake = True"
| "rdying _ = False"

lemma dying_wake [simp]:
  "sdying (wake_pc p) = sdying p" "rdying (wake_pc p) = rdying p"
  "wake_pc p = SDropDead \<longleftrightarrow> p = SDropDead" "wake_pc p = RDropDead \<longleftrightarrow> p = RDropDead"
  "wake_pc p = RecvRet r \<longleftrightarrow> p = RecvRet r" "wake_pc p = SendRet r' \<longleftrightarrow> p = SendRet r'"
  by (cases p; simp)+

lemma dying_entry [simp]:
  "\<not> sdying (try_send_entry c d)" "\<not> rdying (try_send_entry c d)"
  "try_send_entry c d \<noteq> RecvRet r" "try_send_entry c d \<noteq> SendRet (SendDisconnected d')"
  by (simp_all add: try_send_entry_def Let_def)

definition death_inv :: "'a sys \<Rightarrow> bool" where
  "death_inv s \<longleftrightarrow>
     (\<not> bit (recv s) 0 \<or> (\<exists>u. sdying (threads s u)) \<longrightarrow> senders s = Map.empty) \<and>
     (senders s = Map.empty \<longrightarrow> \<not> bit (recv s) 0 \<or> (\<exists>u. threads s u = SDropDead)) \<and>
     (bit (send s) 0 \<or> (\<exists>u. rdying (threads s u)) \<longrightarrow> receivers s = {}) \<and>
     (receivers s = {} \<longrightarrow> bit (send s) 0 \<or> (\<exists>u. threads s u = RDropDead)) \<and>
     (\<forall>w\<in>set (recv_seen s). \<not> bit w 0 \<longrightarrow>
        \<not> bit (recv s) 0 \<and> (slots w = {} \<longrightarrow> slots (recv s) = {})) \<and>
     (\<forall>w\<in>set (send_seen s). bit w 0 \<longrightarrow> bit (send s) 0) \<and>
     recv s \<in> set (recv_seen s) \<and> send s \<in> set (send_seen s) \<and>
     (\<forall>u. threads s u = RecvRet RecvDisconnected \<longrightarrow> \<not> bit (recv s) 0 \<and> slots (recv s) = {}) \<and>
     (\<forall>u d. threads s u = SendRet (SendDisconnected d) \<longrightarrow> bit (send s) 0)"

lemma death_invD:
  assumes "death_inv s"
  shows "\<not> bit (recv s) 0 \<Longrightarrow> senders s = Map.empty" "sdying (threads s u) \<Longrightarrow> senders s = Map.empty"
    "senders s = Map.empty \<Longrightarrow> \<not> bit (recv s) 0 \<or> (\<exists>u. threads s u = SDropDead)"
    "bit (send s) 0 \<Longrightarrow> receivers s = {}" "rdying (threads s u) \<Longrightarrow> receivers s = {}"
    "receivers s = {} \<Longrightarrow> bit (send s) 0 \<or> (\<exists>u. threads s u = RDropDead)"
    "w \<in> set (recv_seen s) \<Longrightarrow> \<not> bit w 0 \<Longrightarrow> \<not> bit (recv s) 0"
    "w \<in> set (recv_seen s) \<Longrightarrow> \<not> bit w 0 \<Longrightarrow> slots w = {} \<Longrightarrow> slots (recv s) = {}"
    "w \<in> set (send_seen s) \<Longrightarrow> bit w 0 \<Longrightarrow> bit (send s) 0"
    "recv s \<in> set (recv_seen s)" "send s \<in> set (send_seen s)"
    "threads s u = RecvRet RecvDisconnected \<Longrightarrow> \<not> bit (recv s) 0"
    "threads s u = RecvRet RecvDisconnected \<Longrightarrow> slots (recv s) = {}"
    "threads s u = SendRet (SendDisconnected d) \<Longrightarrow> bit (send s) 0"
  using assms unfolding death_inv_def by blast+

text \<open>The general step: the words change as \<open>s1\<close> says, thread \<open>t\<close> goes to \<open>q\<close>.\<close>

lemma death_inv_goto:
  assumes inv: "death_inv s"
    and same: "senders s1 = senders s" "receivers s1 = receivers s"
    and th: "threads s1 = (\<lambda>u. if u \<in> W then wake_pc (threads s u) else threads s u)"
    and q: "sdying q \<Longrightarrow> senders s = Map.empty" "threads s t = SDropDead \<Longrightarrow> \<not> bit (recv s1) 0"
      "rdying q \<Longrightarrow> receivers s = {}" "threads s t = RDropDead \<Longrightarrow> bit (send s1) 0"
    and recv: "\<not> bit (recv s1) 0 \<Longrightarrow> bit (recv s) 0 \<Longrightarrow> senders s = Map.empty"
      "bit (recv s1) 0 \<Longrightarrow> \<not> bit (recv s) 0 \<Longrightarrow> senders s \<noteq> Map.empty"
      "senders s = Map.empty \<Longrightarrow> slots (recv s1) \<subseteq> slots (recv s)"
      "recv_seen s1 = recv_seen s \<and> recv s1 = recv s \<or> recv_seen s1 = recv s1 # recv_seen s"
    and send: "bit (send s1) 0 \<Longrightarrow> \<not> bit (send s) 0 \<Longrightarrow> receivers s = {}"
      "\<not> bit (send s1) 0 \<Longrightarrow> bit (send s) 0 \<Longrightarrow> receivers s \<noteq> {}"
      "send_seen s1 = send_seen s \<and> send s1 = send s \<or> send_seen s1 = send s1 # send_seen s"
    and ret: "q = RecvRet RecvDisconnected \<Longrightarrow> \<not> bit (recv s1) 0 \<and> slots (recv s1) = {}"
      "\<And>d. q = SendRet (SendDisconnected d) \<Longrightarrow> bit (send s1) 0"
  shows "death_inv (goto t q s1)"
proof -
  note d = death_invD [OF inv]
  have dead: "\<not> bit (recv s1) 0" if "\<not> bit (recv s) 0" using that d(1) recv(2) by blast
  have deads: "bit (send s1) 0" if "bit (send s) 0" using that d(4) send(2) by blast
  have empty: "slots (recv s1) = {}" if "\<not> bit (recv s) 0" "slots (recv s) = {}"
    using that d(1) recv(3) by blast
  have "\<not> bit (recv s1) 0 \<or> (\<exists>u. sdying (threads (goto t q s1) u)) \<longrightarrow> senders s1 = Map.empty"
    using d(1,2) q(1) recv(1) unfolding same by (auto simp: th split: if_splits)
  moreover have "\<not> bit (recv s1) 0 \<or> (\<exists>u. threads (goto t q s1) u = SDropDead)"
    if e: "senders s = Map.empty"
  proof (cases "bit (recv s) 0")
    case True
    then obtain u where u: "threads s u = SDropDead" using d(3) [OF e] by blast
    then have "threads (goto t q s1) u = SDropDead" if "u \<noteq> t" using that by (simp add: th)
    then show ?thesis using u q(2) by (cases "u = t") auto
  qed (use dead in blast)
  moreover have "bit (send s1) 0 \<or> (\<exists>u. rdying (threads (goto t q s1) u)) \<longrightarrow> receivers s1 = {}"
    using d(4,5) q(3) send(1) unfolding same by (auto simp: th split: if_splits)
  moreover have "bit (send s1) 0 \<or> (\<exists>u. threads (goto t q s1) u = RDropDead)"
    if e: "receivers s = {}"
  proof (cases "bit (send s) 0")
    case False
    then obtain u where u: "threads s u = RDropDead" using d(6) [OF e] by blast
    then have "threads (goto t q s1) u = RDropDead" if "u \<noteq> t" using that by (simp add: th)
    then show ?thesis using u q(4) by (cases "u = t") auto
  qed (use deads in blast)
  moreover have "\<forall>w\<in>set (recv_seen s1). \<not> bit w 0 \<longrightarrow>
      \<not> bit (recv s1) 0 \<and> (slots w = {} \<longrightarrow> slots (recv s1) = {})"
    using d(7,8) dead empty recv(4) by auto
  moreover have "\<forall>w\<in>set (send_seen s1). bit w 0 \<longrightarrow> bit (send s1) 0"
    using d(9) deads send(3) by auto
  moreover have "recv s1 \<in> set (recv_seen s1)" "send s1 \<in> set (send_seen s1)"
    using d(10,11) recv(4) send(3) by auto
  moreover have "\<not> bit (recv s1) 0 \<and> slots (recv s1) = {}"
    if "threads (goto t q s1) u = RecvRet RecvDisconnected" for u
    using that d(12,13) [of u] dead empty ret(1) by (cases "u = t"; auto simp: th split: if_splits)
  moreover have "bit (send s1) 0" if "threads (goto t q s1) u = SendRet (SendDisconnected d)" for u d
    using that d(14) [of u d] deads ret(2) by (cases "u = t"; auto simp: th split: if_splits)
  ultimately show ?thesis unfolding death_inv_def same goto_sel(1-2,6-7,10-11) by blast
qed


lemma scall_senders:
  assumes "handle_inv s" "scall_of (threads s u) = Some c"
  shows "senders s \<noteq> Map.empty"
  using handle_invD(6) [OF assms] by auto

lemma rcall_receivers:
  assumes "handle_inv s" "rcall_of (threads s u) = Some c"
  shows "receivers s \<noteq> {}"
  using handle_invD(7) [OF assms] by auto

lemma death_inv_wake:
  assumes "death_inv s" "\<not> sdying q" "\<not> rdying q" "threads s t \<noteq> SDropDead" "threads s t \<noteq> RDropDead"
    "q \<noteq> RecvRet RecvDisconnected" "\<And>d. q \<noteq> SendRet (SendDisconnected d)"
  shows "death_inv (goto t q (wake W s))"
  by (rule death_inv_goto [OF assms(1), where W = "set W"]) (use assms in auto)

lemmas dying_entry_sym [simp] = dying_entry(3,4) [symmetric]

lemma send_spin_next_not [simp]:
  "send_spin_next c n d w q \<Longrightarrow> \<not> sdying q" "send_spin_next c n d w q \<Longrightarrow> \<not> rdying q"
  "send_spin_next c n d w (RecvRet r) = False"
  "send_spin_next c n d w (SendRet (SendDisconnected d')) \<longleftrightarrow> d' = d \<and> bit w 0 \<and> slots w = {..<30}"
  unfolding send_spin_next_def using dying_entry
  by (elim disjE conjE; simp | simp | blast)+

lemma recv_spin_next_not [simp]:
  "recv_spin_next c n w q \<Longrightarrow> \<not> sdying q" "recv_spin_next c n w q \<Longrightarrow> \<not> rdying q"
  "recv_spin_next c n w (SendRet r) = False"
  "recv_spin_next c n w (RecvRet RecvDisconnected) \<longleftrightarrow> \<not> bit w 0 \<and> slots w = {}"
  unfolding recv_spin_next_def by (elim disjE conjE; simp | simp)+

lemma death_inv_send_move:
  assumes "send_move x86_64 t s s'" and inv: "death_inv s" and h: "handle_inv s" and wf: "wf_threads (threads s)"
  shows "death_inv s'"
proof -
  have p: "wf_pc (threads s t)" using wf by (simp add: wf_threads_def)
  note g = death_inv_goto [OF inv, where W = "{}" and t = t]
  have sn: "senders s \<noteq> Map.empty" if "scall_of (threads s t) \<noteq> None"
    using scall_senders [OF h] that by blast
  from assms(1) show ?thesis
  proof cases
    case (reserve c items m d q)
    have "status_free m" using p reserve(1) by simp
    note b = bits_status_free [OF this]
    have "\<not> sdying q \<and> \<not> rdying q \<and> q \<noteq> RecvRet RecvDisconnected \<and>
        (\<forall>d. q = SendRet (SendDisconnected d) \<longrightarrow> bit (send s) 0)"
      using reserve(3) by (elim disjE exE conjE) (simp_all split: if_splits)
    then show ?thesis unfolding reserve(2) using reserve(1) b by (intro g) simp_all
  next
    case (fence c r d) then show ?thesis unfolding fence(2) by (intro g) simp_all
  next
    case (wr c r rest d i rest' x d') then show ?thesis unfolding wr(4) by (intro g) simp_all
  next
    case (wrdone c r rest d) then show ?thesis unfolding wrdone(3) by (intro g) simp_all
  next
    case (commit c r d q)
    then have "senders s \<noteq> Map.empty" using sn by simp
    then show ?thesis unfolding commit(2) using commit(1,3) by (intro g) (simp_all add: bits_commit_recv split: if_splits)
  qed
qed

lemma death_inv_recv_move:
  assumes "recv_move x86_64 t s s'" and inv: "death_inv s" and h: "handle_inv s"
  shows "death_inv s'"
proof -
  note g = death_inv_goto [OF inv, where W = "{}" and t = t]
  have rn: "receivers s \<noteq> {}" if "rcall_of (threads s t) \<noteq> None"
    using rcall_receivers [OF h] that by blast
  from assms(1) show ?thesis
  proof cases
    case (claim c q)
    then have "receivers s \<noteq> {}" using rn by simp
    then show ?thesis unfolding claim(2) using claim(1,3) by (intro g) (simp_all split: if_splits)
  next
    case (rd c cl rest vs i rest' x) then show ?thesis unfolding rd(4) by (intro g) simp_all
  next
    case (rddone c cl rest vs) then show ?thesis unfolding rddone(3) by (intro g) simp_all
  next
    case (rfence c cl vs) then show ?thesis unfolding rfence(2) by (intro g) simp_all
  next
    case (release c cl vs q)
    then have "receivers s \<noteq> {}" using rn by simp
    then show ?thesis unfolding release(2) using release(1,3) by (intro g) (simp_all add: bits_release_send split: if_splits)
  qed
qed

lemma death_inv_sleep_move:
  assumes "sleep_move t s s'" and inv: "death_inv s"
  shows "death_inv s'"
proof -
  note g = death_inv_goto [OF inv, where W = "{}" and t = t]
  from assms(1) show ?thesis
  proof cases
    case (sspin c n d w q)
    then show ?thesis unfolding sspin(5) by (intro g) auto
  next
    case (sload c n d w q)
    then show ?thesis unfolding sload(5) using death_invD(9) [OF inv sload(3)] by (intro g) auto
  next
    case (ssleep c e d q) then show ?thesis unfolding ssleep(2) using ssleep(1,3) by (intro g) (simp_all split: if_splits)
  next
    case (sintr c d) then show ?thesis unfolding sintr(2) by (intro g) simp_all
  next
    case (storch c d) then show ?thesis unfolding storch(2) by (intro g) simp_all
  next
    case (twake c d W) then show ?thesis by (simp add: death_inv_wake [OF inv])
  next
    case (rspin c n w q)
    then show ?thesis unfolding rspin(5) by (intro g) auto
  next
    case (rload c n w q)
    then show ?thesis unfolding rload(5) using death_invD(7,8) [OF inv rload(3)] by (intro g) auto
  next
    case (rsleep c e q) then show ?thesis unfolding rsleep(2) using rsleep(1,3) by (intro g) (simp_all split: if_splits)
  next
    case (rintr c) then show ?thesis unfolding rintr(2) by (intro g) simp_all
  next
    case (rtorch c) then show ?thesis unfolding rtorch(2) by (intro g) simp_all
  next
    case (cwake c d W) then show ?thesis by (simp add: death_inv_wake [OF inv])
  qed
qed

lemma death_inv_death_move:
  assumes "death_move t s s'" and inv: "death_inv s"
  shows "death_inv s'"
proof -
  note g = death_inv_goto [OF inv, where W = "{}" and t = t]
  from assms(1) show ?thesis
  proof cases
    case (sdead q)
    then have "senders s = Map.empty" using death_invD(2) [OF inv, of t] by simp
    then show ?thesis unfolding sdead(2) using sdead(1,3) by (intro g) (simp_all split: if_splits)
  next
    case (sdwake W) then show ?thesis by (simp add: death_inv_wake [OF inv])
  next
    case (rdead q)
    then have "receivers s = {}" using death_invD(5) [OF inv, of t] by simp
    then show ?thesis unfolding rdead(2) using rdead(1,3) by (intro g) (simp_all split: if_splits)
  next
    case (rdwake W) then show ?thesis by (simp add: death_inv_wake [OF inv])
  qed
qed

lemma ready_dying [simp]: "ready p \<Longrightarrow> \<not> sdying p" "ready p \<Longrightarrow> \<not> rdying p"
  "ready p \<Longrightarrow> p \<noteq> SDropDead" "ready p \<Longrightarrow> p \<noteq> RDropDead"
  by (cases p; simp)+

lemma card_gt_1_remove:
  assumes "finite A" "a \<in> A"
  shows "1 < card A \<longleftrightarrow> A - {a} \<noteq> {}"
proof -
  have "card A = Suc (card (A - {a}))" using card_Suc_Diff1 [OF assms] by simp
  moreover have "card (A - {a}) = 0 \<longleftrightarrow> A - {a} = {}" using assms(1) by (intro card_0_eq) simp
  ultimately show ?thesis by linarith
qed

text \<open>A clone or a drop of a handle changes no word.\<close>

lemma death_inv_handles:
  assumes inv: "death_inv s" and t: "ready (threads s t)" and th: "threads s1 = threads s"
    and w: "send s1 = send s" "recv s1 = recv s" "send_seen s1 = send_seen s" "recv_seen s1 = recv_seen s"
    and q: "q = Idle \<or> q = SDropDead \<or> q = RDropDead"
    and sn: "senders s1 = senders s \<and> q \<noteq> SDropDead \<or>
      senders s \<noteq> Map.empty \<and> (senders s1 = Map.empty \<longleftrightarrow> q = SDropDead)"
    and rn: "receivers s1 = receivers s \<and> q \<noteq> RDropDead \<or>
      receivers s \<noteq> {} \<and> (receivers s1 = {} \<longleftrightarrow> q = RDropDead)"
  shows "death_inv (goto t q s1)"
proof -
  note d = death_invD [OF inv]
  let ?th = "threads (goto t q s1)"
  have r: "\<not> sdying (threads s t)" "\<not> rdying (threads s t)" "threads s t \<noteq> SDropDead"
    "threads s t \<noteq> RDropDead" using t by simp_all
  have sd: "sdying (?th u) \<longleftrightarrow> sdying (threads s u) \<or> u = t \<and> q = SDropDead"
    "rdying (?th u) \<longleftrightarrow> rdying (threads s u) \<or> u = t \<and> q = RDropDead"
    "?th u = SDropDead \<longleftrightarrow> threads s u = SDropDead \<or> u = t \<and> q = SDropDead"
    "?th u = RDropDead \<longleftrightarrow> threads s u = RDropDead \<or> u = t \<and> q = RDropDead" for u
    using q r by (auto simp: th)
  have "\<not> bit (recv s) 0 \<or> (\<exists>u. sdying (?th u)) \<longrightarrow> senders s1 = Map.empty"
    "senders s1 = Map.empty \<longrightarrow> \<not> bit (recv s) 0 \<or> (\<exists>u. ?th u = SDropDead)"
    using sn d(1-3) unfolding sd by metis+
  moreover have "bit (send s) 0 \<or> (\<exists>u. rdying (?th u)) \<longrightarrow> receivers s1 = {}"
    "receivers s1 = {} \<longrightarrow> bit (send s) 0 \<or> (\<exists>u. ?th u = RDropDead)"
    using rn d(4-6) unfolding sd by metis+
  moreover have "?th u = RecvRet r \<Longrightarrow> threads s u = RecvRet r"
    "?th u = SendRet r' \<Longrightarrow> threads s u = SendRet r'" for u r r'
    using q by (auto simp: th split: if_splits)
  ultimately show ?thesis
    using d(7-14) unfolding death_inv_def goto_sel(1-2,6-7,10-11) w by metis
qed

lemma last_sender:
  assumes "handle_inv s" "senders s h = Some b"
  shows "num_senders s > 1 \<longleftrightarrow> (senders s)(h := None) \<noteq> Map.empty"
proof -
  have "num_senders s > 1 \<longleftrightarrow> 1 < card (dom (senders s))"
    using handle_invD(2) [OF assms(1)] by (simp add: word_less_nat_alt)
  also have "\<dots> \<longleftrightarrow> dom (senders s) - {h} \<noteq> {}"
    using handle_invD(1) [OF assms(1)] assms(2) by (intro card_gt_1_remove) auto
  also have "\<dots> \<longleftrightarrow> dom ((senders s)(h := None)) \<noteq> {}" by simp
  finally show ?thesis by (simp add: dom_eq_empty_conv del: dom_fun_upd)
qed

lemma last_receiver:
  assumes "handle_inv s" "h \<in> receivers s"
  shows "num_receivers s > 1 \<longleftrightarrow> receivers s - {h} \<noteq> {}"
proof -
  have "num_receivers s > 1 \<longleftrightarrow> 1 < card (receivers s)"
    using handle_invD(4) [OF assms(1)] by (simp add: word_less_nat_alt)
  also have "\<dots> \<longleftrightarrow> receivers s - {h} \<noteq> {}"
    using handle_invD(3) [OF assms(1)] assms(2) by (intro card_gt_1_remove) auto
  finally show ?thesis .
qed

lemma death_inv_call_move:
  assumes "call_move t s s'" "ready (threads s t)" and inv: "death_inv s" and h: "handle_inv s"
  shows "death_inv s'"
proof -
  note d = death_invD [OF inv]
  note g = death_inv_goto [OF inv, where W = "{}" and t = t]
  have r: "\<not> sdying (threads s t)" "\<not> rdying (threads s t)" "threads s t \<noteq> SDropDead"
    "threads s t \<noteq> RDropDead" using assms(2) by simp_all
  from assms(1) show ?thesis
  proof cases
    case (snd h bias d blocking)
    then show ?thesis unfolding snd(3) using r by (intro g) simp_all
  next
    case (rcv h blocking)
    then show ?thesis unfolding rcv(2) using r by (intro g) simp_all
  next
    case (sclone h' b h'')
    then show ?thesis unfolding sclone(4) by (intro death_inv_handles [OF inv assms(2)]) auto
  next
    case (sdrop h' b)
    then show ?thesis unfolding sdrop(3) last_sender [OF h sdrop(1)]
      by (intro death_inv_handles [OF inv assms(2)]) auto
  next
    case (rclone h' h'')
    then show ?thesis unfolding rclone(4) by (intro death_inv_handles [OF inv assms(2)]) auto
  next
    case (rdrop h')
    then show ?thesis unfolding rdrop(3) last_receiver [OF h rdrop(1)]
      by (intro death_inv_handles [OF inv assms(2)]) auto
  next
    case (inner b v dropped)
    show ?thesis unfolding inner(3) using r by (intro g) simp_all
  qed
qed

lemma death_inv_step:
  assumes "step x86_64 t a s = Next s'" "death_inv s" "handle_inv s" "wf_threads (threads s)"
  shows "death_inv s'"
  using assms(1)
proof (cases rule: step_moves)
  case call
  from call(2,1) assms(2,3) show ?thesis by (rule death_inv_call_move)
next
  case send
  then show ?thesis using assms(2-) by (rule death_inv_send_move)
next
  case recv
  then show ?thesis using assms(2,3) by (rule death_inv_recv_move)
next
  case sleep
  then show ?thesis using assms(2) by (rule death_inv_sleep_move)
next
  case death
  then show ?thesis using assms(2) by (rule death_inv_death_move)
qed

end
