(* ===== verification/Mpmc_Safe.thy ===== *)
theory Mpmc_Safe
  imports Mpmc_Death
begin

text \<open>
  The invariant of the channel over every reachable state, and what follows from it at once:
  no data race, no uninitialised read, no overwritten value, no failed assertion.
\<close>

section \<open>The invariant of the channel\<close>

definition channel_inv :: "'a sys \<Rightarrow> bool" where
  "channel_inv s \<longleftrightarrow> handle_inv s \<and> death_inv s \<and> wf_threads (threads s) \<and>
     (inner_dropped s = None \<longrightarrow> core_inv s) \<and>
     (inner_dropped s \<noteq> None \<longrightarrow>
        senders s = Map.empty \<and> receivers s = {} \<and> (\<forall>u. ready (threads s u)))"

lemma channel_invD:
  assumes "channel_inv s"
  shows "handle_inv s" "death_inv s" "wf_threads (threads s)" "wf_pc (threads s u)"
    "inner_dropped s = None \<Longrightarrow> core_inv s" "inner_dropped s \<noteq> None \<Longrightarrow> senders s = Map.empty"
    "inner_dropped s \<noteq> None \<Longrightarrow> receivers s = {}" "inner_dropped s \<noteq> None \<Longrightarrow> ready (threads s u)"
  using assms unfolding channel_inv_def wf_threads_def by blast+

lemma channel_inv_init: "channel_inv (mpmc n)"
proof -
  have "handle_inv (mpmc n)" by (simp add: handle_inv_def mpmc_def)
  moreover have "death_inv (mpmc n)"
    by (auto simp: death_inv_def mpmc_def slot_simps fun_eq_iff)
  moreover have "wf_threads (threads (mpmc n))" by (simp add: wf_threads_def mpmc_def)
  moreover have "core_inv (mpmc n)"
    unfolding core_inv_def by (rule coreI) (simp_all add: mpmc_def slot_simps)
  moreover have "inner_dropped (mpmc n) = None" by (simp add: mpmc_def)
  ultimately show ?thesis unfolding channel_inv_def by blast
qed

lemma no_handles:
  assumes "handle_inv s" "last_handle_gone s"
  shows "senders s = Map.empty" "receivers s = {}" "ready (threads s u)"
proof -
  have n: "num_senders s = 0" "num_receivers s = 0" "\<forall>u<n_threads s. ready (threads s u)"
    using assms(2) by (auto simp: last_handle_gone_def)
  then show "senders s = Map.empty" "receivers s = {}"
    using handle_invD(1-4) [OF assms(1)] by auto
  show "ready (threads s u)"
    using n(3) handle_invD(8) [OF assms(1), of u] by (cases "u < n_threads s") auto
qed

text \<open>After \<^verbatim>\<open>Inner\<close> is dropped nothing can run any more.\<close>

lemma start_needs_handle:
  assumes "senders s = Map.empty" "receivers s = {}" "inner_dropped s \<noteq> None"
  shows "start t k s = Disabled"
  using assms by (cases k) (auto simp: start_def clone_sender_def drop_sender_def clone_receiver_def
      drop_receiver_def drop_inner_def last_handle_gone_def)

lemma step_ready:
  assumes "ready (threads s t)"
  shows "step x86_64 t a s = (if t \<ge> n_threads s then Disabled else on_start a (\<lambda>k. start t k s))"
  using assms by (cases "threads s t") (simp_all add: step_def)

lemma dropped_step:
  assumes "channel_inv s" "inner_dropped s \<noteq> None"
  shows "step x86_64 t a s = Disabled"
proof -
  have "start t k s = Disabled" for k
    using start_needs_handle channel_invD(6,7) [OF assms(1)] assms(2) by blast
  then show ?thesis
    using channel_invD(8) [OF assms] by (simp add: step_ready on_start_def split: action.splits)
qed

lemma step_dropped_mono:
  assumes "step x86_64 t a s = Next s'"
  shows "inner_dropped s' = inner_dropped s \<or>
    inner_dropped s' \<noteq> None \<and> ready (threads s t) \<and> drop_inner t s = Next s'"
  using assms
proof (cases rule: step_call_or_runs)
  case call
  from call(2) show ?thesis using call(1) by cases simp_all
next
  case runs
  then show ?thesis by (auto simp: runs_def)
qed

lemma channel_inv_step:
  assumes "step x86_64 t a s = Next s'" and inv: "channel_inv s"
  shows "channel_inv s'"
proof -
  note i = channel_invD [OF inv]
  have alive: "inner_dropped s = None" using dropped_step [OF inv] assms(1) by fastforce
  have h: "handle_inv s'" using handle_inv_step [OF assms(1) i(1)] .
  moreover have "death_inv s'" using death_inv_step [OF assms(1) i(2,1,3)] .
  moreover have "wf_threads (threads s')"
  proof (rule wf_step [OF assms(1) i(3)])
    show "unat b < 30" if "senders s h = Some b" for h b using handle_invD(5) [OF i(1) that] .
    show "unat (sc_bias c) < 30" if "scall_of (threads s t) = Some c" for c
      using handle_invD(5) [OF i(1) handle_invD(6) [OF i(1) that]] .
  qed
  moreover have "core_inv s'" if "inner_dropped s' = None"
    using core_inv_step [OF assms(1) i(5) [OF alive] i(3) that] .
  moreover have "senders s' = Map.empty \<and> receivers s' = {} \<and> (\<forall>u. ready (threads s' u))"
    if "inner_dropped s' \<noteq> None"
  proof -
    have d: "drop_inner t s = Next s'" using step_dropped_mono [OF assms(1)] that alive by auto
    from d show ?thesis
      by (rule drop_inner_Next) (use no_handles [OF i(1)] in simp)
  qed
  ultimately show ?thesis unfolding channel_inv_def by blast
qed

lemma reachable_inv: "reachable x86_64 s \<Longrightarrow> channel_inv s"
  by (induction rule: reachable.induct) (simp_all add: channel_inv_init channel_inv_step)

section \<open>No undefined behaviour, no failed assertion\<close>

lemma drop_slot_fold:
  assumes "views_ok v" "distinct is" "\<forall>i\<in>set is. knows v (Cur t) i \<and> b i \<noteq> None"
  shows "\<exists>v'. fold (drop_slot t) is (Inr (b, v, dropped)) =
    Inr ((\<lambda>i. if i \<in> set is then None else b i), v', dropped @ map (\<lambda>i. the (b i)) is)"
  using assms
proof (induction "is" arbitrary: b v dropped)
  case (Cons i "is")
  obtain x where x: "b i = Some x" using Cons.prems(3) by auto
  have "race_free t i v" using Cons.prems(3) by (simp add: race_free_knows)
  then have one: "drop_slot t i (Inr (b, v, dropped)) = Inr (b(i := None), access t i v, dropped @ [x])"
    using x by (simp add: drop_slot_def)
  have "\<forall>j\<in>set is. knows (access t i v) (Cur t) j \<and> (b(i := None)) j \<noteq> None"
    using Cons.prems(2,3) by auto
  then obtain v' where "fold (drop_slot t) is (Inr (b(i := None), access t i v, dropped @ [x])) =
      Inr ((\<lambda>j. if j \<in> set is then None else (b(i := None)) j), v',
        (dropped @ [x]) @ map (\<lambda>j. the ((b(i := None)) j)) is)"
    using Cons.IH [of "access t i v" "b(i := None)" "dropped @ [x]"] Cons.prems(1,2) views_ok_access by fastforce
  moreover have "(\<lambda>j. if j \<in> set is then None else (b(i := None)) j) =
      (\<lambda>j. if j \<in> set (i # is) then None else b j)" by auto
  moreover have "map (\<lambda>j. the ((b(i := None)) j)) is = map (\<lambda>j. the (b j)) is"
    using Cons.prems(2) by auto
  ultimately show ?case using one x by auto
qed simp

lemma drop_inner_ok:
  assumes inv: "channel_inv s" and l: "last_handle_gone s"
  obtains v where "drop_inner t s = Next (goto t Idle (s\<lparr>bag := (\<lambda>_. None), mem := v,
      inner_dropped := Some (map (\<lambda>i. the (bag s i)) (sorted_list_of_set (slots (recv s))))\<rparr>))"
proof -
  note i = channel_invD [OF inv]
  have "inner_dropped s = None" using l by (simp add: last_handle_gone_def)
  then have core: "core (slots (send s)) (slots (recv s)) (threads s) (bag s) (mem s)"
    using i(5) by (simp add: core_inv_def)
  have "filled (threads s u) = {}" for u using no_handles(3) [OF i(1) l, of u] by simp
  then have bag: "bag s j \<noteq> None \<longleftrightarrow> j \<in> slots (recv s)" for j using coreD(6) [OF core, of j] by simp
  let ?is = "sorted_list_of_set (slots (recv s))"
  have sl: "slots (recv s AND NOT status_all) = slots (recv s)" by (simp add: slots_claim)
  obtain v' where v': "fold (drop_slot t) ?is (Inr (bag s, load_acquire t RecvWord (mem s), [])) =
      Inr ((\<lambda>i. if i \<in> set ?is then None else bag s i), v', [] @ map (\<lambda>i. the (bag s i)) ?is)"
    using drop_slot_fold [of "load_acquire t RecvWord (mem s)" ?is t "bag s" "[]"]
      coreD(7,9) [OF core] load_acquire_knows bag by auto
  have "(\<lambda>i. if i \<in> set ?is then None else bag s i) = (\<lambda>_. None)"
    using bag not_None_eq by (fastforce simp: fun_eq_iff)
  with v' show ?thesis
    using l that [of v'] unfolding drop_inner_def Let_def by (simp add: slot_simps(1) drain_mask_fold sl)
qed

lemma core_race_free:
  assumes "core S R th b v" "i \<in> owned (th t)" "stage t (th t) = Cur t"
  shows "race_free t i v"
  using coreD(10) [OF assms(1,2)] assms(3) by (simp add: race_free_knows)

lemma start_no_fault:
  assumes "channel_inv s"
  shows "start t k s \<noteq> Fault f"
proof (cases "k = DropInner")
  case True
  show ?thesis
  proof (cases "last_handle_gone s")
    case l: True
    have "start t k s = drop_inner t s" by (simp add: True start_def)
    moreover obtain s' where "drop_inner t s = Next s'" using drop_inner_ok [OF assms l, of t] by blast
    ultimately show ?thesis by simp
  qed (simp add: True start_def drop_inner_def)
qed (auto simp: start_def clone_sender_def drop_sender_def clone_receiver_def drop_receiver_def Let_def
    try_send_start_ok handle_invD(5) [OF channel_invD(1) [OF assms]] split: call.splits option.splits)

text \<open>The steps that could go wrong: the guards of their handlers hold.\<close>

lemma reserve_no_fault:
  assumes "wf_pc (TryReserve c items m d)"
  shows "try_reserve_step t c items m d s \<noteq> Fault f"
proof -
  have w: "fresh d" "status_free m" "0 < items" "card (slots m) \<le> items" using assms by auto
  have "count_ones r \<le> items" if r: "try_reserve items (sc_bias c) (send s) m = Reserved r" for r
  proof -
    note r' = try_reserve_Reserved [OF r w(2)]
    have "card (slots r) \<le> card (slots m)" unfolding r'(2) by (intro card_mono) auto
    then show ?thesis using w(4) count_ones_slots [OF r'(1)] by simp
  qed
  then show ?thesis using buf.remit_fresh [OF w(1)]
    by (auto simp: try_reserve_step_eq Let_def split: reserve_outcome.splits)
qed

lemma unwritten_slot:
  assumes core: "core S R th b v" and t: "th t = TryWrite c r rest d" and j: "j \<in> slots rest" "slots rest \<subseteq> slots r"
  shows "b j = None"
proof (rule ccontr)
  have own: "j \<in> owned (th t)" using j t by auto
  assume "b j \<noteq> None"
  then consider "j \<in> R" | u where "j \<in> filled (th u)" using coreD(6) [OF core] by blast
  then show False
  proof cases
    case 1
    then show ?thesis using coreD(3) [OF core, of t] own by blast
  next
    case (2 u)
    then have "j \<in> owned (th u)" using coreD(5) [OF core] by blast
    then have "u = t" using coreD(4) [OF core, of u t] own by blast
    then show ?thesis using 2 j(1) t by simp
  qed
qed

lemma write_no_fault:
  assumes core: "core S R (threads s) (bag s) (mem s)" and t: "threads s t = TryWrite c r rest d" and p: "wf_pc (threads s t)"
  shows "try_write_step t c r rest d s \<noteq> Fault f"
proof (cases "drain_next mpmc_n rest")
  case (Some q)
  obtain j rest' where q: "q = (j, rest')" by (cases q)
  note dn = drain_next_wf [OF Some [unfolded q]]
  have w: "slots rest \<subseteq> slots r" "card (slots rest) \<le> length (contents d)" using p t by auto
  have "contents d \<noteq> []" using dn(3) w(2) by auto
  then obtain x d' where "take_item d = Some (x, d')"
    by (cases "take_item d") (auto simp: take_item_None)
  moreover have "j \<in> owned (threads s t)" using dn(1) w(1) t by auto
  then have "race_free t j (mem s)" using core_race_free [OF core] t by simp
  moreover have "bag s j = None" using unwritten_slot [OF core t dn(1) w(1)] .
  ultimately show ?thesis using Some q by (simp add: try_write_step_def)
qed (simp add: try_write_step_def)

lemma read_no_fault:
  assumes core: "core S R (threads s) (bag s) (mem s)" and t: "threads s t = ClaimRead c cl rest vs" and p: "wf_pc (threads s t)"
  shows "claim_read_step t c cl rest vs s \<noteq> Fault f"
proof (cases "drain_next mpmc_n rest")
  case (Some q)
  obtain j rest' where q: "q = (j, rest')" by (cases q)
  note dn = drain_next_wf [OF Some [unfolded q]]
  have w: "slots rest \<subseteq> slots cl" "length vs + card (slots rest) = card (slots cl)" using p t by auto
  have "j \<in> owned (threads s t)" using dn(1) w(1) t by auto
  then have "race_free t j (mem s)" using core_race_free [OF core] t by simp
  moreover have "bag s j \<noteq> None" using coreD(6) [OF core, of j] dn(1) filled.simps(3) t by metis
  moreover have "length vs < mpmc_n" using w(2) dn(3) card_slots_le [of cl] by (simp add: slot_simps(1))
  ultimately show ?thesis using Some q by (auto simp: claim_read_step_def)
qed (simp add: claim_read_step_def)

lemma spin_no_fault:
  assumes "unat (sc_bias c) < 30"
  shows "send_spin_rmw t c n d s \<noteq> Fault f" "send_spin_load t c n d w s \<noteq> Fault f"
  "recv_spin_rmw t k n s \<noteq> Fault f" "recv_spin_load t k n w s \<noteq> Fault f"
proof -
  have "send_spin_check (send s OR SLEEPING) \<noteq> SpinAgain" "recv_spin_check (recv s AND NOT SLEEPING) \<noteq> SpinAgain"
    by (simp_all add: send_spin_check_def recv_spin_check_def contains_SLEEPING contains_DEAD bit_not_iff)
  then show "send_spin_rmw t c n d s \<noteq> Fault f" "send_spin_load t c n d w s \<noteq> Fault f"
    "recv_spin_rmw t k n s \<noteq> Fault f" "recv_spin_load t k n w s \<noteq> Fault f"
    by (auto simp: send_spin_rmw_def send_spin_load_def send_spin_goto_def recv_spin_rmw_def recv_spin_load_def
        recv_spin_goto_def Let_def try_send_start_ok [OF assms] split: spin_outcome.splits)
qed

lemma step_no_fault:
  assumes inv: "channel_inv s"
  shows "step x86_64 t a s \<noteq> Fault f"
proof (cases "inner_dropped s = None")
  case False
  then show ?thesis using dropped_step [OF inv] by simp
next
  case alive: True
  have core: "core (slots (send s)) (slots (recv s)) (threads s) (bag s) (mem s)"
    using channel_invD(5) [OF inv alive] by (simp add: core_inv_def)
  have p: "wf_pc (threads s t)" using channel_invD(4) [OF inv] .
  have reserve: "try_reserve_step t c items m d s \<noteq> Fault f" if "threads s t = TryReserve c items m d" for c items m d
    using reserve_no_fault p that by metis
  have bias: "unat (sc_bias c) < 30" if "scall_of (threads s t) = Some c" for c
    using handle_invD(5,6) [OF channel_invD(1) [OF inv]] that by blast
  have sspin: "send_spin_rmw t c n d s \<noteq> Fault f" "send_spin_load t c n d w s \<noteq> Fault f"
    if "threads s t = SendSpin c n d" for c n d w
    using spin_no_fault(1,2) [of c] bias [of c] that by simp_all
  have torch: "send_torch_step t c d s \<noteq> Fault f" if "threads s t = SendTorch c d" for c d
    using bias [of c] that by (simp add: send_torch_step_def try_send_start_ok)
  have rspin: "recv_spin_rmw t k n s \<noteq> Fault f" "recv_spin_load t k n w s \<noteq> Fault f" for k n w
    using spin_no_fault(3,4) [of "SCall 0 0 False"] by simp_all
  note guards = start_no_fault [OF inv] reserve write_no_fault [OF core _ p] read_no_fault [OF core _ p] sspin torch rspin
  show ?thesis
    by (cases "threads s t") (auto simp: guards step_def on_start_def on_step_def on_spin_def on_woken_def
      on_interrupt_def try_fence_step_def try_commit_step_def wake_step_def send_sleep_step_def
      sdrop_dead_step_def claim_all_step_eq claim_fence_step_def claim_release_step_def
      recv_sleep_step_def recv_torch_step_def rdrop_dead_step_def Let_def split: action.splits)
qed

end
