(* ===== verification/Mpmc_Refine.thy ===== *)
theory Mpmc_Refine
  imports Mpmc_Safe "HOL-Library.Multiset"
begin

text \<open>
  The channel implements a bag: a multiset to which a successful send atomically adds the items
  it accepted and from which a receive atomically takes everything.  The simulation relates every
  step of every thread to one step of that specification, so every interleaving linearises.
\<close>

section \<open>The values held by a set of slots\<close>

definition vals :: "(nat \<Rightarrow> 'a option) \<Rightarrow> nat set \<Rightarrow> 'a multiset" where
  "vals b A = image_mset (\<lambda>i. the (b i)) (mset_set {i \<in> A. b i \<noteq> None})"

lemma vals_empty [simp]: "vals b {} = {#}"
  by (simp add: vals_def)

lemma vals_none [simp]: "vals (\<lambda>_. None) A = {#}"
  by (simp add: vals_def)

lemma vals_other: "i \<notin> A \<Longrightarrow> vals (b(i := x)) A = vals b A"
proof -
  assume i: "i \<notin> A"
  then have "{j \<in> A. (b(i := x)) j \<noteq> None} = {j \<in> A. b j \<noteq> None}" by auto
  moreover have "the ((b(i := x)) j) = the (b j)" if "j \<in># mset_set {j \<in> A. b j \<noteq> None}" for j
    using that i by (cases "finite {j \<in> A. b j \<noteq> None}") auto
  ultimately show ?thesis unfolding vals_def by (metis (mono_tags, lifting) image_mset_cong)
qed

lemma vals_Un:
  assumes "finite A" "finite B" "A \<inter> B = {}"
  shows "vals b (A \<union> B) = vals b A + vals b B"
proof -
  have "{i \<in> A \<union> B. b i \<noteq> None} = {i \<in> A. b i \<noteq> None} \<union> {i \<in> B. b i \<noteq> None}" by auto
  moreover have "{i \<in> A. b i \<noteq> None} \<inter> {i \<in> B. b i \<noteq> None} = {}" using assms(3) by auto
  ultimately show ?thesis using assms(1,2) by (simp add: vals_def mset_set_Union)
qed

lemma vals_single: "b i = Some x \<Longrightarrow> vals b {i} = {#x#}"
proof -
  assume "b i = Some x"
  then have "{j \<in> {i}. b j \<noteq> None} = {i}" by auto
  then show ?thesis using \<open>b i = Some x\<close> by (simp add: vals_def)
qed

lemma vals_insert:
  assumes "finite A" "i \<notin> A" "b i = Some x"
  shows "vals b (insert i A) = add_mset x (vals b A)"
  using vals_Un [of "{i}" A b] assms vals_single [of b i x] by simp

lemma vals_remove:
  assumes "finite A" "i \<in> A" "b i = Some x"
  shows "vals b A = add_mset x (vals b (A - {i}))"
  using vals_insert [of "A - {i}" i b x] assms by (simp add: insert_absorb)

section \<open>The specification: a bag\<close>

text \<open>What is available to receivers, what each thread has offered but not yet published, and
  what each thread has taken for its current call.\<close>

record 'a bag_spec =
  available :: "'a multiset"
  offered :: "nat \<Rightarrow> 'a multiset"
  taken :: "nat \<Rightarrow> 'a multiset"

definition empty_spec :: "'a bag_spec" where
  "empty_spec = \<lparr>available = {#}, offered = (\<lambda>_. {#}), taken = (\<lambda>_. {#})\<rparr>"

text \<open>Sending publishes atomically all the items the call accepted, receiving takes everything
  that is available, and dropping the storage drops what is available.\<close>

inductive spec_step :: "nat \<Rightarrow> 'a bag_spec \<Rightarrow> 'a bag_spec \<Rightarrow> bool" for t where
  Quiet: "spec_step t a a"
| Offer: "spec_step t a (a\<lparr>offered := (offered a)(t := add_mset x (offered a t))\<rparr>)"
| Publish: "spec_step t a (a\<lparr>available := available a + offered a t, offered := (offered a)(t := {#})\<rparr>)"
| TakeAll: "taken a t = {#} \<Longrightarrow> available a \<noteq> {#} \<Longrightarrow>
    spec_step t a (a\<lparr>available := {#}, taken := (taken a)(t := available a)\<rparr>)"
| NextCall: "spec_step t a (a\<lparr>taken := (taken a)(t := {#})\<rparr>)"
| DropAll: "offered a = (\<lambda>_. {#}) \<Longrightarrow>
    spec_step t a (a\<lparr>available := {#}, taken := (taken a)(t := {#})\<rparr>)"

section \<open>The abstraction\<close>

fun offered_pc :: "(nat \<Rightarrow> 'a option) \<Rightarrow> 'a pc \<Rightarrow> 'a multiset" where
  "offered_pc b (TryWrite c r rest d) = vals b (slots r - slots rest)"
| "offered_pc b (TryCommit c r d) = vals b (slots r)"
| "offered_pc b _ = {#}"

fun taken_pc :: "(nat \<Rightarrow> 'a option) \<Rightarrow> 'a pc \<Rightarrow> 'a multiset" where
  "taken_pc b (ClaimRead c cl rest vs) = mset vs + vals b (slots rest)"
| "taken_pc b (ClaimFence c cl vs) = mset vs"
| "taken_pc b (ClaimRelease c cl vs) = mset vs"
| "taken_pc b (ClaimWake c vs) = mset vs"
| "taken_pc b (RecvRet (RecvOk vs)) = mset vs"
| "taken_pc b _ = {#}"

definition abs_bag :: "'a sys \<Rightarrow> 'a bag_spec" where
  "abs_bag s = \<lparr>available = vals (bag s) (slots (recv s)),
     offered = (\<lambda>u. offered_pc (bag s) (threads s u)),
     taken = (\<lambda>u. taken_pc (bag s) (threads s u))\<rparr>"

lemma abs_bag_init: "abs_bag (mpmc n) = empty_spec"
  by (simp add: abs_bag_def empty_spec_def mpmc_def slot_simps)

lemma pc_wake [simp]:
  "offered_pc b (wake_pc p) = offered_pc b p" "taken_pc b (wake_pc p) = taken_pc b p"
  by (cases p; simp)+

lemma pc_entry [simp]: "offered_pc b (try_send_entry c d) = {#}" "taken_pc b (try_send_entry c d) = {#}"
  by (simp_all add: try_send_entry_def Let_def)

lemma pc_spin:
  "send_spin_next c n d w q \<Longrightarrow> offered_pc b q = {#} \<and> taken_pc b q = {#}"
  "recv_spin_next c' n w q \<Longrightarrow> offered_pc b q = {#} \<and> taken_pc b q = {#}"
  unfolding send_spin_next_def recv_spin_next_def by (elim disjE conjE; simp)+

lemma abs_goto:
  assumes "bag s1 = bag s" "slots (recv s1) = slots (recv s)"
    "threads s1 = (\<lambda>u. if u \<in> W then wake_pc (threads s u) else threads s u)"
  shows "abs_bag (goto t q s1) = (abs_bag s)\<lparr>offered := (offered (abs_bag s))(t := offered_pc (bag s) q),
    taken := (taken (abs_bag s))(t := taken_pc (bag s) q)\<rparr>"
  by (auto simp: abs_bag_def assms)

lemma abs_same:
  assumes "bag s1 = bag s" "slots (recv s1) = slots (recv s)"
    "threads s1 = (\<lambda>u. if u \<in> W then wake_pc (threads s u) else threads s u)"
    "offered_pc (bag s) q = offered_pc (bag s) (threads s t)"
    "taken_pc (bag s) q = taken_pc (bag s) (threads s t)"
  shows "abs_bag (goto t q s1) = abs_bag s"
  unfolding abs_goto [OF assms(1-3)] assms(4,5) by (simp add: abs_bag_def fun_upd_idem)

text \<open>Cells that a program counter does not own do not matter to it.\<close>

lemma pc_other:
  assumes "i \<notin> owned p" "wf_pc p"
  shows "offered_pc (b(i := x)) p = offered_pc b p" "taken_pc (b(i := x)) p = taken_pc b p"
proof -
  show "offered_pc (b(i := x)) p = offered_pc b p"
    using assms(1) by (cases p) (auto intro!: vals_other)
  show "taken_pc (b(i := x)) p = taken_pc b p"
  proof (cases p)
    case (RecvRet r)
    then show ?thesis by (cases r) simp_all
  qed (use assms in \<open>auto intro!: vals_other\<close>)
qed

lemma finite_slots_minus [simp]: "finite (slots w - A)"
  by simp

lemma abs_drop_inner:
  assumes inner: "drop_inner t s = Next s'" and l: "last_handle_gone s" and inv: "channel_inv s"
  shows "spec_step t (abs_bag s) (abs_bag s')"
proof -
  obtain v where s': "s' = goto t Idle (s\<lparr>bag := (\<lambda>_. None), mem := v,
    inner_dropped := Some (map (\<lambda>i. the (bag s i)) (sorted_list_of_set (slots (recv s))))\<rparr>)"
    using drop_inner_ok [OF inv l, of t] inner by auto
  have r: "ready (threads s u)" for u using no_handles(3) [OF channel_invD(1) [OF inv] l] .
  have "offered_pc b (threads s u) = {#}" for b u using r [of u] by (cases "threads s u") simp_all
  moreover have "taken_pc b (threads s u) = taken_pc (bag s) (threads s u)" for b u
  proof (cases "threads s u")
    case (RecvRet x) then show ?thesis by (cases x) simp_all
  qed (use r [of u] in simp_all)
  ultimately have "abs_bag s' = (abs_bag s)\<lparr>available := {#}, taken := (taken (abs_bag s))(t := {#})\<rparr>"
    and "offered (abs_bag s) = (\<lambda>_. {#})"
    unfolding s' by (auto simp: abs_bag_def intro!: ext)
  then show ?thesis using spec_step.DropAll [of "abs_bag s" t] by simp
qed

lemma abs_call_move:
  assumes "call_move t s s'" "ready (threads s t)" and inv: "channel_inv s"
  shows "spec_step t (abs_bag s) (abs_bag s')"
proof -
  have off: "offered_pc (bag s) (threads s t) = {#}" using assms(2) by (cases "threads s t") simp_all
  have move: "spec_step t (abs_bag s) (abs_bag (goto t q s1))"
    if "bag s1 = bag s" "recv s1 = recv s" "threads s1 = threads s"
      "offered_pc (bag s) q = {#}" "taken_pc (bag s) q = {#}" for q s1
  proof -
    have "abs_bag (goto t q s1) = (abs_bag s)\<lparr>taken := (taken (abs_bag s))(t := {#})\<rparr>"
      using abs_goto [of s1 s "{}" t q] that off by (simp add: abs_bag_def fun_upd_idem)
    then show ?thesis using spec_step.NextCall [of t "abs_bag s"] by simp
  qed
  from assms(1) show ?thesis
  proof cases
    case (snd h bias d blocking) then show ?thesis unfolding snd(3) by (intro move) simp_all
  next
    case (rcv h blocking) then show ?thesis unfolding rcv(2) by (intro move) simp_all
  next
    case (sclone h b h') then show ?thesis unfolding sclone(4) by (intro move) simp_all
  next
    case (sdrop h b) then show ?thesis unfolding sdrop(3) by (intro move) (simp_all split: if_splits)
  next
    case (rclone h h') then show ?thesis unfolding rclone(4) by (intro move) simp_all
  next
    case (rdrop h) then show ?thesis unfolding rdrop(3) by (intro move) (simp_all split: if_splits)
  next
    case (inner b v dropped)
    from abs_drop_inner [OF inner(1,2) inv] show ?thesis .
  qed
qed

lemma spec_quiet:
  assumes "s' = goto t q s1" "bag s1 = bag s" "slots (recv s1) = slots (recv s)"
    "threads s1 = (\<lambda>u. if u \<in> W then wake_pc (threads s u) else threads s u)"
    "offered_pc (bag s) q = offered_pc (bag s) (threads s t)"
    "taken_pc (bag s) q = taken_pc (bag s) (threads s t)"
  shows "spec_step t (abs_bag s) (abs_bag s')"
  unfolding assms(1) abs_same [OF assms(2-6)] by (rule spec_step.Quiet)

lemmas spec_quiet' = spec_quiet [where W = "{}"]

text \<open>A slot that a call owns is nothing to the others.\<close>

lemma other_slots:
  assumes core: "core S (slots r) th b v" and i: "i \<in> owned (th t)" and p: "wf_pc (th u)"
  shows "u \<noteq> t \<Longrightarrow> offered_pc (b(i := x)) (th u) = offered_pc b (th u)"
    "u \<noteq> t \<Longrightarrow> taken_pc (b(i := x)) (th u) = taken_pc b (th u)"
    "vals (b(i := x)) (slots r) = vals b (slots r)"
proof -
  have "i \<notin> owned (th u)" if "u \<noteq> t" using coreD(4) [OF core that] i by blast
  then show "u \<noteq> t \<Longrightarrow> offered_pc (b(i := x)) (th u) = offered_pc b (th u)"
    "u \<noteq> t \<Longrightarrow> taken_pc (b(i := x)) (th u) = taken_pc b (th u)"
    using pc_other [OF _ p] by blast+
  have "i \<notin> slots r" using coreD(3) [OF core, of t] i by blast
  then show "vals (b(i := x)) (slots r) = vals b (slots r)" by (rule vals_other)
qed

lemma abs_send_move:
  assumes "send_move x86_64 t s s'" and wf: "wf_threads (threads s)" and c: "core_inv s"
  shows "spec_step t (abs_bag s) (abs_bag s')"
proof -
  have p: "wf_pc (threads s u)" for u using wf by (simp add: wf_threads_def)
  note core = c [unfolded core_inv_def]
  from assms(1) show ?thesis
  proof cases
    case (reserve c items m d q)
    have "offered_pc (bag s) q = {#} \<and> taken_pc (bag s) q = {#}"
      using reserve(3) by (elim disjE exE conjE) (simp_all split: if_splits)
    then show ?thesis using reserve(1)
      by (intro spec_quiet' [OF reserve(2)]) simp_all
  next
    case (fence c r d) then show ?thesis by (intro spec_quiet' [OF fence(2)]) simp_all
  next
    case (wr c r rest d i rest' x d')
    note dn = drain_next_wf [OF wr(2)]
    have w: "slots rest \<subseteq> slots r" using p [of t] wr(1) by simp
    have i: "i \<in> owned (threads s t)" using dn(1) w wr(1) by auto
    have "slots r - slots rest' = insert i (slots r - slots rest)" using dn w by auto
    then have "vals ((bag s)(i := Some x)) (slots r - slots rest') =
        add_mset x (vals (bag s) (slots r - slots rest))"
      using vals_insert [of "slots r - slots rest" i "(bag s)(i := Some x)" x] dn(1) vals_other
      by (metis DiffD2 finite_slots_minus fun_upd_same)
    then have "abs_bag s' = (abs_bag s)\<lparr>offered := (offered (abs_bag s))
        (t := add_mset x (offered (abs_bag s) t))\<rparr>"
      unfolding wr(4) using other_slots [OF core i p] wr(1)
      by (auto simp: abs_bag_def intro!: ext)
    then show ?thesis using spec_step.Offer [of t "abs_bag s" x] by simp
  next
    case (wrdone c r rest d)
    then have "slots rest = {}" by (simp add: mpmc_n_def)
    then show ?thesis using wrdone(1) by (intro spec_quiet' [OF wrdone(3)]) simp_all
  next
    case (commit c r d q)
    have "slots r \<inter> slots (recv s) = {}" using coreD(3) [OF core, of t] commit(1) by auto
    then have "vals (bag s) (slots (recv s) \<union> slots r) =
        vals (bag s) (slots (recv s)) + vals (bag s) (slots r)"
      by (intro vals_Un) auto
    then have "abs_bag s' = (abs_bag s)\<lparr>available := available (abs_bag s) + offered (abs_bag s) t,
        offered := (offered (abs_bag s))(t := {#})\<rparr>"
      unfolding commit(2) using commit(1,3)
      by (auto simp: abs_bag_def slots_commit_recv intro!: ext split: if_splits)
    then show ?thesis using spec_step.Publish [of t "abs_bag s"] by simp
  qed
qed

lemma abs_recv_move:
  assumes "recv_move x86_64 t s s'" and wf: "wf_threads (threads s)" and c: "core_inv s"
  shows "spec_step t (abs_bag s) (abs_bag s')"
proof -
  have p: "wf_pc (threads s u)" for u using wf by (simp add: wf_threads_def)
  note core = c [unfolded core_inv_def]
  from assms(1) show ?thesis
  proof cases
    case (claim c q)
    show ?thesis
    proof (cases "slots (recv s) = {}")
      case True
      then show ?thesis using claim
        by (intro spec_quiet' [OF claim(2)]) (auto split: if_splits)
    next
      case False
      have sl: "slots (recv s AND NOT status_all) = slots (recv s)" by (rule slots_claim)
      have "abs_bag s' = (abs_bag s)\<lparr>available := {#}, taken := (taken (abs_bag s))(t := available (abs_bag s))\<rparr>"
        unfolding claim(2) using claim(1,3) False sl
        by (auto simp: abs_bag_def intro!: ext)
      moreover have "taken (abs_bag s) t = {#}" using claim(1) by (simp add: abs_bag_def)
      moreover have "available (abs_bag s) \<noteq> {#}"
      proof -
        have "{i \<in> slots (recv s). bag s i \<noteq> None} = slots (recv s)"
          using coreD(6) [OF core] by blast
        then show ?thesis using False by (simp add: abs_bag_def vals_def mset_set_empty_iff)
      qed
      ultimately show ?thesis using spec_step.TakeAll [of "abs_bag s" t] by simp
    qed
  next
    case (rd c cl rest vs i rest' x)
    note dn = drain_next_wf [OF rd(2)]
    have w: "slots rest \<subseteq> slots cl" using p [of t] rd(1) by simp
    have i: "i \<in> owned (threads s t)" using dn(1) w rd(1) by auto
    have "vals (bag s) (slots rest) = add_mset x (vals ((bag s)(i := None)) (slots rest'))"
      using vals_remove [of "slots rest" i "bag s" x] vals_other [of i "slots rest'" "bag s" None] dn rd(3) by simp
    then have "abs_bag s' = abs_bag s"
      unfolding rd(4) using other_slots [OF core i p] rd(1)
      by (auto simp: abs_bag_def intro!: ext)
    then show ?thesis by (simp add: spec_step.Quiet)
  next
    case (rddone c cl rest vs)
    then have "slots rest = {}" by (simp add: mpmc_n_def)
    then show ?thesis using rddone(1) by (intro spec_quiet' [OF rddone(3)]) simp_all
  next
    case (rfence c cl vs) then show ?thesis by (intro spec_quiet' [OF rfence(2)]) simp_all
  next
    case (release c cl vs q) then show ?thesis by (intro spec_quiet' [OF release(2)]) simp_all
  qed
qed

lemma abs_sleep_move:
  assumes "sleep_move t s s'"
  shows "spec_step t (abs_bag s) (abs_bag s')"
  using assms
proof cases
  case (sspin c n d w q)
  then show ?thesis using pc_spin(1) [OF sspin(4), of "bag s"] by (intro spec_quiet' [OF sspin(5)]) simp_all
next
  case (sload c n d w q)
  then show ?thesis using pc_spin(1) [OF sload(4), of "bag s"] by (intro spec_quiet' [OF sload(5)]) simp_all
next
  case (ssleep c e d q) then show ?thesis by (intro spec_quiet' [OF ssleep(2)]) simp_all
next
  case (sintr c d) then show ?thesis by (intro spec_quiet' [OF sintr(2)]) simp_all
next
  case (storch c d) then show ?thesis by (intro spec_quiet' [OF storch(2)]) simp_all
next
  case (twake c d W) then show ?thesis by (intro spec_quiet [OF twake(3)]) simp_all
next
  case (rspin c n w q)
  then show ?thesis using pc_spin(2) [OF rspin(4), of "bag s"] by (intro spec_quiet' [OF rspin(5)]) simp_all
next
  case (rload c n w q)
  then show ?thesis using pc_spin(2) [OF rload(4), of "bag s"] by (intro spec_quiet' [OF rload(5)]) simp_all
next
  case (rsleep c e q) then show ?thesis by (intro spec_quiet' [OF rsleep(2)]) simp_all
next
  case (rintr c) then show ?thesis by (intro spec_quiet' [OF rintr(2)]) simp_all
next
  case (rtorch c) then show ?thesis by (intro spec_quiet' [OF rtorch(2)]) simp_all
next
  case (cwake c vs W) then show ?thesis by (intro spec_quiet [OF cwake(3)]) simp_all
qed

lemma abs_death_move:
  assumes "death_move t s s'"
  shows "spec_step t (abs_bag s) (abs_bag s')"
  using assms
proof cases
  case (sdead q) then show ?thesis by (intro spec_quiet' [OF sdead(2)]) simp_all
next
  case (sdwake W) then show ?thesis by (intro spec_quiet [OF sdwake(3)]) simp_all
next
  case (rdead q) then show ?thesis by (intro spec_quiet' [OF rdead(2)]) simp_all
next
  case (rdwake W) then show ?thesis by (intro spec_quiet [OF rdwake(3)]) simp_all
qed

lemma abs_step:
  assumes inv: "channel_inv s" and st: "step x86_64 t a s = Next s'"
  shows "spec_step t (abs_bag s) (abs_bag s')"
proof -
  have "inner_dropped s = None" using dropped_step [OF inv] st by fastforce
  then have c: "core_inv s" using channel_invD(5) [OF inv] by blast
  have wf: "wf_threads (threads s)" using channel_invD(3) [OF inv] .
  from st show ?thesis
  proof (cases rule: step_moves)
    case call
    from call(2,1) inv show ?thesis by (rule abs_call_move)
  next
    case send
    then show ?thesis using wf c by (rule abs_send_move)
  next
    case recv
    then show ?thesis using wf c by (rule abs_recv_move)
  next
    case sleep
    then show ?thesis by (rule abs_sleep_move)
  next
    case death
    then show ?thesis by (rule abs_death_move)
  qed
qed

end
