(* ===== verification/Mpmc_Account.thy ===== *)
theory Mpmc_Account
  imports Mpmc_Refine
begin

text \<open>
  Two accounts over the whole run: of the values (written, read, stored, dropped) and of the
  slots (every slot a sender sees as taken is committed or in the hands of a running call).
\<close>

section \<open>No value is lost or duplicated\<close>

definition stored :: "'a sys \<Rightarrow> 'a multiset" where
  "stored s = vals (bag s) {..<30}"

definition dropped :: "'a sys \<Rightarrow> 'a multiset" where
  "dropped s = (case inner_dropped s of None \<Rightarrow> {#} | Some vs \<Rightarrow> mset vs)"

definition conserved :: "'a sys \<Rightarrow> bool" where
  "conserved s \<longleftrightarrow> mset (sent_log s) = mset (recv_log s) + stored s + dropped s"

lemma stored_write: "i < 30 \<Longrightarrow> b i = None \<Longrightarrow> vals (b(i := Some x)) {..<30} = add_mset x (vals b {..<30})"
proof -
  assume i: "i < 30" "b i = None"
  have "{j \<in> {..<30}. b j \<noteq> None} = {j \<in> {..<30} - {i}. b j \<noteq> None}" using i by auto
  then have "vals b {..<30} = vals b ({..<30} - {i})" by (simp add: vals_def)
  moreover have "vals (b(i := Some x)) {..<30} = add_mset x (vals (b(i := Some x)) ({..<30} - {i}))"
    using i by (intro vals_remove) auto
  ultimately show ?thesis by (simp add: vals_other)
qed

lemma stored_read: "i < 30 \<Longrightarrow> b i = Some x \<Longrightarrow> vals b {..<30} = add_mset x (vals (b(i := None)) {..<30})"
  using stored_write [of i "b(i := None)" x] by (simp add: fun_upd_idem)

lemma vals_sorted: "finite A \<Longrightarrow> (\<And>i. i \<in> A \<Longrightarrow> b i \<noteq> None) \<Longrightarrow>
    vals b A = mset (map (\<lambda>i. the (b i)) (sorted_list_of_set A))"
proof -
  assume a: "finite A" "\<And>i. i \<in> A \<Longrightarrow> b i \<noteq> None"
  then have "{i \<in> A. b i \<noteq> None} = A" by auto
  moreover have "mset (sorted_list_of_set A) = mset_set A"
    using mset_set_set [of "sorted_list_of_set A"] a(1) by simp
  ultimately show ?thesis unfolding vals_def mset_map by simp
qed

lemma conserved_same:
  "conserved s \<Longrightarrow> bag s1 = bag s \<Longrightarrow> sent_log s1 = sent_log s \<Longrightarrow> recv_log s1 = recv_log s \<Longrightarrow>
    inner_dropped s1 = inner_dropped s \<Longrightarrow> conserved (goto t q s1)"
  by (simp add: conserved_def stored_def dropped_def)

text \<open>When the last handle is gone, what is stored is what is committed.\<close>

lemma stored_slots:
  assumes inv: "channel_inv s" and l: "last_handle_gone s"
  shows "bag s i \<noteq> None \<longleftrightarrow> i \<in> slots (recv s)"
proof -
  have "inner_dropped s = None" using l by (simp add: last_handle_gone_def)
  then have core: "core (slots (send s)) (slots (recv s)) (threads s) (bag s) (mem s)"
    using channel_invD(5) [OF inv] by (simp add: core_inv_def)
  have "filled (threads s u) = {}" for u
    using no_handles(3) [OF channel_invD(1) [OF inv] l, of u] by simp
  then show ?thesis using coreD(6) [OF core, of i] by simp
qed

lemma committed_values:
  assumes "channel_inv s" "last_handle_gone s"
  shows "vals (bag s) (slots (recv s)) = mset (map (\<lambda>i. the (bag s i)) (sorted_list_of_set (slots (recv s))))"
  using stored_slots [OF assms] by (intro vals_sorted) auto

lemma stored_committed:
  assumes "channel_inv s" "last_handle_gone s"
  shows "stored s = mset (map (\<lambda>i. the (bag s i)) (sorted_list_of_set (slots (recv s))))"
proof -
  have "{i \<in> {..<30}. bag s i \<noteq> None} = {i \<in> slots (recv s). bag s i \<noteq> None}"
    using stored_slots [OF assms] slots_lt by auto
  then have "stored s = vals (bag s) (slots (recv s))" by (simp add: stored_def vals_def)
  then show ?thesis using committed_values [OF assms] by simp
qed

lemma conserved_call_move:
  assumes "call_move t s s'" and inv: "channel_inv s" and c: "conserved s"
  shows "conserved s'"
  using assms(1)
proof cases
  case (inner b v dropped)
  then have alive: "inner_dropped s = None" by (simp add: last_handle_gone_def)
  obtain v where s': "s' = goto t Idle (s\<lparr>bag := (\<lambda>_. None), mem := v,
      inner_dropped := Some (map (\<lambda>i. the (bag s i)) (sorted_list_of_set (slots (recv s))))\<rparr>)"
    using drop_inner_ok [OF inv inner(2), of t] inner(1) by auto
  show ?thesis using c alive stored_committed [OF inv inner(2)]
    unfolding s' by (simp add: conserved_def stored_def dropped_def)
qed (simp_all add: conserved_same [OF c])

lemma conserved_send_move:
  assumes "send_move x86_64 t s s'" and c: "conserved s"
  shows "conserved s'"
  using assms(1)
proof cases
  case (wr cl r rest d i rest' x d')
  have "i < 30" using drain_next_wf(1) [OF wr(2)] slots_lt by blast
  then show ?thesis using c stored_write [of i "bag s" x] wr(5)
    unfolding wr(4) by (simp add: conserved_def stored_def dropped_def)
qed (simp_all add: conserved_same [OF c])

lemma conserved_recv_move:
  assumes "recv_move x86_64 t s s'" and c: "conserved s"
  shows "conserved s'"
  using assms(1)
proof cases
  case (rd ca cl rest vs i rest' x)
  have "i < 30" using drain_next_wf(1) [OF rd(2)] slots_lt by blast
  then show ?thesis using c stored_read [of i "bag s" x] rd(3)
    unfolding rd(4) by (simp add: conserved_def stored_def dropped_def)
qed (simp_all add: conserved_same [OF c])

lemma conserved_sleep_move:
  assumes "sleep_move t s s'" and c: "conserved s"
  shows "conserved s'"
  using assms(1) by cases (simp_all add: conserved_same [OF c])

lemma conserved_death_move:
  assumes "death_move t s s'" and c: "conserved s"
  shows "conserved s'"
  using assms(1) by cases (simp_all add: conserved_same [OF c])

lemma conserved_step:
  assumes "step x86_64 t a s = Next s'" and inv: "channel_inv s" and c: "conserved s"
  shows "conserved s'"
  using assms(1)
  by (cases rule: step_moves) (use inv c conserved_call_move conserved_send_move conserved_recv_move
      conserved_sleep_move conserved_death_move in blast)+

section \<open>No slot is lost\<close>

text \<open>While the senders have not been told that the receivers are gone, every slot that looks
  taken is committed or owned by a running call, so it becomes free again.\<close>

definition accounted :: "'a sys \<Rightarrow> bool" where
  "accounted s \<longleftrightarrow> bit (send s) 0 \<or> slots (send s) \<subseteq> slots (recv s) \<union> (\<Union>u. owned (threads s u))"

lemma accounted_goto:
  assumes "accounted s"
    and "threads s1 = (\<lambda>u. if u \<in> W then wake_pc (threads s u) else threads s u)"
    and "bit (send s) 0 \<Longrightarrow> bit (send s1) 0"
    and "\<not> bit (send s) 0 \<Longrightarrow> \<not> bit (send s1) 0 \<Longrightarrow>
      slots (send s1) \<subseteq> slots (recv s1) \<union> owned q \<union> (slots (send s) - slots (recv s) - owned (threads s t))"
  shows "accounted (goto t q s1)"
proof (cases "bit (send s1) 0")
  case False
  then have s: "\<not> bit (send s) 0" using assms(3) by blast
  then have a: "slots (send s) \<subseteq> slots (recv s) \<union> (\<Union>u. owned (threads s u))"
    using assms(1) by (simp add: accounted_def)
  have "slots (send s1) \<subseteq> slots (recv s1) \<union> owned q \<union> (\<Union>u\<in>-{t}. owned (threads s u))"
  proof
    fix i assume "i \<in> slots (send s1)"
    then have "i \<in> slots (recv s1) \<union> owned q \<or> i \<in> slots (send s) - slots (recv s) - owned (threads s t)"
      using assms(4) [OF s False] by blast
    then show "i \<in> slots (recv s1) \<union> owned q \<union> (\<Union>u\<in>-{t}. owned (threads s u))"
    proof
      assume i: "i \<in> slots (send s) - slots (recv s) - owned (threads s t)"
      then obtain u where "i \<in> owned (threads s u)" using a by blast
      moreover have "u \<noteq> t" using calculation i by blast
      ultimately show ?thesis by blast
    qed blast
  qed
  also have "\<dots> \<subseteq> slots (recv s1) \<union> (\<Union>u. owned (threads (goto t q s1) u))"
    by (auto simp: assms(2) split: if_splits)
  finally show ?thesis by (simp add: accounted_def)
qed (simp add: accounted_def)

lemma accounted_same:
  assumes "accounted s" "threads s1 = (\<lambda>u. if u \<in> W then wake_pc (threads s u) else threads s u)"
    "send s1 = send s" "recv s1 = recv s" "owned q = owned (threads s t)"
  shows "accounted (goto t q s1)"
  by (rule accounted_goto [OF assms(1,2)]) (use assms in auto)


lemma accounted_call_move:
  assumes "call_move t s s'" "ready (threads s t)" and c: "accounted s"
  shows "accounted s'"
proof -
  have o: "owned (threads s t) = {}" using assms(2) by simp
  note same = accounted_same [OF c, where W = "{}" and t = t]
  from assms(1) show ?thesis
  proof cases
    case (snd h bias d blocking) then show ?thesis unfolding snd(3) using o by (intro same) simp_all
  next
    case (rcv h blocking) then show ?thesis unfolding rcv(2) using o by (intro same) simp_all
  next
    case (sclone h b h') then show ?thesis unfolding sclone(4) using o by (intro same) simp_all
  next
    case (sdrop h b) then show ?thesis unfolding sdrop(3) using o by (intro same) (simp_all split: if_splits)
  next
    case (rclone h h') then show ?thesis unfolding rclone(4) using o by (intro same) simp_all
  next
    case (rdrop h) then show ?thesis unfolding rdrop(3) using o by (intro same) (simp_all split: if_splits)
  next
    case (inner b v dropped) then show ?thesis unfolding inner(3) using o by (intro same) simp_all
  qed
qed

lemma owned_spin:
  "send_spin_next c n d w q \<Longrightarrow> owned q = {}" "recv_spin_next c' n w q \<Longrightarrow> owned q = {}"
  unfolding send_spin_next_def recv_spin_next_def by (elim disjE conjE; simp)+

lemma accounted_send_move:
  assumes "send_move x86_64 t s s'" and inv: "channel_inv s" and c: "accounted s"
  shows "accounted s'"
proof -
  have p: "wf_pc (threads s t)" using channel_invD(4) [OF inv] .
  note same = accounted_same [OF c, where W = "{}" and t = t]
  note move = accounted_goto [OF c, where W = "{}" and t = t]
  from assms(1) show ?thesis
  proof cases
    case (reserve ca items m d q)
    have w: "status_free m" "0 < items" using p reserve(1) by auto
    have "slots m - slots (send s) \<subseteq> owned q" if dead: "\<not> bit (send s) 0"
      using reserve(3)
    proof (elim disjE exE conjE)
      fix r assume "try_reserve items (sc_bias ca) (send s) m = Reserved r" "q = TryFence ca r d"
      then show ?thesis using try_reserve_Reserved [OF _ w(1)] by simp
    next
      fix m' assume "try_reserve items (sc_bias ca) (send s) m = Retry m'"
      then show ?thesis using try_reserve_Retry(5) [OF _ w] by blast
    next
      assume "slots (send s) = {..<30}"
      then show ?thesis by (auto dest: slots_lt)
    qed (use dead in simp)
    then show ?thesis unfolding reserve(2) using reserve(1) bits_status_free(1) [OF w(1)]
      by (intro move) (auto simp: slots_or)
  next
    case (fence ca r d) then show ?thesis unfolding fence(2) by (intro same) simp_all
  next
    case (wr ca r rest d i rest' x d') then show ?thesis unfolding wr(4) by (intro same) simp_all
  next
    case (wrdone ca r rest d) then show ?thesis unfolding wrdone(3) by (intro same) simp_all
  next
    case (commit ca r d q)
    then show ?thesis unfolding commit(2) by (intro move) (auto simp: slots_commit_recv)
  qed
qed

lemma accounted_recv_move:
  assumes "recv_move x86_64 t s s'" and inv: "channel_inv s" and c: "accounted s"
  shows "accounted s'"
proof -
  note same = accounted_same [OF c, where W = "{}" and t = t]
  note move = accounted_goto [OF c, where W = "{}" and t = t]
  from assms(1) show ?thesis
  proof cases
    case (claim ca q)
    have sl: "slots (recv s AND NOT status_all) = slots (recv s)" by (rule slots_claim)
    show ?thesis unfolding claim(2)
      by (intro move) (use claim(1,3) sl in \<open>auto split: if_splits\<close>)
  next
    case (rd ca cl rest vs i rest' x) then show ?thesis unfolding rd(4) by (intro same) simp_all
  next
    case (rddone ca cl rest vs) then show ?thesis unfolding rddone(3) by (intro same) simp_all
  next
    case (rfence ca cl vs) then show ?thesis unfolding rfence(2) by (intro same) simp_all
  next
    case (release ca cl vs q)
    have "bit (send s) 0 \<Longrightarrow> False"
      using rcall_receivers [OF channel_invD(1) [OF inv], of t ca] release(1)
        death_invD(4) [OF channel_invD(2) [OF inv]] by simp
    then show ?thesis unfolding release(2) using release(1)
      by (intro move) (auto simp: slots_release_send)
  qed
qed

lemma accounted_sleep_move:
  assumes "sleep_move t s s'" and c: "accounted s"
  shows "accounted s'"
proof -
  note same = accounted_same [OF c, where W = "{}" and t = t]
  note wake = accounted_same [OF c, where t = t]
  note move = accounted_goto [OF c, where W = "{}" and t = t]
  from assms(1) show ?thesis
  proof cases
    case (sspin ca n d w q)
    then show ?thesis unfolding sspin(5) using owned_spin by (intro move) auto
  next
    case (sload ca n d w q) then show ?thesis unfolding sload(5)
      using owned_spin(1) [OF sload(4)] by (intro same) simp_all
  next
    case (ssleep ca e d q) then show ?thesis unfolding ssleep(2) by (intro same) simp_all
  next
    case (sintr ca d) then show ?thesis unfolding sintr(2) by (intro same) simp_all
  next
    case (storch ca d) then show ?thesis unfolding storch(2) by (intro move) auto
  next
    case (twake ca d W) then show ?thesis unfolding twake(3) by (intro wake) simp_all
  next
    case (rspin ca n w q)
    then show ?thesis unfolding rspin(5) using owned_spin by (intro move) auto
  next
    case (rload ca n w q) then show ?thesis unfolding rload(5)
      using owned_spin(2) [OF rload(4)] by (intro same) simp_all
  next
    case (rsleep ca e q) then show ?thesis unfolding rsleep(2) by (intro same) simp_all
  next
    case (rintr ca) then show ?thesis unfolding rintr(2) by (intro same) simp_all
  next
    case (rtorch ca) then show ?thesis unfolding rtorch(2) by (intro move) auto
  next
    case (cwake ca vs W) then show ?thesis unfolding cwake(3) by (intro wake) simp_all
  qed
qed

lemma accounted_death_move:
  assumes "death_move t s s'" and c: "accounted s"
  shows "accounted s'"
proof -
  note wake = accounted_same [OF c, where t = t]
  note move = accounted_goto [OF c, where W = "{}" and t = t]
  from assms(1) show ?thesis
  proof cases
    case (sdead q) then show ?thesis unfolding sdead(2) by (intro move) (auto split: if_splits)
  next
    case (sdwake W) then show ?thesis unfolding sdwake(3) by (intro wake) simp_all
  next
    case (rdead q)
    then show ?thesis unfolding rdead(2) by (intro move) (auto split: if_splits)
  next
    case (rdwake W) then show ?thesis unfolding rdwake(3) by (intro wake) simp_all
  qed
qed

lemma accounted_step:
  assumes "step x86_64 t a s = Next s'" and inv: "channel_inv s" and c: "accounted s"
  shows "accounted s'"
  using assms(1)
  by (cases rule: step_moves) (use inv c accounted_call_move accounted_send_move accounted_recv_move
      accounted_sleep_move accounted_death_move in blast)+

text \<open>Over every reachable state.\<close>

lemma reachable_conserved: "reachable x86_64 s \<Longrightarrow> conserved s"
proof (induction rule: reachable.induct)
  case (reachable_init n)
  show ?case by (simp add: conserved_def stored_def dropped_def mpmc_def)
qed (use conserved_step reachable_inv in blast)

lemma reachable_accounted: "reachable x86_64 s \<Longrightarrow> accounted s"
proof (induction rule: reachable.induct)
  case (reachable_init n)
  show ?case by (simp add: accounted_def mpmc_def slot_simps)
qed (use accounted_step reachable_inv in blast)

end
