(* ===== verification/Mpmc_Sleep.thy ===== *)
theory Mpmc_Sleep
  imports Mpmc_Account
begin

text \<open>
  Sleeping and waking.  A sleeping receiver is always announced or about to be, and is never left
  behind while values wait; a sleeping sender is never left behind while the bag is empty.
\<close>

section \<open>Who is about to wake whom\<close>

text \<open>The threads that are obliged to a sleeping receiver: those about to issue a wake call, and
  a woken receiver that has not yet announced the other sleepers again.  An active receiver may
  also be one that is about to look at the word.\<close>

fun r_waker :: "'a pc \<Rightarrow> bool" where
  "r_waker (TryWake c d) = True"
| "r_waker SDropWake = True"
| "r_waker (RecvTorch c) = True"
| "r_waker _ = False"

fun r_active :: "'a pc \<Rightarrow> bool" where
  "r_active (TryWake c d) = True"
| "r_active SDropWake = True"
| "r_active (RecvTorch c) = True"
| "r_active (ClaimAll c) = True"
| "r_active (RecvSpin c n) = True"
| "r_active (RecvSleep c e) = True"
| "r_active _ = False"

fun s_waker :: "'a pc \<Rightarrow> bool" where
  "s_waker (ClaimWake c vs) = True"
| "s_waker RDropWake = True"
| "s_waker (SendTorch c d) = True"
| "s_waker _ = False"

fun s_active :: "'a pc \<Rightarrow> bool" where
  "s_active (ClaimWake c vs) = True"
| "s_active RDropWake = True"
| "s_active (SendTorch c d) = True"
| "s_active (TryReserve c items m d) = True"
| "s_active (SendSpin c n d) = True"
| "s_active (SendSleep c e d) = True"
| "s_active _ = False"

lemma waker_active [simp]: "r_waker p \<Longrightarrow> r_active p" "s_waker p \<Longrightarrow> s_active p"
  by (cases p; simp)+

lemma waker_not_asleep: "r_active p \<Longrightarrow> \<not> recv_asleep p" "s_active p \<Longrightarrow> \<not> send_asleep p"
  "recv_asleep p \<Longrightarrow> \<not> s_active p" "send_asleep p \<Longrightarrow> \<not> r_active p"
  by (cases p; simp)+

lemma wake_pc_asleep [simp]:
  "recv_asleep p \<Longrightarrow> r_waker (wake_pc p)" "send_asleep p \<Longrightarrow> s_waker (wake_pc p)"
  "\<not> recv_asleep (wake_pc p)" "\<not> send_asleep (wake_pc p)"
  by (cases p; simp)+

lemma asleep_call: "recv_asleep p \<Longrightarrow> rcall_of p \<noteq> None" "send_asleep p \<Longrightarrow> scall_of p \<noteq> None"
  by (cases p; simp)+

text \<open>Something for the senders to wait for: they are told that the receivers are gone, or a
  slot is taken, so that its receiver will release it.\<close>

definition send_pending :: "'a sys \<Rightarrow> bool" where
  "send_pending s \<longleftrightarrow> bit (send s) 0 \<or> slots (send s) \<noteq> {}"

definition sleep_inv :: "'a sys \<Rightarrow> bool" where
  "sleep_inv s \<longleftrightarrow>
     ((\<exists>u. recv_asleep (threads s u)) \<longrightarrow>
        (\<not> bit (recv s) 1 \<or> (\<exists>u. r_waker (threads s u))) \<and>
        (slots (recv s) \<noteq> {} \<longrightarrow> (\<exists>u. r_active (threads s u)))) \<and>
     ((\<exists>u. send_asleep (threads s u)) \<longrightarrow>
        (bit (send s) 1 \<or> (\<exists>u. s_waker (threads s u))) \<and>
        (\<not> send_pending s \<longrightarrow> (\<exists>u. s_active (threads s u))))"

lemma sleep_invD:
  assumes "sleep_inv s"
  shows "recv_asleep (threads s u) \<Longrightarrow> bit (recv s) 1 \<Longrightarrow> \<exists>u. r_waker (threads s u)"
    "recv_asleep (threads s u) \<Longrightarrow> slots (recv s) \<noteq> {} \<Longrightarrow> \<exists>u. r_active (threads s u)"
    "send_asleep (threads s u) \<Longrightarrow> \<not> bit (send s) 1 \<Longrightarrow> \<exists>u. s_waker (threads s u)"
    "send_asleep (threads s u) \<Longrightarrow> \<not> send_pending s \<Longrightarrow> \<exists>u. s_active (threads s u)"
  using assms unfolding sleep_inv_def by blast+

lemma ex_upd: "(\<exists>u. P ((th(t := q)) u)) \<longleftrightarrow> P q \<or> (\<exists>u. u \<noteq> t \<and> P (th u))"
  by auto

text \<open>A property of one thread that stands in for a quiet word is passed on when that thread moves.\<close>

lemma kept_by:
  assumes "quiet \<or> (\<exists>u. K (f u))" "K (f t) \<Longrightarrow> K q \<or> quiet'"
    and "quiet \<Longrightarrow> quiet' \<or> K q \<or> (\<exists>u. u \<noteq> t \<and> K (f u))"
  shows "quiet' \<or> K q \<or> (\<exists>u. u \<noteq> t \<and> K (f u))"
  using assms by metis

lemma sleep_goto:
  assumes inv: "sleep_inv s" and th: "threads s1 = threads s"
    and r: "recv_asleep q \<Longrightarrow> \<not> bit (recv s1) 1 \<and> slots (recv s1) = {}"
      "r_waker (threads s t) \<Longrightarrow> r_waker q \<or> \<not> bit (recv s1) 1"
      "bit (recv s1) 1 \<Longrightarrow> \<not> bit (recv s) 1 \<Longrightarrow> r_waker q"
      "slots (recv s1) \<noteq> {} \<Longrightarrow> slots (recv s) = {} \<Longrightarrow> r_waker q \<or> bit (recv s) 1 \<and> \<not> r_waker (threads s t)"
      "r_active (threads s t) \<Longrightarrow> r_active q \<or> slots (recv s1) = {}"
    and w: "send_asleep q \<Longrightarrow> bit (send s1) 1 \<and> send_pending s1"
      "s_waker (threads s t) \<Longrightarrow> s_waker q \<or> bit (send s1) 1"
      "\<not> bit (send s1) 1 \<Longrightarrow> bit (send s) 1 \<Longrightarrow> s_waker q"
      "\<not> send_pending s1 \<Longrightarrow> send_pending s \<Longrightarrow> s_waker q \<or> \<not> bit (send s) 1 \<and> \<not> s_waker (threads s t)"
      "s_active (threads s t) \<Longrightarrow> s_active q \<or> send_pending s1"
  shows "sleep_inv (goto t q s1)"
proof -
  note d = sleep_invD [OF inv]
  have pend: "send_pending (goto t q s1) \<longleftrightarrow> send_pending s1" by (simp add: send_pending_def)
  have "(\<not> bit (recv s1) 1 \<or> r_waker q \<or> (\<exists>u. u \<noteq> t \<and> r_waker (threads s u))) \<and>
      (slots (recv s1) = {} \<or> r_active q \<or> (\<exists>u. u \<noteq> t \<and> r_active (threads s u)))"
    if v: "recv_asleep (threads s v)" for v
  proof
    show "\<not> bit (recv s1) 1 \<or> r_waker q \<or> (\<exists>u. u \<noteq> t \<and> r_waker (threads s u))"
      by (rule kept_by [where quiet = "\<not> bit (recv s) 1"]) (use d(1) [OF v] r(2,3) in blast)+
    show "slots (recv s1) = {} \<or> r_active q \<or> (\<exists>u. u \<noteq> t \<and> r_active (threads s u))"
      by (rule kept_by [where quiet = "slots (recv s) = {}"])
        (use d(1,2) [OF v] r(4,5) waker_active(1) in \<open>blast, blast, metis\<close>)
  qed
  moreover have "(bit (send s1) 1 \<or> s_waker q \<or> (\<exists>u. u \<noteq> t \<and> s_waker (threads s u))) \<and>
      (send_pending s1 \<or> s_active q \<or> (\<exists>u. u \<noteq> t \<and> s_active (threads s u)))"
    if v: "send_asleep (threads s v)" for v
  proof
    show "bit (send s1) 1 \<or> s_waker q \<or> (\<exists>u. u \<noteq> t \<and> s_waker (threads s u))"
      by (rule kept_by [where quiet = "bit (send s) 1"]) (use d(3) [OF v] w(2,3) in blast)+
    show "send_pending s1 \<or> s_active q \<or> (\<exists>u. u \<noteq> t \<and> s_active (threads s u))"
      by (rule kept_by [where quiet = "send_pending s"])
        (use d(3,4) [OF v] w(4,5) waker_active(2) in \<open>blast, blast, metis\<close>)
  qed
  ultimately show ?thesis
    unfolding sleep_inv_def pend goto_sel(1,2,8) th ex_upd using r(1) w(1) by blast
qed

text \<open>The wake calls.\<close>

lemma sleep_wake_recv:
  assumes inv: "sleep_inv s" and h: "handle_inv s" and k: "k \<noteq> 0"
    and W: "wake_allowed (n_threads s) (\<lambda>u. recv_asleep (threads s u)) k W"
    and t: "\<not> s_active (threads s t)" "\<not> recv_asleep q" "\<not> send_asleep q" "\<not> recv_asleep (threads s t)"
  shows "sleep_inv (goto t q (wake W s))"
proof -
  note d = sleep_invD [OF inv]
  let ?th = "threads (goto t q (wake W s))"
  have w: "recv_asleep (threads s u)" if "u \<in> set W" for u
    using wake_allowed_asleep [OF W that] by simp
  have r: "\<exists>u. r_waker (?th u)" if "recv_asleep (?th v)" for v
  proof -
    have v: "v \<noteq> t" "v \<notin> set W" "recv_asleep (threads s v)" using that t by (auto split: if_splits)
    then have "v < n_threads s" using handle_invD(8) [OF h, of v] by (cases "v < n_threads s") auto
    then obtain u where u: "u \<in> set W" using wake_allowed_none [of "n_threads s" _ k v] W k v(3)
      by (cases W) auto
    then have "u \<noteq> t" "r_waker (?th u)" using w t(4) by auto
    then show ?thesis by blast
  qed
  moreover have "send_asleep (threads s v)" if "send_asleep (?th v)" for v
    using that t(3) by (auto split: if_splits)
  moreover have "?th u = threads s u" if "s_active (threads s u)" for u
  proof -
    have "u \<noteq> t" "u \<notin> set W" using that t(1) w [of u] waker_not_asleep(3) by auto
    then show ?thesis by simp
  qed
  moreover have "send_pending (goto t q (wake W s)) = send_pending s" by (simp add: send_pending_def)
  ultimately show ?thesis
    using d(3,4) unfolding sleep_inv_def goto_sel(1,2) wake_sel(1,2) by (metis waker_active)
qed

lemma sleep_wake_send:
  assumes inv: "sleep_inv s" and h: "handle_inv s" and k: "k \<noteq> 0"
    and W: "wake_allowed (n_threads s) (\<lambda>u. send_asleep (threads s u)) k W"
    and t: "\<not> r_active (threads s t)" "\<not> recv_asleep q" "\<not> send_asleep q" "\<not> send_asleep (threads s t)"
  shows "sleep_inv (goto t q (wake W s))"
proof -
  note d = sleep_invD [OF inv]
  let ?th = "threads (goto t q (wake W s))"
  have w: "send_asleep (threads s u)" if "u \<in> set W" for u
    using wake_allowed_asleep [OF W that] by simp
  have r: "\<exists>u. s_waker (?th u)" if "send_asleep (?th v)" for v
  proof -
    have v: "v \<noteq> t" "v \<notin> set W" "send_asleep (threads s v)" using that t by (auto split: if_splits)
    then have "v < n_threads s" using handle_invD(8) [OF h, of v] by (cases "v < n_threads s") auto
    then obtain u where u: "u \<in> set W" using wake_allowed_none [of "n_threads s" _ k v] W k v(3)
      by (cases W) auto
    then have "u \<noteq> t" "s_waker (?th u)" using w t(4) by auto
    then show ?thesis by blast
  qed
  moreover have "recv_asleep (threads s v)" if "recv_asleep (?th v)" for v
    using that t(2) by (auto split: if_splits)
  moreover have "?th u = threads s u" if "r_active (threads s u)" for u
  proof -
    have "u \<noteq> t" "u \<notin> set W" using that t(1) w [of u] waker_not_asleep(4) by auto
    then show ?thesis by simp
  qed
  ultimately show ?thesis
    using d(1,2) unfolding sleep_inv_def goto_sel(1,2) wake_sel(1,2) by (metis waker_active)
qed


lemma asleep_entry [simp]: "\<not> recv_asleep (try_send_entry c d)" "\<not> send_asleep (try_send_entry c d)"
  by (simp_all add: try_send_entry_def Let_def)

lemma entry_active: "contents d \<noteq> [] \<Longrightarrow> fresh d \<Longrightarrow> s_active (try_send_entry c d)"
  by (simp add: try_send_entry_def Let_def fresh_items)

lemma spin_asleep:
  "send_spin_next c n d w q \<Longrightarrow> \<not> recv_asleep q \<and> \<not> send_asleep q"
  "recv_spin_next c' n w q \<Longrightarrow> \<not> recv_asleep q \<and> \<not> send_asleep q"
  unfolding send_spin_next_def recv_spin_next_def by (elim disjE conjE; simp)+

lemma spin_active:
  "send_spin_next c n d w q \<Longrightarrow> contents d \<noteq> [] \<Longrightarrow> fresh d \<Longrightarrow> s_active q \<or> bit w 0"
  "recv_spin_next c' n w q \<Longrightarrow> r_active q \<or> \<not> bit w 0 \<and> slots w = {}"
  unfolding send_spin_next_def recv_spin_next_def by (elim disjE conjE; simp add: entry_active)+

lemma ready_waker [simp]:
  "ready p \<Longrightarrow> \<not> r_active p" "ready p \<Longrightarrow> \<not> s_active p" "ready p \<Longrightarrow> \<not> r_waker p" "ready p \<Longrightarrow> \<not> s_waker p"
  "ready p \<Longrightarrow> \<not> recv_asleep p" "ready p \<Longrightarrow> \<not> send_asleep p"
  by (cases p; simp)+

lemma sleep_quiet:
  assumes "sleep_inv s" "threads s1 = threads s" "send s1 = send s" "recv s1 = recv s"
    and "\<not> recv_asleep q" "\<not> send_asleep q" "r_waker (threads s t) \<Longrightarrow> r_waker q"
    "r_active (threads s t) \<Longrightarrow> r_active q" "s_waker (threads s t) \<Longrightarrow> s_waker q"
    "s_active (threads s t) \<Longrightarrow> s_active q"
  shows "sleep_inv (goto t q s1)"
  by (rule sleep_goto [OF assms(1,2)]) (use assms in \<open>auto simp: send_pending_def\<close>)

lemma sleep_inv_call_move:
  assumes "call_move t s s'" "ready (threads s t)" and c: "sleep_inv s"
  shows "sleep_inv s'"
proof -
  note q = sleep_quiet [OF c, where t = t]
  from assms(1) show ?thesis
  proof cases
    case (snd h bias d blocking) then show ?thesis unfolding snd(3) using assms(2) by (intro q) simp_all
  next
    case (rcv h blocking) then show ?thesis unfolding rcv(2) using assms(2) by (intro q) simp_all
  next
    case (sclone h b h') then show ?thesis unfolding sclone(4) using assms(2) by (intro q) simp_all
  next
    case (sdrop h b)
    then show ?thesis unfolding sdrop(3) using assms(2) by (intro q) (simp_all split: if_splits)
  next
    case (rclone h h') then show ?thesis unfolding rclone(4) using assms(2) by (intro q) simp_all
  next
    case (rdrop h)
    then show ?thesis unfolding rdrop(3) using assms(2) by (intro q) (simp_all split: if_splits)
  next
    case (inner b v dropped) then show ?thesis unfolding inner(3) using assms(2) by (intro q) simp_all
  qed
qed

lemma sleep_inv_send_move:
  assumes "send_move x86_64 t s s'" and inv: "channel_inv s" and c: "sleep_inv s"
  shows "sleep_inv s'"
proof -
  have p: "wf_pc (threads s t)" using channel_invD(4) [OF inv] .
  note quiet = sleep_quiet [OF c, where t = t]
  note move = sleep_goto [OF c, where t = t]
  from assms(1) show ?thesis
  proof cases
    case (reserve ca items m d q)
    have w: "status_free m" "slots m \<noteq> {}" using p reserve(1) by auto
    have q: "\<not> recv_asleep q \<and> \<not> send_asleep q"
      using reserve(3) by (elim disjE exE conjE) (simp_all split: if_splits)
    show ?thesis unfolding reserve(2) using reserve(1) q w bits_status_free [OF w(1)]
      by (intro move) (simp_all add: send_pending_def slots_or)
  next
    case (fence ca r d) then show ?thesis unfolding fence(2) by (intro quiet) simp_all
  next
    case (wr ca r rest d i rest' x d') then show ?thesis unfolding wr(4) by (intro quiet) simp_all
  next
    case (wrdone ca r rest d) then show ?thesis unfolding wrdone(3) by (intro quiet) simp_all
  next
    case (commit ca r d q)
    then show ?thesis unfolding commit(2)
      by (intro move) (simp_all add: send_pending_def bits_commit_recv split: if_splits)
  qed
qed

lemma sleep_inv_recv_move:
  assumes "recv_move x86_64 t s s'" and c: "sleep_inv s"
  shows "sleep_inv s'"
proof -
  note quiet = sleep_quiet [OF c, where t = t]
  note move = sleep_goto [OF c, where t = t]
  from assms(1) show ?thesis
  proof cases
    case (claim ca q)
    then show ?thesis unfolding claim(2) by (intro move) (simp_all add: send_pending_def split: if_splits)
  next
    case (rd ca cl rest vs i rest' x) then show ?thesis unfolding rd(4) by (intro quiet) simp_all
  next
    case (rddone ca cl rest vs) then show ?thesis unfolding rddone(3) by (intro quiet) simp_all
  next
    case (rfence ca cl vs) then show ?thesis unfolding rfence(2) by (intro quiet) simp_all
  next
    case (release ca cl vs q)
    then show ?thesis unfolding release(2)
      by (intro move) (simp_all add: send_pending_def bits_release_send split: if_splits)
  qed
qed

lemma sleep_inv_death_move:
  assumes "death_move t s s'" and inv: "channel_inv s" and c: "sleep_inv s"
  shows "sleep_inv s'"
proof -
  note h = channel_invD(1) [OF inv]
  note move = sleep_goto [OF c, where t = t]
  from assms(1) show ?thesis
  proof cases
    case (sdead q)
    then show ?thesis unfolding sdead(2) by (intro move) (simp_all add: send_pending_def split: if_splits)
  next
    case (sdwake W)
    then show ?thesis unfolding sdwake(3) by (intro sleep_wake_recv [OF c h u32_max_nonzero]) simp_all
  next
    case (rdead q)
    then show ?thesis unfolding rdead(2) by (intro move) (simp_all add: send_pending_def split: if_splits)
  next
    case (rdwake W)
    then show ?thesis unfolding rdwake(3) by (intro sleep_wake_send [OF c h u32_max_nonzero]) simp_all
  qed
qed

text \<open>The spin loops and the way to sleep.\<close>

lemma sleep_inv_send_spin:
  assumes c: "sleep_inv s" and p: "wf_pc (SendSpin ca n d)" and t: "threads s t = SendSpin ca n d"
    and w: "send_spin_next ca n d w q" and s1: "threads s1 = threads s" "recv s1 = recv s" "slots (send s1) = slots (send s)"
      "bit (send s1) 0 = bit (send s) 0" "bit (send s) 1 \<Longrightarrow> bit (send s1) 1" "bit w 0 \<Longrightarrow> bit (send s) 0"
  shows "sleep_inv (goto t q s1)"
proof -
  have "fresh d" "contents d \<noteq> []" using p by auto
  then have "s_active q \<or> bit (send s) 0" using spin_active(1) [OF w] s1(6) by blast
  then show ?thesis using spin_asleep(1) [OF w] t s1(2-5)
    by (intro sleep_goto [OF c s1(1)]) (auto simp: send_pending_def)
qed

lemma sleep_inv_recv_spin:
  assumes c: "sleep_inv s" and t: "threads s t = RecvSpin ca n"
    and w: "recv_spin_next ca n w q" and s1: "threads s1 = threads s" "send s1 = send s" "slots (recv s1) = slots (recv s)"
      "\<not> bit (recv s) 1 \<Longrightarrow> \<not> bit (recv s1) 1" "\<not> bit w 0 \<Longrightarrow> slots w = {} \<Longrightarrow> slots (recv s) = {}"
  shows "sleep_inv (goto t q s1)"
proof -
  have "r_active q \<or> slots (recv s) = {}" using spin_active(2) [OF w] s1(5) by blast
  then show ?thesis using spin_asleep(2) [OF w] t s1(2-4)
    by (intro sleep_goto [OF c s1(1)]) (auto simp: send_pending_def)
qed

lemma sleep_inv_sleep_move:
  assumes "sleep_move t s s'" and inv: "channel_inv s" and c: "sleep_inv s"
  shows "sleep_inv s'"
proof -
  have p: "wf_pc (threads s t)" using channel_invD(4) [OF inv] .
  note h = channel_invD(1) [OF inv] and death = death_invD [OF channel_invD(2) [OF inv]]
  note quiet = sleep_quiet [OF c, where t = t]
  note move = sleep_goto [OF c, where t = t]
  from assms(1) show ?thesis
  proof cases
    case (sspin ca n d w q)
    then show ?thesis unfolding sspin(5) using p by (intro sleep_inv_send_spin [OF c _ sspin(1,4)]) simp_all
  next
    case (sload ca n d w q)
    then show ?thesis unfolding sload(5) using p death(9) [OF sload(3)]
      by (intro sleep_inv_send_spin [OF c _ sload(1,4)]) simp_all
  next
    case (ssleep ca e d q)
    have e: "slots e = {..<30}" "bit e 1" using p ssleep(1) by simp_all
    have "(0::nat) \<in> {..<30}" by simp
    then have "slots e \<noteq> {}" using e(1) by blast
    then have "send_asleep q \<Longrightarrow> bit (send s) 1 \<and> send_pending s"
      using ssleep(3) e(2) by (simp add: send_pending_def split: if_splits)
    moreover have "\<not> recv_asleep q" "send_asleep q \<or> s_active q" using ssleep(3) by simp_all
    ultimately show ?thesis unfolding ssleep(2) using ssleep(1)
      by (intro move) (simp_all, blast+)
  next
    case (sintr ca d) then show ?thesis unfolding sintr(2) by (intro quiet) simp_all
  next
    case (storch ca d)
    have "fresh d" "contents d \<noteq> []" using p storch(1) by auto
    then show ?thesis unfolding storch(2) using storch(1) entry_active [of d ca]
      by (intro move) (simp_all add: send_pending_def)
  next
    case (twake ca d W)
    then show ?thesis unfolding twake(3) by (intro sleep_wake_recv [OF c h one_neq_zero]) simp_all
  next
    case (rspin ca n w q)
    then show ?thesis unfolding rspin(5) by (intro sleep_inv_recv_spin [OF c rspin(1,4)]) simp_all
  next
    case (rload ca n w q)
    then show ?thesis unfolding rload(5) using death(8) [OF rload(3)]
      by (intro sleep_inv_recv_spin [OF c rload(1,4)]) simp_all
  next
    case (rsleep ca e q)
    have e: "slots e = {}" "\<not> bit e 1" using p rsleep(1) by simp_all
    then have "recv_asleep q \<Longrightarrow> \<not> bit (recv s) 1 \<and> slots (recv s) = {}"
      using rsleep(3) by (simp split: if_splits)
    moreover have "\<not> send_asleep q" "recv_asleep q \<or> r_active q" using rsleep(3) by simp_all
    ultimately show ?thesis unfolding rsleep(2) using rsleep(1)
      by (intro move) (simp_all, blast+)
  next
    case (rintr ca) then show ?thesis unfolding rintr(2) by (intro quiet) simp_all
  next
    case (rtorch ca)
    then show ?thesis unfolding rtorch(2) by (intro move) (simp_all add: send_pending_def)
  next
    case (cwake ca vs W)
    then show ?thesis unfolding cwake(3) by (intro sleep_wake_send [OF c h one_neq_zero]) simp_all
  qed
qed

lemma sleep_inv_step:
  assumes "step x86_64 t a s = Next s'" and inv: "channel_inv s" and c: "sleep_inv s"
  shows "sleep_inv s'"
  using assms(1)
  by (cases rule: step_moves) (use inv c sleep_inv_call_move sleep_inv_send_move sleep_inv_recv_move
      sleep_inv_sleep_move sleep_inv_death_move in blast)+

lemma reachable_sleep: "reachable x86_64 s \<Longrightarrow> sleep_inv s"
proof (induction rule: reachable.induct)
  case (reachable_init n)
  show ?case by (simp add: sleep_inv_def mpmc_def)
qed (use sleep_inv_step reachable_inv in blast)

end
