(* ===== verification/Mpmc_Disconnect.thy ===== *)
theory Mpmc_Disconnect
  imports Mpmc_Sleep
begin

text \<open>
  Disconnection and sleepers.  With one consumer, a receiver that sleeps when the last sender goes
  is always woken, and likewise for one producer; with several, the last part shows how a sleeper
  can be left behind for ever.
\<close>

section \<open>Sleepers and disconnection\<close>

definition quiescent :: "'a sys \<Rightarrow> bool" where
  "quiescent s \<longleftrightarrow> (\<forall>u\<in>set [0..<n_threads s].
     ready (threads s u) \<or> recv_asleep (threads s u) \<or> send_asleep (threads s u))"

text \<open>Runs in which the calls on one side never overlap: one consumer, or one producer.\<close>

definition one_receiver :: "'a sys \<Rightarrow> bool" where
  "one_receiver s \<longleftrightarrow> (\<forall>u\<in>set [0..<n_threads s]. \<forall>v\<in>set [0..<n_threads s].
     rcall_of (threads s u) \<noteq> None \<longrightarrow> rcall_of (threads s v) \<noteq> None \<longrightarrow> u = v)"

definition one_sender :: "'a sys \<Rightarrow> bool" where
  "one_sender s \<longleftrightarrow> (\<forall>u\<in>set [0..<n_threads s]. \<forall>v\<in>set [0..<n_threads s].
     scall_of (threads s u) \<noteq> None \<longrightarrow> scall_of (threads s v) \<noteq> None \<longrightarrow> u = v)"

inductive reachable_via :: "('a sys \<Rightarrow> bool) \<Rightarrow> bool \<Rightarrow> 'a sys \<Rightarrow> bool" for P x86_64 where
  via_init: "P (mpmc n) \<Longrightarrow> reachable_via P x86_64 (mpmc n)"
| via_step: "reachable_via P x86_64 s \<Longrightarrow> step x86_64 t a s = Next s' \<Longrightarrow> P s' \<Longrightarrow>
    reachable_via P x86_64 s'"

lemma via_reachable: "reachable_via P x86_64 s \<Longrightarrow> reachable x86_64 s"
  by (induction rule: reachable_via.induct) (auto intro: reachable_init reachable_step)

lemma via_P: "reachable_via P x86_64 s \<Longrightarrow> P s"
  by (auto elim: reachable_via.cases)

text \<open>Running a schedule under such a restriction.\<close>

fun exec_via :: "('a sys \<Rightarrow> bool) \<Rightarrow> bool \<Rightarrow> (nat \<times> 'a action) list \<Rightarrow> 'a sys \<Rightarrow> 'a outcome" where
  "exec_via P x86_64 [] s = Next s"
| "exec_via P x86_64 ((t, a) # as) s =
     (case step x86_64 t a s of
        Next s' \<Rightarrow> if P s' then exec_via P x86_64 as s' else Disabled
      | r \<Rightarrow> r)"

lemma via_exec:
  assumes "reachable_via P x86_64 s" "exec_via P x86_64 as s = Next s'"
  shows "reachable_via P x86_64 s'"
  using assms
proof (induction as arbitrary: s)
  case (Cons p as)
  obtain t a where p: "p = (t, a)" by (cases p)
  with Cons.prems(2) obtain s1 where s1: "step x86_64 t a s = Next s1" "P s1" "exec_via P x86_64 as s1 = Next s'"
    by (auto split: outcome.splits if_splits)
  have "reachable_via P x86_64 s1" using Cons.prems(1) s1(1,2) by (rule via_step)
  then show ?case using s1(3) by (rule Cons.IH)
qed simp

lemma one_receiverD:
  assumes "one_receiver s" "handle_inv s" "rcall_of (threads s u) \<noteq> None" "rcall_of (threads s v) \<noteq> None"
  shows "u = v"
proof -
  have "w < n_threads s" if "rcall_of (threads s w) \<noteq> None" for w
    using handle_invD(8) [OF assms(2), of w] that by (cases "w < n_threads s") auto
  then show ?thesis using assms by (auto simp: one_receiver_def)
qed

lemma one_senderD:
  assumes "one_sender s" "handle_inv s" "scall_of (threads s u) \<noteq> None" "scall_of (threads s v) \<noteq> None"
  shows "u = v"
proof -
  have "w < n_threads s" if "scall_of (threads s w) \<noteq> None" for w
    using handle_invD(8) [OF assms(2), of w] that by (cases "w < n_threads s") auto
  then show ?thesis using assms by (auto simp: one_sender_def)
qed

lemma r_waker_torch: "r_waker p \<Longrightarrow> p = SDropWake \<or> scall_of p \<noteq> None \<or> rcall_of p \<noteq> None"
  by (cases p) simp_all

lemma s_waker_torch: "s_waker p \<Longrightarrow> p = RDropWake \<or> scall_of p \<noteq> None \<or> rcall_of p \<noteq> None"
  by (cases p) simp_all

lemma waker_not_asleep2: "r_waker p \<Longrightarrow> \<not> recv_asleep p" "s_waker p \<Longrightarrow> \<not> send_asleep p"
  by (cases p; simp)+

text \<open>What a step leaves asleep, dying or disconnected, read off the moves.\<close>

lemma call_asleep:
  assumes "call_move t s s'"
  shows "recv_asleep (threads s' u) \<Longrightarrow> recv_asleep (threads s u)"
    "send_asleep (threads s' u) \<Longrightarrow> send_asleep (threads s u)"
    "recv s' = recv s" "send s' = send s" "n_threads s' = n_threads s" "u \<noteq> t \<Longrightarrow> threads s' u = threads s u"
  using assms by (cases; auto split: if_splits)+

lemma reserve_not_asleep:
  assumes "send_move x86_64 t s s'"
  shows "\<not> recv_asleep (threads s' t)" "\<not> send_asleep (threads s' t)" "u \<noteq> t \<Longrightarrow> threads s' u = threads s u"
proof -
  have "\<not> recv_asleep (threads s' t) \<and> \<not> send_asleep (threads s' t) \<and> (u \<noteq> t \<longrightarrow> threads s' u = threads s u)"
    using assms
  proof cases
    case (reserve ca items m d q)
    then have "\<not> recv_asleep q \<and> \<not> send_asleep q" by (elim disjE exE conjE) (simp_all split: if_splits)
    then show ?thesis using reserve(2) by simp
  qed simp_all
  then show "\<not> recv_asleep (threads s' t)" "\<not> send_asleep (threads s' t)" "u \<noteq> t \<Longrightarrow> threads s' u = threads s u"
    by simp_all
qed

lemma recv_move_not_asleep:
  assumes "recv_move x86_64 t s s'"
  shows "\<not> recv_asleep (threads s' t)" "\<not> send_asleep (threads s' t)" "u \<noteq> t \<Longrightarrow> threads s' u = threads s u"
  using assms by (cases; simp)+

lemma death_move_not_asleep:
  assumes "death_move t s s'"
  shows "recv_asleep (threads s' u) \<Longrightarrow> recv_asleep (threads s u)"
    "send_asleep (threads s' u) \<Longrightarrow> send_asleep (threads s u)"
  using assms by (cases; auto split: if_splits)+

lemma sleep_move_asleep:
  assumes "sleep_move t s s'"
  shows "recv_asleep (threads s' u) \<Longrightarrow>
      recv_asleep (threads s u) \<or> (\<exists>c e. threads s u = RecvSleep c e \<and> u = t \<and> recv s' = e)"
    "send_asleep (threads s' u) \<Longrightarrow>
      send_asleep (threads s u) \<or> (\<exists>c e d. threads s u = SendSleep c e d \<and> u = t \<and> send s' = e)"
proof -
  have "(recv_asleep (threads s' u) \<longrightarrow>
      recv_asleep (threads s u) \<or> (\<exists>c e. threads s u = RecvSleep c e \<and> u = t \<and> recv s' = e)) \<and>
    (send_asleep (threads s' u) \<longrightarrow>
      send_asleep (threads s u) \<or> (\<exists>c e d. threads s u = SendSleep c e d \<and> u = t \<and> send s' = e))"
    using assms
  proof cases
    case (sspin c n d w q) then show ?thesis using spin_asleep(1) [OF sspin(4)] by simp
  next
    case (sload c n d w q) then show ?thesis using spin_asleep(1) [OF sload(4)] by simp
  next
    case (rspin c n w q) then show ?thesis using spin_asleep(2) [OF rspin(4)] by simp
  next
    case (rload c n w q) then show ?thesis using spin_asleep(2) [OF rload(4)] by simp
  qed auto
  then show "recv_asleep (threads s' u) \<Longrightarrow>
      recv_asleep (threads s u) \<or> (\<exists>c e. threads s u = RecvSleep c e \<and> u = t \<and> recv s' = e)"
    "send_asleep (threads s' u) \<Longrightarrow>
      send_asleep (threads s u) \<or> (\<exists>c e d. threads s u = SendSleep c e d \<and> u = t \<and> send s' = e)"
    by blast+
qed

text \<open>Nobody falls asleep but by going to sleep on the current word.\<close>

lemma step_keeps_asleep:
  assumes "step x86_64 t a s = Next s'"
  shows "recv_asleep (threads s' u) \<Longrightarrow>
      recv_asleep (threads s u) \<or> (\<exists>c e. threads s u = RecvSleep c e \<and> u = t \<and> recv s' = e)"
    "send_asleep (threads s' u) \<Longrightarrow>
      send_asleep (threads s u) \<or> (\<exists>c e d. threads s u = SendSleep c e d \<and> u = t \<and> send s' = e)"
proof -
  have "(recv_asleep (threads s' u) \<longrightarrow>
      recv_asleep (threads s u) \<or> (\<exists>c e. threads s u = RecvSleep c e \<and> u = t \<and> recv s' = e)) \<and>
    (send_asleep (threads s' u) \<longrightarrow>
      send_asleep (threads s u) \<or> (\<exists>c e d. threads s u = SendSleep c e d \<and> u = t \<and> send s' = e))"
    using assms
  proof (cases rule: step_moves)
    case call then show ?thesis using call_asleep(1,2) by blast
  next
    case send then show ?thesis using reserve_not_asleep [OF send] by (cases "u = t") auto
  next
    case recv then show ?thesis using recv_move_not_asleep [OF recv] by (cases "u = t") auto
  next
    case sleep then show ?thesis using sleep_move_asleep by blast
  next
    case death then show ?thesis using death_move_not_asleep by blast
  qed
  then show "recv_asleep (threads s' u) \<Longrightarrow>
      recv_asleep (threads s u) \<or> (\<exists>c e. threads s u = RecvSleep c e \<and> u = t \<and> recv s' = e)"
    "send_asleep (threads s' u) \<Longrightarrow>
      send_asleep (threads s u) \<or> (\<exists>c e d. threads s u = SendSleep c e d \<and> u = t \<and> send s' = e)"
    by blast+
qed

lemma step_keeps_drop_wake:
  assumes "step x86_64 t a s = Next s'" "threads s v = SDropWake \<or> threads s v = RDropWake" "v \<noteq> t"
  shows "threads s' v = threads s v"
  using assms(1)
proof (cases rule: step_call_or_runs)
  case call
  then show ?thesis using call_asleep(6) assms(3) by blast
next
  case runs
  then show ?thesis using assms(2,3) by (auto simp: runs_def)
qed

lemma step_n_threads:
  assumes "step x86_64 t a s = Next s'"
  shows "n_threads s' = n_threads s"
  using assms
proof (cases rule: step_call_or_runs)
  case call
  then show ?thesis using call_asleep(5) by blast
qed (auto simp: runs_def)

text \<open>The steps that change the dead bit of a word.\<close>

lemma step_recv_dead:
  assumes "step x86_64 t a s = Next s'" "\<not> bit (recv s') 0" "bit (recv s) 0"
  shows "threads s t = SDropDead" "threads s' t = (if bit (recv s) 1 then Idle else SDropWake)"
proof -
  have "threads s t = SDropDead \<and> threads s' t = (if bit (recv s) 1 then Idle else SDropWake)"
    using assms(1)
  proof (cases rule: step_moves)
    case call then show ?thesis using call_asleep(3) [OF call(2)] assms(2,3) by simp
  next
    case send then show ?thesis by cases (use assms(2,3) in \<open>simp_all add: bits_commit_recv\<close>)
  next
    case recv then show ?thesis by cases (use assms(2,3) in simp_all)
  next
    case sleep then show ?thesis by cases (use assms(2,3) in simp_all)
  next
    case death then show ?thesis by cases (use assms(2,3) in simp_all)
  qed
  then show "threads s t = SDropDead" "threads s' t = (if bit (recv s) 1 then Idle else SDropWake)"
    by blast+
qed

lemma step_send_dead:
  assumes "step x86_64 t a s = Next s'" "bit (send s') 0" "\<not> bit (send s) 0" "wf_pc (threads s t)"
  shows "threads s t = RDropDead" "threads s' t = (if bit (send s) 1 then RDropWake else Idle)"
proof -
  have "threads s t = RDropDead \<and> threads s' t = (if bit (send s) 1 then RDropWake else Idle)"
    using assms(1)
  proof (cases rule: step_moves)
    case call then show ?thesis using call_asleep(4) [OF call(2)] assms(2,3) by simp
  next
    case send
    then show ?thesis
    proof cases
      case (reserve c items m d q)
      have "status_free m" using reserve(1) assms(4) by simp
      then show ?thesis using assms(2,3) reserve(2) by (simp add: bits_status_free)
    qed (use assms(2,3) in simp_all)
  next
    case recv then show ?thesis by cases (use assms(2,3) in \<open>simp_all add: bits_release_send\<close>)
  next
    case sleep then show ?thesis by cases (use assms(2,3) in simp_all)
  next
    case death then show ?thesis by cases (use assms(2,3) in simp_all)
  qed
  then show "threads s t = RDropDead" "threads s' t = (if bit (send s) 1 then RDropWake else Idle)"
    by blast+
qed

text \<open>The wake call of a drop wakes everybody: whoever still sleeps on the word was not there.\<close>

lemma drop_wake_all:
  assumes st: "step x86_64 t a s = Next s'" and v: "threads s t = SDropWake" and h: "handle_inv s" and one: "one_receiver s"
  shows "recv_asleep (threads s u) \<Longrightarrow> \<not> recv_asleep (threads s' u)"
proof
  assume a: "recv_asleep (threads s u)" and u: "recv_asleep (threads s' u)"
  have ru: "rcall_of (threads s u) \<noteq> None" using a by (rule asleep_call)
  have lt: "u < n_threads s" using handle_invD(8) [OF h, of u] a by (cases "u < n_threads s") auto
  have "death_move t s s'"
    using st by (cases rule: step_moves) (use v in \<open>auto elim: send_move.cases recv_move.cases sleep_move.cases\<close>)
  then show False
  proof cases
    case (sdwake W)
    have ut: "u \<noteq> t" using a v by auto
    then have nw: "u \<notin> set W" using u sdwake(3) a by auto
    have "w = u" if "w \<in> set W" for w
      using wake_allowed_asleep [OF sdwake(2) that] one_receiverD [OF one h, of w u] ru asleep_call(1) by blast
    then have "W = []" using nw by (cases W) auto
    then show ?thesis
      using wake_allowed_none [of "n_threads s" "\<lambda>u. recv_asleep (threads s u)" u32_max u] sdwake(2) a lt
      by (simp add: u32_max_def)
  qed (use v in simp_all)
qed

lemma drop_wake_all_senders:
  assumes st: "step x86_64 t a s = Next s'" and v: "threads s t = RDropWake" and h: "handle_inv s" and one: "one_sender s"
  shows "send_asleep (threads s u) \<Longrightarrow> \<not> send_asleep (threads s' u)"
proof
  assume a: "send_asleep (threads s u)" and u: "send_asleep (threads s' u)"
  have ru: "scall_of (threads s u) \<noteq> None" using a by (rule asleep_call)
  have lt: "u < n_threads s" using handle_invD(8) [OF h, of u] a by (cases "u < n_threads s") auto
  have "death_move t s s'"
    using st by (cases rule: step_moves) (use v in \<open>auto elim: send_move.cases recv_move.cases sleep_move.cases\<close>)
  then show False
  proof cases
    case (rdwake W)
    have ut: "u \<noteq> t" using a v by auto
    then have nw: "u \<notin> set W" using u rdwake(3) a by auto
    have "w = u" if "w \<in> set W" for w
      using wake_allowed_asleep [OF rdwake(2) that] one_senderD [OF one h, of w u] ru asleep_call(2) by blast
    then have "W = []" using nw by (cases W) auto
    then show ?thesis
      using wake_allowed_none [of "n_threads s" "\<lambda>u. send_asleep (threads s u)" u32_max u] rdwake(2) a lt
      by (simp add: u32_max_def)
  qed (use v in simp_all)
qed

section \<open>One consumer or one producer: every disconnection wakes\<close>

definition dead_woken :: "'a sys \<Rightarrow> bool" where
  "dead_woken s \<longleftrightarrow> (\<forall>u. recv_asleep (threads s u) \<longrightarrow> \<not> bit (recv s) 0 \<longrightarrow> (\<exists>v. threads s v = SDropWake))"

definition sdead_woken :: "'a sys \<Rightarrow> bool" where
  "sdead_woken s \<longleftrightarrow> (\<forall>u. send_asleep (threads s u) \<longrightarrow> bit (send s) 0 \<longrightarrow> (\<exists>v. threads s v = RDropWake))"

lemma dead_woken_step:
  assumes st: "step x86_64 t a s = Next s'" and c: "dead_woken s" and one: "one_receiver s"
    and inv: "channel_inv s" and sl: "sleep_inv s"
  shows "dead_woken s'"
  unfolding dead_woken_def
proof (intro allI impI)
  fix u assume u: "recv_asleep (threads s' u)" and dead: "\<not> bit (recv s') 0"
  note h = channel_invD(1) [OF inv] and death = death_invD [OF channel_invD(2) [OF inv]]
  have "\<not> bit (recv s') 0 \<Longrightarrow> threads s u \<noteq> RecvSleep ca (recv s')" for ca
    using channel_invD(4) [OF inv, of u] by auto
  then have a: "recv_asleep (threads s u)" using step_keeps_asleep(1) [OF st u] dead by blast
  show "\<exists>v. threads s' v = SDropWake"
  proof (cases "bit (recv s) 0")
    case False
    then obtain v where v: "threads s v = SDropWake" using c a unfolding dead_woken_def by blast
    then show ?thesis using drop_wake_all [OF st _ h one a] u step_keeps_drop_wake [OF st, of v] by (cases "v = t") auto
  next
    case True
    note sd = step_recv_dead [OF st dead True]
    show ?thesis
    proof (cases "bit (recv s) 1")
      case b: True
      obtain w where w: "r_waker (threads s w)" using sleep_invD(1) [OF sl a b] by blast
      have "scall_of (threads s w) = None"
        using scall_senders [OF h, of w] death(2) [of t] sd(1) by (cases "scall_of (threads s w)") auto
      moreover have "rcall_of (threads s w) = None"
        using one_receiverD [OF one h, of w u] asleep_call(1) [OF a] w a waker_not_asleep2(1) by blast
      ultimately have w': "threads s w = SDropWake" using r_waker_torch [OF w] by blast
      moreover have "w \<noteq> t" using calculation sd(1) by auto
      ultimately show ?thesis using step_keeps_drop_wake [OF st, of w] by auto
    qed (use sd(2) in auto)
  qed
qed

lemma sdead_woken_step:
  assumes st: "step x86_64 t a s = Next s'" and c: "sdead_woken s" and one: "one_sender s"
    and inv: "channel_inv s" and sl: "sleep_inv s"
  shows "sdead_woken s'"
  unfolding sdead_woken_def
proof (intro allI impI)
  fix u assume u: "send_asleep (threads s' u)" and dead: "bit (send s') 0"
  note h = channel_invD(1) [OF inv] and death = death_invD [OF channel_invD(2) [OF inv]]
  have "bit (send s') 0 \<Longrightarrow> threads s u \<noteq> SendSleep ca (send s') d" for ca d
    using channel_invD(4) [OF inv, of u] by auto
  then have a: "send_asleep (threads s u)" using step_keeps_asleep(2) [OF st u] dead by blast
  show "\<exists>v. threads s' v = RDropWake"
  proof (cases "bit (send s) 0")
    case True
    then obtain v where v: "threads s v = RDropWake" using c a unfolding sdead_woken_def by blast
    then show ?thesis using drop_wake_all_senders [OF st _ h one a] u step_keeps_drop_wake [OF st, of v]
      by (cases "v = t") auto
  next
    case False
    note sd = step_send_dead [OF st dead False channel_invD(4) [OF inv]]
    show ?thesis
    proof (cases "bit (send s) 1")
      case b: False
      obtain w where w: "s_waker (threads s w)" using sleep_invD(3) [OF sl a b] by blast
      have "rcall_of (threads s w) = None"
        using rcall_receivers [OF h, of w] death(5) [of t] sd(1) by (cases "rcall_of (threads s w)") auto
      moreover have "scall_of (threads s w) = None"
        using one_senderD [OF one h, of w u] asleep_call(2) [OF a] w a waker_not_asleep2(2) by blast
      ultimately have w': "threads s w = RDropWake" using s_waker_torch [OF w] by blast
      moreover have "w \<noteq> t" using calculation sd(1) by auto
      ultimately show ?thesis using step_keeps_drop_wake [OF st, of w] by auto
    qed (use sd(2) in auto)
  qed
qed

lemma via_one_receiver: "reachable_via one_receiver x86_64 s \<Longrightarrow> dead_woken s"
proof (induction rule: reachable_via.induct)
  case (via_init n)
  show ?case by (simp add: dead_woken_def mpmc_def)
next
  case (via_step s t a s')
  have r: "reachable x86_64 s" using via_step.hyps(1) by (rule via_reachable)
  show ?case
    using dead_woken_step [OF via_step.hyps(2) via_step.IH via_P [OF via_step.hyps(1)]]
      reachable_inv [OF r] reachable_sleep [OF r] by blast
qed

lemma via_one_sender: "reachable_via one_sender x86_64 s \<Longrightarrow> sdead_woken s"
proof (induction rule: reachable_via.induct)
  case (via_init n)
  show ?case by (simp add: sdead_woken_def mpmc_def)
next
  case (via_step s t a s')
  have r: "reachable x86_64 s" using via_step.hyps(1) by (rule via_reachable)
  show ?case
    using sdead_woken_step [OF via_step.hyps(2) via_step.IH via_P [OF via_step.hyps(1)]]
      reachable_inv [OF r] reachable_sleep [OF r] by blast
qed

section \<open>Several consumers: a sleeper can be left behind\<close>

text \<open>A receiver that sleeps after the disconnection has been announced, when no drop is going
  to wake anybody any more: no step of another thread ever wakes it.\<close>

definition abandoned :: "nat \<Rightarrow> 'a sys \<Rightarrow> bool" where
  "abandoned u s \<longleftrightarrow> recv_asleep (threads s u) \<and> \<not> bit (recv s) 0 \<and>
     (\<forall>v\<in>set [0..<n_threads s]. \<not> sdying (threads s v))"

lemma wake_senders_asleep:
  assumes "wake_allowed (n_threads s) (\<lambda>u. send_asleep (threads s u)) k W" "recv_asleep (threads s u)"
  shows "u \<notin> set W"
proof
  assume "u \<in> set W"
  from wake_allowed_asleep [OF assms(1) this] show False using assms(2) by (cases "threads s u") auto
qed

lemma step_asleep_other:
  assumes st: "step x86_64 t a s = Next s'" and u: "recv_asleep (threads s u)" "t \<noteq> u"
    and t: "scall_of (threads s t) = None" "\<not> sdying (threads s t)" and e: "senders s = Map.empty"
  shows "recv_asleep (threads s' u) \<and> \<not> sdying (threads s' t) \<and> (\<not> bit (recv s) 0 \<longrightarrow> \<not> bit (recv s') 0) \<and>
      (v \<noteq> t \<longrightarrow> sdying (threads s' v) = sdying (threads s v))"
  using st
proof (cases rule: step_moves)
  case call
  from call(2) show ?thesis by cases (use u e in simp_all)
next
  case send
  then show ?thesis by cases (use t in simp_all)
next
  case recv
  then show ?thesis by cases (use u in simp_all)
next
  case sleep
  then show ?thesis
  proof cases
    case (cwake c vs W)
    show ?thesis using wake_senders_asleep [OF cwake(2) u(1)] u unfolding cwake(3) by simp
  qed (use u t in simp_all)
next
  case death
  then show ?thesis
  proof cases
    case (rdwake W)
    show ?thesis using wake_senders_asleep [OF rdwake(2) u(1)] u unfolding rdwake(3) by simp
  qed (use u t in simp_all)
qed

lemma abandoned_step:
  assumes st: "step x86_64 t a s = Next s'" and inv: "channel_inv s" and u: "abandoned u s" "t \<noteq> u"
  shows "abandoned u s'"
proof -
  note h = channel_invD(1) [OF inv] and death = death_invD [OF channel_invD(2) [OF inv]]
  have a: "recv_asleep (threads s u)" "\<not> bit (recv s) 0" using u by (simp_all add: abandoned_def)
  have nw: "\<not> sdying (threads s v)" for v
    using u handle_invD(8) [OF h, of v] by (cases "v < n_threads s") (auto simp: abandoned_def)
  have e: "senders s = Map.empty" using death(1) a by blast
  have "scall_of (threads s t) = None"
    using scall_senders [OF h, of t] e by (cases "scall_of (threads s t)") auto
  note n = step_asleep_other [OF st a(1) u(2) this nw e]
  have "\<not> sdying (threads s' v)" for v using n [of v] nw by (cases "v = t") auto
  then show ?thesis using n a(2) by (simp add: abandoned_def)
qed

lemma abandoned_exec:
  assumes "channel_inv s" "abandoned u s" "exec x86_64 (filter (\<lambda>(t, a). t \<noteq> u) as) s = Next s'"
  shows "abandoned u s'"
  using assms
proof (induction as arbitrary: s)
  case (Cons p as)
  obtain t a where p: "p = (t, a)" by (cases p)
  show ?case
  proof (cases "t = u")
    case False
    then obtain s1 where s1: "step x86_64 t a s = Next s1"
      "exec x86_64 (filter (\<lambda>(t, a). t \<noteq> u) as) s1 = Next s'"
      using Cons.prems(3) p by (auto split: outcome.splits)
    show ?thesis
      using Cons.IH [OF channel_inv_step [OF s1(1) Cons.prems(1)]
          abandoned_step [OF s1(1) Cons.prems(1,2) False] s1(2)] .
  qed (use Cons p in simp)
qed simp

end
