(* ===== verification/Mpmc_Solo.thy ===== *)
theory Mpmc_Solo
  imports Mpmc_Disconnect
begin

text \<open>
  One call running alone, from any reachable state: what \<open>try_send\<close> and \<open>try_recv\<close> return
  and do on every branch, and a bound on the number of atomic operations they need.
\<close>

section \<open>Running one thread alone\<close>

definition solo :: "bool \<Rightarrow> nat \<Rightarrow> nat \<Rightarrow> 'a sys \<Rightarrow> 'a outcome" where
  "solo x86_64 t n s = exec x86_64 (replicate n (t, Step)) s"

lemma exec_append:
  "exec x86_64 (as @ bs) s = (case exec x86_64 as s of Next s' \<Rightarrow> exec x86_64 bs s' | r \<Rightarrow> r)"
proof (induction as arbitrary: s)
  case (Cons p as)
  then show ?case by (cases p) (simp split: outcome.splits)
qed simp

lemma solo_0 [simp]: "solo x86_64 t 0 s = Next s"
  by (simp add: solo_def)

lemma solo_Suc: "step x86_64 t Step s = Next s1 \<Longrightarrow> solo x86_64 t (Suc n) s = solo x86_64 t n s1"
  by (simp add: solo_def)

lemma solo_add: "solo x86_64 t m s = Next s1 \<Longrightarrow> solo x86_64 t (m + n) s = solo x86_64 t n s1"
  unfolding solo_def replicate_add exec_append by simp

lemma solo_inv:
  assumes "solo x86_64 t n s = Next s'" "channel_inv s"
  shows "channel_inv s'"
  using assms
proof (induction n arbitrary: s)
  case (Suc n)
  obtain s1 where "step x86_64 t Step s = Next s1" "solo x86_64 t n s1 = Next s'"
    using Suc.prems(1) by (auto simp: solo_def split: outcome.splits)
  then show ?case using Suc.IH channel_inv_step Suc.prems(2) by blast
qed simp

text \<open>Inside a call the next operation is always possible.\<close>

fun steps_on :: "'a pc \<Rightarrow> bool" where
  "steps_on (TryReserve c items m d) = True"
| "steps_on (TryFence c r d) = True"
| "steps_on (TryWrite c r rest d) = True"
| "steps_on (TryCommit c r d) = True"
| "steps_on (ClaimAll c) = True"
| "steps_on (ClaimRead c cl rest vs) = True"
| "steps_on (ClaimFence c cl vs) = True"
| "steps_on (ClaimRelease c cl vs) = True"
| "steps_on _ = False"

lemma step_possible:
  assumes "channel_inv s" "t < n_threads s" "steps_on (threads s t)"
  obtains s' where "step x86_64 t Step s = Next s'"
proof -
  note nf = step_no_fault [OF assms(1), of x86_64 t Step]
  have "step x86_64 t Step s \<noteq> Disabled \<and> (\<forall>m. step x86_64 t Step s \<noteq> Aborted m)"
    using assms(2,3)
    by (cases "threads s t")
      (auto simp: step_def on_step_def try_reserve_step_eq try_fence_step_def try_write_step_def
        try_commit_step_def claim_all_step_eq claim_read_step_def claim_fence_step_def
        claim_release_step_def Let_def split: option.splits reserve_outcome.splits)
  then show ?thesis using nf that by (cases "step x86_64 t Step s") auto
qed

text \<open>What its thread is at says which moves a step can be.\<close>

fun sending :: "'a pc \<Rightarrow> bool" where
  "sending (TryReserve c items m d) = True"
| "sending (TryFence c r d) = True"
| "sending (TryWrite c r rest d) = True"
| "sending (TryCommit c r d) = True"
| "sending _ = False"

fun receiving :: "'a pc \<Rightarrow> bool" where
  "receiving (ClaimAll c) = True"
| "receiving (ClaimRead c cl rest vs) = True"
| "receiving (ClaimFence c cl vs) = True"
| "receiving (ClaimRelease c cl vs) = True"
| "receiving _ = False"

lemma sending_move:
  assumes "step x86_64 t a s = Next s'" "sending (threads s t)"
  shows "send_move x86_64 t s s'"
  using assms(1)
  by (cases rule: step_moves)
    (use assms(2) in \<open>auto elim: ready.elims recv_move.cases sleep_move.cases death_move.cases\<close>)

lemma receiving_move:
  assumes "step x86_64 t a s = Next s'" "receiving (threads s t)"
  shows "recv_move x86_64 t s s'"
  using assms(1)
  by (cases rule: step_moves)
    (use assms(2) in \<open>auto elim: ready.elims send_move.cases sleep_move.cases death_move.cases\<close>)

lemmas send_step_cases [consumes 1] = sending_move [THEN send_move.cases]
lemmas recv_step_cases [consumes 1] = receiving_move [THEN recv_move.cases]

section \<open>The write loop of try\_send\<close>

lemma write_loop:
  assumes "channel_inv s" "t < n_threads s" "threads s t = TryWrite c r rest d"
  shows "\<exists>s' xs d'. solo x86_64 t (Suc (card (slots rest))) s = Next s' \<and> threads s' t = TryCommit c r d' \<and>
    length xs = card (slots rest) \<and> contents d = contents d' @ rev xs \<and> sent_log s' = sent_log s @ xs \<and>
    send s' = send s \<and> recv s' = recv s \<and> n_threads s' = n_threads s"
  using assms
proof (induction "card (slots rest)" arbitrary: s rest d)
  case 0
  then have e: "slots rest = {}" by simp
  obtain s' where s': "step x86_64 t Step s = Next s'"
    using step_possible [OF 0(2,3)] 0(4) by (metis steps_on.simps(3))
  have "drain_next mpmc_n rest = None" using e by (simp add: mpmc_n_def)
  from s' have "s' = goto t (TryCommit c r d) s"
    by (cases rule: send_step_cases) (use 0(4) \<open>drain_next mpmc_n rest = None\<close> in simp_all)
  then show ?case using s' e by (intro exI [of _ s'] exI [of _ "[]"] exI [of _ d]) (simp add: solo_Suc)
next
  case (Suc n)
  obtain s1 where s1: "step x86_64 t Step s = Next s1"
    using step_possible [OF Suc(3,4)] Suc(5) by (metis steps_on.simps(3))
  have "slots rest \<noteq> {}" using Suc(2) by auto
  then have nn: "drain_next mpmc_n rest \<noteq> None" by (simp add: mpmc_n_def)
  from s1 obtain i rest' x d1 where w: "drain_next mpmc_n rest = Some (i, rest')" "take_item d = Some (x, d1)"
      "s1 = goto t (TryWrite c r rest' d1) (s\<lparr>bag := (bag s)(i := Some x), mem := access t i (mem s),
                    sent_log := sent_log s @ [x]\<rparr>)"
    by (cases rule: send_step_cases) (use Suc(5) nn in auto)
  have n: "n = card (slots rest')" using drain_next_wf(3) [OF w(1)] Suc(2) by simp
  have s1': "channel_inv s1" "t < n_threads s1" "threads s1 t = TryWrite c r rest' d1"
    using channel_inv_step [OF s1 Suc(3)] Suc(4) w(3) by simp_all
  obtain s' xs d' where ih: "solo x86_64 t (Suc n) s1 = Next s'" "threads s' t = TryCommit c r d'"
      "length xs = n" "contents d1 = contents d' @ rev xs" "sent_log s' = sent_log s1 @ xs"
      "send s' = send s1" "recv s' = recv s1" "n_threads s' = n_threads s1"
    using Suc(1) [OF n s1'] n by auto
  have "contents d = contents d' @ rev (x # xs)" using take_item_Some [OF w(2)] ih(4) by simp
  then show ?case
    using ih w(3) Suc(2) solo_Suc [OF s1] by (intro exI [of _ s'] exI [of _ "x # xs"] exI [of _ d']) simp
qed

text \<open>From the reservation on: the fence, the writes and the commit.\<close>

lemma send_tail:
  assumes "channel_inv s" "t < n_threads s" "threads s t = TryFence c r d"
  shows "\<exists>s' xs d'. solo x86_64 t (card (slots r) + 3) s = Next s' \<and>
    threads s' t = (if bit (recv s) 1 then SendRet (SendOk d') else TryWake c d') \<and>
    length xs = card (slots r) \<and> contents d = contents d' @ rev xs \<and> sent_log s' = sent_log s @ xs \<and>
    send s' = send s \<and> slots (recv s') = slots (recv s) \<union> slots r \<and> bit (recv s') 1"
proof -
  obtain s1 where s1: "step x86_64 t Step s = Next s1"
    using step_possible [OF assms(1,2)] assms(3) by (metis steps_on.simps(2))
  from s1 have e1: "s1 = goto t (TryWrite c r r d) (s\<lparr>mem := fence_acquire t (mem s)\<rparr>)"
    by (cases rule: send_step_cases) (use assms(3) in simp_all)
  have "channel_inv s1" "t < n_threads s1" "threads s1 t = TryWrite c r r d"
    using channel_inv_step [OF s1 assms(1)] e1 assms(2) by simp_all
  from write_loop [OF this, of x86_64] obtain s2 xs d' where s2: "solo x86_64 t (Suc (card (slots r))) s1 = Next s2"
    "threads s2 t = TryCommit c r d'" "length xs = card (slots r)" "contents d = contents d' @ rev xs"
    "sent_log s2 = sent_log s1 @ xs" "send s2 = send s1" "recv s2 = recv s1" "n_threads s2 = n_threads s1"
    by blast
  have inv2: "channel_inv s2" "t < n_threads s2"
    using solo_inv [OF s2(1) \<open>channel_inv s1\<close>] s2(8) \<open>t < n_threads s1\<close> by simp_all
  obtain s3 where s3: "step x86_64 t Step s2 = Next s3"
    using step_possible [OF inv2] s2(2) by (metis steps_on.simps(4))
  from s3 have e3: "s3 = goto t (if bit (recv s2) 1 then SendRet (SendOk d') else TryWake c d')
      (rmw_recv Release t (commit_recv x86_64 r (recv s2)) s2)"
    by (cases rule: send_step_cases) (use s2(2) in simp_all)
  have "solo x86_64 t (Suc (Suc (card (slots r)) + 1)) s = solo x86_64 t 1 s2"
    using solo_Suc [OF s1, of "Suc (card (slots r)) + 1"] solo_add [OF s2(1), of 1] by simp
  also have "\<dots> = Next s3" using solo_Suc [OF s3, of 0] by simp
  finally have "solo x86_64 t (card (slots r) + 3) s = Next s3" by (simp add: numeral_3_eq_3)
  then show ?thesis using s2 e1
    by (intro exI [of _ s3] exI [of _ xs] exI [of _ d'])
      (simp add: e3 slots_commit_recv bits_commit_recv)
qed


section \<open>A whole try\_send\<close>

lemma try_reserve_cases:
  assumes "status_free m" "\<not> bit prev 0" "slots prev \<noteq> {..<30}" "\<not> slots m \<subseteq> slots prev"
  shows "\<exists>r. try_reserve items bias prev m = Reserved r"
proof -
  let ?r = "NOT (prev OR status_all) AND m"
  have "prev OR status_all \<noteq> u32_max" using assms(3) unfolding all_slots_taken_iff by (simp add: slot_simps)
  moreover have "?r > 0"
  proof -
    obtain i where "i \<in> slots m" "i \<notin> slots prev" using assms(4) by blast
    then have "i \<in> slots ?r" by (auto simp: slot_simps dest: slots_lt)
    then have "?r \<noteq> 0" by auto
    then show ?thesis by (simp add: word_gt_0)
  qed
  ultimately show ?thesis using assms(2) by (simp add: try_reserve_def Let_def contains_DEAD)
qed

text \<open>A reservation that succeeds at once, and what follows it.\<close>

lemma send_reserved:
  assumes "channel_inv s" "t < n_threads s" "threads s t = TryReserve c items m d"
    and "\<not> bit (send s) 0" "slots (send s) \<noteq> {..<30}" "\<not> slots m \<subseteq> slots (send s)"
  shows "\<exists>n\<le>34. \<exists>s' xs d'. solo x86_64 t n s = Next s' \<and>
    threads s' t = (if bit (recv s) 1 then SendRet (SendOk d') else TryWake c d') \<and>
    length xs = card (slots m - slots (send s)) \<and> contents d = contents d' @ rev xs \<and>
    sent_log s' = sent_log s @ xs \<and> slots (send s') = slots (send s) \<union> slots m \<and>
    slots (recv s') = slots (recv s) \<union> (slots m - slots (send s))"
proof -
  have w: "status_free m" using channel_invD(4) [OF assms(1), of t] assms(3) by simp
  obtain r where r: "try_reserve items (sc_bias c) (send s) m = Reserved r"
    using try_reserve_cases [OF w assms(4-6)] by blast
  note r' = try_reserve_Reserved [OF r w]
  obtain s1 where s1: "step x86_64 t Step s = Next s1"
    using step_possible [OF assms(1,2)] assms(3) by (metis steps_on.simps(1))
  from s1 have e1: "s1 = goto t (TryFence c r d) (rmw_send Relaxed t (send s OR m) s)"
    by (cases rule: step_NextE) (use assms(3) r in \<open>simp_all add: try_reserve_step_eq split: if_splits\<close>)
  have "channel_inv s1" "t < n_threads s1" "threads s1 t = TryFence c r d"
    using channel_inv_step [OF s1 assms(1)] e1 assms(2) by simp_all
  from send_tail [OF this, of x86_64] obtain s' xs d' where s': "solo x86_64 t (card (slots r) + 3) s1 = Next s'"
    "threads s' t = (if bit (recv s1) 1 then SendRet (SendOk d') else TryWake c d')"
    "length xs = card (slots r)" "contents d = contents d' @ rev xs" "sent_log s' = sent_log s1 @ xs"
    "send s' = send s1" "slots (recv s') = slots (recv s1) \<union> slots r" by blast
  have "Suc (card (slots r) + 3) \<le> 34" using card_slots_le [of r] by simp
  then show ?thesis
    using s' r'(2) e1 solo_Suc [OF s1, of "card (slots r) + 3"]
    by (intro exI [of _ "Suc (card (slots r) + 3)"] conjI exI [of _ s'] exI [of _ xs] exI [of _ d'])
      (simp_all add: slots_or)
qed

text \<open>What a \<^verbatim>\<open>try_send\<close> that starts in state \<open>s\<close> has done in \<open>s'\<close>.\<close>

definition send_outcome :: "scall \<Rightarrow> 'a buffer \<Rightarrow> nat \<Rightarrow> 'a sys \<Rightarrow> 'a sys \<Rightarrow> bool" where
  "send_outcome c d t s s' \<longleftrightarrow>
    (if bit (send s) 0 then threads s' t = SendRet (SendDisconnected d) \<and> bag s' = bag s
     else if slots (send s) = {..<30}
     then threads s' t = (if sc_blocking c then SendSpin c 32 d else SendRet (SendFull d)) \<and> bag s' = bag s
     else \<exists>xs d'. xs \<noteq> [] \<and> contents d = contents d' @ rev xs \<and> sent_log s' = sent_log s @ xs \<and>
       threads s' t = (if bit (recv s) 1 then SendRet (SendOk d') else TryWake c d') \<and>
       card (slots (send s') - slots (send s)) = length xs \<and>
       slots (recv s') = slots (recv s) \<union> (slots (send s') - slots (send s)))"

lemma send_refused:
  assumes "threads s t = TryReserve c items m d" "fresh d" "step x86_64 t Step s = Next s1"
    and "bit (send s) 0 \<or> slots (send s) = {..<30}"
  shows "send_outcome c d t s s1"
proof -
  have h: "try_reserve_step t c items m d s = Next s1"
    using assms(3) by (cases rule: step_NextE) (use assms(1) in simp_all)
  note rem = buf.remit_fresh [OF assms(2)]
  show ?thesis
  proof (cases "bit (send s) 0")
    case True
    then have "try_reserve items (sc_bias c) (send s) m = Disconnected"
      by (simp add: try_reserve_def contains_DEAD)
    then have "s1 = goto t (SendRet (SendDisconnected d)) (rmw_send Relaxed t (send s OR m) s)"
      using h rem by (simp add: try_reserve_step_eq)
    then show ?thesis using True by (simp add: send_outcome_def)
  next
    case False
    then have full: "slots (send s) = {..<30}" using assms(4) by blast
    then have "send s OR status_all = u32_max" unfolding all_slots_taken_iff by simp
    then have "try_reserve items (sc_bias c) (send s) m = Full"
      using False by (simp add: try_reserve_def contains_DEAD Let_def)
    then have "s1 = goto t (if sc_blocking c then SendSpin c 32 d else SendRet (SendFull d)) (rmw_send Relaxed t (send s OR m) s)"
      using h rem by (simp add: try_reserve_step_eq)
    then show ?thesis using False full by (simp add: send_outcome_def)
  qed
qed

text \<open>With room left, a mask that is all taken is replaced once, by one that is not.\<close>

lemma send_retried:
  assumes inv: "channel_inv s" and p: "threads s t = TryReserve c items m d" and s1: "step x86_64 t Step s = Next s1"
    and room: "\<not> bit (send s) 0" "slots (send s) \<noteq> {..<30}" "slots m \<subseteq> slots (send s)"
  shows "\<exists>m'. threads s1 t = TryReserve c items m' d \<and> \<not> slots m' \<subseteq> slots (send s) \<and>
    slots (send s1) = slots (send s) \<and> bit (send s1) 0 = bit (send s) 0 \<and> recv s1 = recv s \<and>
    sent_log s1 = sent_log s \<and> n_threads s1 = n_threads s"
proof -
  have w: "status_free m" "0 < items" using channel_invD(4) [OF inv, of t] p by auto
  have "slots (NOT (send s OR status_all) AND m) = {}" using room(3) by (auto simp: slot_simps)
  moreover have "status_free (NOT (send s OR status_all) AND m)"
    using w(1) by (simp add: status_free_iff bit_and_iff)
  ultimately have "NOT (send s OR status_all) AND m = 0" using status_free_eq_0_iff by blast
  moreover have "send s OR status_all \<noteq> u32_max"
    using room(2) unfolding all_slots_taken_iff by (simp add: slot_simps)
  ultimately obtain m' where m': "try_reserve items (sc_bias c) (send s) m = Retry m'"
    using room(1) by (simp add: try_reserve_def Let_def contains_DEAD)
  note r = try_reserve_Retry [OF m' w]
  have "try_reserve_step t c items m d s = Next s1"
    using s1 by (cases rule: step_NextE) (use p in simp_all)
  then have "s1 = goto t (TryReserve c items m' d) (rmw_send Relaxed t (send s OR m) s)"
    using m' by (simp add: try_reserve_step_eq)
  moreover have "\<not> slots m' \<subseteq> slots (send s)" using r(2,3) by blast
  ultimately show ?thesis
    using room(3) bits_status_free(1) [OF w(1)] by (intro exI [of _ m']) (auto simp: slots_or)
qed

text \<open>Once the mask has a free slot, the call reserves, writes and commits.\<close>

lemma send_done:
  assumes st: "channel_inv u" "t < n_threads u" "threads u t = TryReserve c items m d"
    and e: "slots (send u) = slots (send s)" "bit (send u) 0 = bit (send s) 0" "recv u = recv s" "sent_log u = sent_log s"
    and room: "\<not> bit (send s) 0" "slots (send s) \<noteq> {..<30}" "\<not> slots m \<subseteq> slots (send s)"
  shows "\<exists>n\<le>34. \<exists>s'. solo x86_64 t n u = Next s' \<and> send_outcome c d t s s'"
proof -
  obtain n s' xs d' where r: "n \<le> 34" "solo x86_64 t n u = Next s'"
    "threads s' t = (if bit (recv u) 1 then SendRet (SendOk d') else TryWake c d')"
    "length xs = card (slots m - slots (send u))" "contents d = contents d' @ rev xs"
    "sent_log s' = sent_log u @ xs" "slots (send s') = slots (send u) \<union> slots m"
    "slots (recv s') = slots (recv u) \<union> (slots m - slots (send u))"
    using send_reserved [OF st] e room by metis
  have new: "slots (send s') - slots (send s) = slots m - slots (send s)" unfolding r(7) e(1) by blast
  have "slots m - slots (send s) \<noteq> {}" using room(3) by blast
  then have "xs \<noteq> []" using r(4) e(1) by auto
  then have "send_outcome c d t s s'" using room(1,2) r(3-8) new e by (auto simp: send_outcome_def)
  then show ?thesis using r(1,2) by blast
qed

lemma try_send_alone:
  assumes inv: "channel_inv s" and t: "t < n_threads s" and p: "threads s t = TryReserve c items m d"
  shows "\<exists>n\<le>35. \<exists>s'. solo x86_64 t n s = Next s' \<and> send_outcome c d t s s'"
proof -
  have w: "fresh d" using channel_invD(4) [OF inv, of t] p by simp
  obtain s1 where s1: "step x86_64 t Step s = Next s1"
    using step_possible [OF inv t] p by (metis steps_on.simps(1))
  have one: "solo x86_64 t 1 s = Next s1" using solo_Suc [OF s1, of 0] by simp
  consider (refused) "bit (send s) 0 \<or> slots (send s) = {..<30}"
    | (room) "\<not> bit (send s) 0" "slots (send s) \<noteq> {..<30}" "\<not> slots m \<subseteq> slots (send s)"
    | (retry) "\<not> bit (send s) 0" "slots (send s) \<noteq> {..<30}" "slots m \<subseteq> slots (send s)"
    by blast
  then show ?thesis
  proof cases
    case refused
    then show ?thesis using send_refused [OF p w s1] one by (intro exI [of _ 1]) auto
  next
    case room
    obtain n s' where "n \<le> 34" "solo x86_64 t n s = Next s'" "send_outcome c d t s s'"
      using send_done [OF inv t p refl refl refl refl room] by blast
    then show ?thesis by (intro exI [of _ n]) auto
  next
    case retry
    obtain m' where m': "threads s1 t = TryReserve c items m' d" "\<not> slots m' \<subseteq> slots (send s)"
      "slots (send s1) = slots (send s)" "bit (send s1) 0 = bit (send s) 0" "recv s1 = recv s"
      "sent_log s1 = sent_log s" "n_threads s1 = n_threads s" using send_retried [OF inv p s1 retry] by blast
    have "t < n_threads s1" using t m'(7) by simp
    from send_done [OF channel_inv_step [OF s1 inv] this m'(1,3-6) retry(1,2) m'(2)]
    obtain n s' where "n \<le> 34" "solo x86_64 t n s1 = Next s'" "send_outcome c d t s s'" by blast
    then show ?thesis using solo_Suc [OF s1, of n] by (intro exI [of _ "Suc n"]) auto
  qed
qed

section \<open>A whole try\_recv\<close>

lemma read_loop:
  assumes "channel_inv s" "t < n_threads s" "threads s t = ClaimRead c cl rest vs"
  shows "\<exists>s'. solo x86_64 t (Suc (card (slots rest))) s = Next s' \<and>
    threads s' t = ClaimFence c cl (vs @ map (\<lambda>i. the (bag s i)) (sorted_list_of_set (slots rest))) \<and>
    send s' = send s \<and> recv s' = recv s \<and> n_threads s' = n_threads s"
  using assms
proof (induction "card (slots rest)" arbitrary: s rest vs)
  case 0
  then have e: "slots rest = {}" by simp
  obtain s' where s': "step x86_64 t Step s = Next s'"
    using step_possible [OF 0(2,3)] 0(4) by (metis steps_on.simps(6))
  have dn: "drain_next mpmc_n rest = None" using e by (simp add: mpmc_n_def)
  from s' have "s' = goto t (ClaimFence c cl vs) s"
    by (cases rule: recv_step_cases) (use 0(4) dn in simp_all)
  then show ?case using s' e by (intro exI [of _ s']) (simp add: solo_Suc)
next
  case (Suc n)
  obtain s1 where s1: "step x86_64 t Step s = Next s1"
    using step_possible [OF Suc(3,4)] Suc(5) by (metis steps_on.simps(6))
  have ne: "slots rest \<noteq> {}" using Suc(2) by auto
  then have nn: "drain_next mpmc_n rest \<noteq> None" by (simp add: mpmc_n_def)
  from s1 obtain i rest' x where w: "drain_next mpmc_n rest = Some (i, rest')" "bag s i = Some x"
      "s1 = goto t (ClaimRead c cl rest' (vs @ [x])) (s\<lparr>bag := (bag s)(i := None),
              mem := access t i (mem s), recv_log := recv_log s @ [x]\<rparr>)"
    by (cases rule: recv_step_cases) (use Suc(5) nn in auto)
  note dn = drain_next_Some [OF w(1) [unfolded mpmc_n_def]]
  have n: "n = card (slots rest')" using drain_next_wf(3) [OF w(1)] Suc(2) by simp
  have s1': "channel_inv s1" "t < n_threads s1" "threads s1 t = ClaimRead c cl rest' (vs @ [x])"
    using channel_inv_step [OF s1 Suc(3)] Suc(4) w(3) by simp_all
  obtain s' where ih: "solo x86_64 t (Suc n) s1 = Next s'"
      "threads s' t = ClaimFence c cl ((vs @ [x]) @ map (\<lambda>i. the (bag s1 i)) (sorted_list_of_set (slots rest')))"
      "send s' = send s1" "recv s' = recv s1" "n_threads s' = n_threads s1"
    using Suc(1) [OF n s1'] n by auto
  have sl: "sorted_list_of_set (slots rest) = i # sorted_list_of_set (slots rest')"
    using sorted_list_of_set_Min [of "slots rest"] dn ne by simp
  have "map (\<lambda>i. the (bag s1 i)) (sorted_list_of_set (slots rest')) =
      map (\<lambda>i. the (bag s i)) (sorted_list_of_set (slots rest'))"
    using drain_next_wf(2) [OF w(1)] by (auto simp: w(3))
  then show ?case
    using ih w Suc(2) solo_Suc [OF s1] sl by (intro exI [of _ s']) simp
qed

lemma try_recv_alone:
  assumes inv: "channel_inv s" and t: "t < n_threads s" and p: "threads s t = ClaimAll c"
  shows "\<exists>n\<le>34. \<exists>s'. solo x86_64 t n s = Next s' \<and>
    (if slots (recv s) = {} then threads s' t = (if \<not> bit (recv s) 0 then RecvRet RecvDisconnected
         else if rc_blocking c then RecvSpin c 32 else RecvRet RecvEmpty)
     else \<exists>vs. vs = map (\<lambda>i. the (bag s i)) (sorted_list_of_set (slots (recv s))) \<and>
       threads s' t = (if bit (send s) 1 then ClaimWake c vs else RecvRet (RecvOk vs)) \<and>
       slots (recv s') = {} \<and> slots (send s') = slots (send s) - slots (recv s))"
proof -
  obtain s1 where s1: "step x86_64 t Step s = Next s1"
    using step_possible [OF inv t] p by (metis steps_on.simps(5))
  have one: "solo x86_64 t 1 s = Next s1" using solo_Suc [OF s1, of 0] by simp
  let ?cl = "recv s AND NOT status_all"
  have cl: "slots ?cl = slots (recv s)" by (rule slots_claim)
  from s1 have e1: "s1 = goto t (if slots (recv s) = {} then if \<not> bit (recv s) 0 then RecvRet RecvDisconnected
              else if rc_blocking c then RecvSpin c 32 else RecvRet RecvEmpty
            else ClaimRead c ?cl ?cl []) (rmw_recv Acquire t (recv s AND status_all) s)"
    by (cases rule: recv_step_cases) (use p in simp_all)
  show ?thesis
  proof (cases "slots (recv s) = {}")
    case True
    then show ?thesis using one e1 by (intro exI [of _ 1] conjI exI [of _ s1]) simp_all
  next
    case False
    have i1: "channel_inv s1" "t < n_threads s1" "threads s1 t = ClaimRead c ?cl ?cl []"
      using channel_inv_step [OF s1 inv] t e1 False by simp_all
    let ?vs = "map (\<lambda>i. the (bag s i)) (sorted_list_of_set (slots (recv s)))"
    obtain s2 where s2: "solo x86_64 t (Suc (card (slots (recv s)))) s1 = Next s2"
      "threads s2 t = ClaimFence c ?cl ?vs" "send s2 = send s" "recv s2 = recv s AND status_all"
      "n_threads s2 = n_threads s1"
      using read_loop [OF i1, of x86_64] cl e1 by auto
    have i2: "channel_inv s2" "t < n_threads s2" using solo_inv [OF s2(1) i1(1)] s2(5) i1(2) by simp_all
    obtain s3 where s3: "step x86_64 t Step s2 = Next s3"
      using step_possible [OF i2] s2(2) by (metis steps_on.simps(7))
    from s3 have e3: "s3 = goto t (ClaimRelease c ?cl ?vs) (s2\<lparr>mem := fence_release t (mem s2)\<rparr>)"
      by (cases rule: recv_step_cases) (use s2(2) in simp_all)
    have i3: "channel_inv s3" "t < n_threads s3" using channel_inv_step [OF s3 i2(1)] i2(2) e3 by simp_all
    obtain s4 where s4: "step x86_64 t Step s3 = Next s4"
      using step_possible [OF i3] e3 by (metis goto_sel(8) fun_upd_same steps_on.simps(8))
    from s4 have e4: "s4 = goto t (if bit (send s3) 1 then ClaimWake c ?vs else RecvRet (RecvOk ?vs))
        (rmw_send Relaxed t (release_send x86_64 ?cl (send s3)) s3)"
      by (cases rule: recv_step_cases) (use e3 in simp_all)
    have "solo x86_64 t (1 + (Suc (card (slots (recv s))) + 2)) s = Next s4"
      using solo_add [OF one] solo_add [OF s2(1), of 2] solo_Suc [OF s3, of 1] solo_Suc [OF s4, of 0]
      by (simp add: numeral_2_eq_2)
    moreover have "1 + (Suc (card (slots (recv s))) + 2) \<le> 34" using card_slots_le [of "recv s"] by simp
    ultimately show ?thesis
      using False s2(3,4) e3
      by (intro exI [of _ "1 + (Suc (card (slots (recv s))) + 2)"] conjI exI [of _ s4])
        (simp_all add: e4 slots_release_send cl)
  qed
qed

end
