(* ===== verification/Clients.thy ===== *)
theory Clients
  imports Prelude
begin

text \<open>
  Client programs of a channel, as the multi-threaded tests of \<^verbatim>\<open>bags/src/mpmc.rs\<close> and
  \<^verbatim>\<open>bags/src/slot.rs\<close> write them: threads that clone handles, spawn each other, send values
  one by one, receive until the channel is closed, and drop their handles.  The channel itself is
  the locale \<open>channel\<close>: what its calls and its steps promise.  Under these laws no client
  panics, and what the receivers collect is what was sent; both channels of the crate interpret
  the locale.
\<close>

section \<open>Calls and their results\<close>

text \<open>The flag says whether a send or a receive is the blocking one; \<open>Running\<close> is a call that has
  not returned.\<close>

datatype 'a chan_op = OSend bool nat 'a | ORecv bool nat | OCloneSnd nat nat | ODropSnd nat |
  OCloneRcv nat nat | ODropRcv nat

datatype 'a reply = Running | Quiet | Sent | Rejected 'a | Refused 'a | Got "'a list" | Closed | NothingYet

datatype role = Sending | Receiving | Neither

section \<open>Programs\<close>

text \<open>\<open>Send\<close> is \<^verbatim>\<open>send(..).unwrap()\<close>; \<open>RecvAll\<close> is the loop that receives until the channel
  is closed and keeps what it gets.  \<open>Spawn\<close> starts another thread.\<close>

datatype 'a instr = Send nat 'a | RecvAll nat | CloneSnd nat nat | DropSnd nat | CloneRcv nat nat |
  DropRcv nat | Spawn nat

text \<open>The threads with what is left of their programs, which of them are inside a call, what they
  have collected, and which of them run, have panicked and have ended a receiving loop.\<close>

record ('s, 'a) client =
  chan :: 's
  prog :: "nat \<Rightarrow> 'a instr list"
  waiting :: "nat \<Rightarrow> bool"
  acc :: "nat \<Rightarrow> 'a list"
  spawned :: "nat set"
  panicked :: "nat set"
  ended :: "nat set"

definition client_start :: "'s \<Rightarrow> (nat \<Rightarrow> 'a instr list) \<Rightarrow> ('s, 'a) client" where
  "client_start s P = \<lparr>chan = s, prog = P, waiting = (\<lambda>_. False), acc = (\<lambda>_. []), spawned = {0},
     panicked = {}, ended = {}\<rparr>"

text \<open>\<open>poly\<close> selects the tests' \<^verbatim>\<open>send_polyfill\<close> and \<^verbatim>\<open>recv_polyfill\<close>, which call
  \<^verbatim>\<open>try_send\<close> and \<^verbatim>\<open>try_recv\<close> in a loop.\<close>

definition client_call :: "(nat \<Rightarrow> 'a chan_op \<Rightarrow> 's \<Rightarrow> 's option) \<Rightarrow> nat \<Rightarrow> 'a chan_op \<Rightarrow> ('s, 'a) client \<Rightarrow>
    ('s, 'a) client option" where
  "client_call call t op c =
     map_option (\<lambda>s. c\<lparr>chan := s, waiting := (waiting c)(t := True)\<rparr>) (call t op (chan c))"

definition client_now :: "(nat \<Rightarrow> 'a chan_op \<Rightarrow> 's \<Rightarrow> 's option) \<Rightarrow> nat \<Rightarrow> 'a chan_op \<Rightarrow> ('s, 'a) client \<Rightarrow>
    ('s, 'a) client option" where
  "client_now call t op c =
     map_option (\<lambda>s. c\<lparr>chan := s, prog := (prog c)(t := tl (prog c t))\<rparr>) (call t op (chan c))"

fun client_begin :: "(nat \<Rightarrow> 'a chan_op \<Rightarrow> 's \<Rightarrow> 's option) \<Rightarrow> bool \<Rightarrow> nat \<Rightarrow> 'a instr \<Rightarrow> ('s, 'a) client \<Rightarrow>
    ('s, 'a) client option" where
  "client_begin call poly t (Send h x) c = client_call call t (OSend (\<not> poly) h x) c"
| "client_begin call poly t (RecvAll h) c = client_call call t (ORecv (\<not> poly) h) c"
| "client_begin call poly t (CloneSnd h h') c = client_now call t (OCloneSnd h h') c"
| "client_begin call poly t (DropSnd h) c = client_now call t (ODropSnd h) c"
| "client_begin call poly t (CloneRcv h h') c = client_now call t (OCloneRcv h h') c"
| "client_begin call poly t (DropRcv h) c = client_now call t (ODropRcv h) c"
| "client_begin call poly t (Spawn u) c =
     Some (c\<lparr>spawned := insert u (spawned c), prog := (prog c)(t := tl (prog c t))\<rparr>)"

text \<open>What a thread does with the result of its call: \<^verbatim>\<open>unwrap\<close> panics on a rejected value,
  the polyfills try again with the value they got back.\<close>

fun client_reply :: "nat \<Rightarrow> 'a reply \<Rightarrow> ('s, 'a) client \<Rightarrow> ('s, 'a) client option" where
  "client_reply t Sent c = Some (c\<lparr>prog := (prog c)(t := tl (prog c t)), waiting := (waiting c)(t := False)\<rparr>)"
| "client_reply t (Rejected x) c = Some (c\<lparr>panicked := insert t (panicked c)\<rparr>)"
| "client_reply t (Refused x) c =
     (case prog c t of
        Send h y # p \<Rightarrow> Some (c\<lparr>prog := (prog c)(t := Send h x # p), waiting := (waiting c)(t := False)\<rparr>)
      | _ \<Rightarrow> None)"
| "client_reply t (Got vs) c =
     Some (c\<lparr>acc := (acc c)(t := acc c t @ vs), waiting := (waiting c)(t := False)\<rparr>)"
| "client_reply t Closed c = Some (c\<lparr>prog := (prog c)(t := tl (prog c t)), waiting := (waiting c)(t := False),
     ended := insert t (ended c)\<rparr>)"
| "client_reply t NothingYet c = Some (c\<lparr>waiting := (waiting c)(t := False)\<rparr>)"
| "client_reply t _ c = None"

text \<open>A move of thread \<open>t\<close>: a step of the call it is in, or a step of its program.\<close>

datatype 'act client_move = Inside nat 'act | Go nat

fun client_step :: "(nat \<Rightarrow> 'a chan_op \<Rightarrow> 's \<Rightarrow> 's option) \<Rightarrow> (nat \<Rightarrow> 'act \<Rightarrow> 's \<Rightarrow> 's option) \<Rightarrow>
    ('s \<Rightarrow> nat \<Rightarrow> 'a reply) \<Rightarrow> bool \<Rightarrow> 'act client_move \<Rightarrow> ('s, 'a) client \<Rightarrow> ('s, 'a) client option" where
  "client_step call internal reply poly (Inside t a) c =
     map_option (\<lambda>s. c\<lparr>chan := s\<rparr>) (internal t a (chan c))"
| "client_step call internal reply poly (Go t) c =
     (if t \<notin> spawned c \<or> t \<in> panicked c then None
      else if waiting c t then client_reply t (reply (chan c) t) c
      else (case prog c t of [] \<Rightarrow> None | i # p \<Rightarrow> client_begin call poly t i c))"

inductive client_reachable :: "(nat \<Rightarrow> 'a chan_op \<Rightarrow> 's \<Rightarrow> 's option) \<Rightarrow> (nat \<Rightarrow> 'act \<Rightarrow> 's \<Rightarrow> 's option) \<Rightarrow>
    ('s \<Rightarrow> nat \<Rightarrow> 'a reply) \<Rightarrow> bool \<Rightarrow> ('s, 'a) client \<Rightarrow> ('s, 'a) client \<Rightarrow> bool"
  for call internal reply poly c0 where
  client_init: "client_reachable call internal reply poly c0 c0"
| client_next: "client_reachable call internal reply poly c0 c \<Longrightarrow>
    client_step call internal reply poly m c = Some c' \<Longrightarrow> client_reachable call internal reply poly c0 c'"

fun client_exec :: "(nat \<Rightarrow> 'a chan_op \<Rightarrow> 's \<Rightarrow> 's option) \<Rightarrow> (nat \<Rightarrow> 'act \<Rightarrow> 's \<Rightarrow> 's option) \<Rightarrow>
    ('s \<Rightarrow> nat \<Rightarrow> 'a reply) \<Rightarrow> bool \<Rightarrow> 'act client_move list \<Rightarrow> ('s, 'a) client \<Rightarrow> ('s, 'a) client option" where
  "client_exec call internal reply poly [] c = Some c"
| "client_exec call internal reply poly (m # ms) c =
     (case client_step call internal reply poly m c of None \<Rightarrow> None
      | Some c' \<Rightarrow> client_exec call internal reply poly ms c')"

lemma client_exec_reachable:
  "client_reachable call internal reply poly c0 c \<Longrightarrow> client_exec call internal reply poly ms c = Some c' \<Longrightarrow>
    client_reachable call internal reply poly c0 c'"
  by (induction ms arbitrary: c) (auto split: option.splits intro: client_next)

text \<open>A client that some thread can go on with, without waiting for a signal.\<close>

fun from_signal :: "('act \<Rightarrow> bool) \<Rightarrow> 'act client_move \<Rightarrow> bool" where
  "from_signal signal (Inside t a) = signal a"
| "from_signal signal (Go t) = False"

definition can_move :: "(nat \<Rightarrow> 'a chan_op \<Rightarrow> 's \<Rightarrow> 's option) \<Rightarrow> (nat \<Rightarrow> 'act \<Rightarrow> 's \<Rightarrow> 's option) \<Rightarrow>
    ('s \<Rightarrow> nat \<Rightarrow> 'a reply) \<Rightarrow> ('act \<Rightarrow> bool) \<Rightarrow> bool \<Rightarrow> ('s, 'a) client \<Rightarrow> bool" where
  "can_move call internal reply signal poly c \<longleftrightarrow>
     (\<exists>m. \<not> from_signal signal m \<and> client_step call internal reply poly m c \<noteq> None)"

section \<open>Well-formed programs\<close>

text \<open>The values a program sends, and the handles it drops.\<close>

fun prog_items :: "'a instr list \<Rightarrow> 'a multiset" where
  "prog_items [] = {#}"
| "prog_items (Send h x # p) = add_mset x (prog_items p)"
| "prog_items (_ # p) = prog_items p"

fun snd_drops :: "'a instr list \<Rightarrow> nat list" where
  "snd_drops [] = []"
| "snd_drops (DropSnd h # p) = h # snd_drops p"
| "snd_drops (_ # p) = snd_drops p"

fun rcv_drops :: "'a instr list \<Rightarrow> nat list" where
  "rcv_drops [] = []"
| "rcv_drops (DropRcv h # p) = h # rcv_drops p"
| "rcv_drops (_ # p) = rcv_drops p"

text \<open>The programs considered: a handle is used, and then dropped, once, by one thread, and all clones are
  made of the handle the channel was created with.  Ownership in Rust allows more, such as sharing a
  handle between threads.\<close>

fun prog_ok :: "'a instr list \<Rightarrow> bool" where
  "prog_ok [] = True"
| "prog_ok (Send h x # p) = (h \<in> set (snd_drops p) \<and> prog_ok p)"
| "prog_ok (RecvAll h # p) = (h \<in> set (rcv_drops p) \<and> prog_ok p)"
| "prog_ok (CloneSnd h h' # p) = (h' \<noteq> 0 \<and> 0 \<in> set (snd_drops p) \<and> prog_ok p)"
| "prog_ok (CloneRcv h h' # p) = (h' \<noteq> 0 \<and> 0 \<in> set (rcv_drops p) \<and> prog_ok p)"
| "prog_ok (_ # p) = prog_ok p"

definition is_clone_snd :: "nat \<Rightarrow> 'a instr \<Rightarrow> bool" where
  "is_clone_snd h i \<longleftrightarrow> (\<exists>h0. i = CloneSnd h0 h)"

definition is_clone_rcv :: "nat \<Rightarrow> 'a instr \<Rightarrow> bool" where
  "is_clone_rcv h i \<longleftrightarrow> (\<exists>h0. i = CloneRcv h0 h)"

definition is_recv_all :: "'a instr \<Rightarrow> bool" where
  "is_recv_all i \<longleftrightarrow> (\<exists>h. i = RecvAll h)"

definition is_send :: "'a instr \<Rightarrow> bool" where
  "is_send i \<longleftrightarrow> (\<exists>h x. i = Send h x)"

text \<open>One side of the channel: every handle is dropped by one thread, once, and the handles that
  are still to be dropped are live or still to be made.  \<open>L\<close> are the live ones.\<close>

definition side_ok :: "('a instr list \<Rightarrow> nat list) \<Rightarrow> (nat \<Rightarrow> 'a instr \<Rightarrow> bool) \<Rightarrow> (nat \<Rightarrow> 'a instr list) \<Rightarrow> nat set \<Rightarrow> bool" where
  "side_ok drops makes P L \<longleftrightarrow>
     (\<forall>t. distinct (drops (P t))) \<and>
     (\<forall>t u h. h \<in> set (drops (P t)) \<and> h \<in> set (drops (P u)) \<longrightarrow> t = u) \<and>
     (\<forall>t h. h \<in> set (drops (P t)) \<longrightarrow> h \<in> L \<or> (\<exists>u. \<exists>i\<in>set (P u). makes h i))"

definition handles_ok :: "(nat \<Rightarrow> 'a instr list) \<Rightarrow> nat set \<Rightarrow> nat set \<Rightarrow> bool" where
  "handles_ok P S R \<longleftrightarrow> (\<forall>t. prog_ok (P t)) \<and> side_ok snd_drops is_clone_snd P S \<and> side_ok rcv_drops is_clone_rcv P R"

text \<open>Programs of finitely many threads, with someone to receive.\<close>

definition client_ok :: "nat set \<Rightarrow> (nat \<Rightarrow> 'a instr list) \<Rightarrow> bool" where
  "client_ok T P \<longleftrightarrow> finite T \<and> (\<forall>t. t \<notin> T \<longrightarrow> P t = []) \<and> handles_ok P {0} {0} \<and>
     (\<exists>t. \<exists>i\<in>set (P t). is_recv_all i)"

section \<open>Handles of a running program\<close>

lemma side_okD:
  assumes "side_ok drops makes P L"
  shows "distinct (drops (P t))" "h \<in> set (drops (P t)) \<Longrightarrow> h \<in> set (drops (P u)) \<Longrightarrow> t = u"
    "h \<in> set (drops (P t)) \<Longrightarrow> h \<in> L \<or> (\<exists>u. \<exists>i\<in>set (P u). makes h i)"
  using assms unfolding side_ok_def by blast+

text \<open>An instruction that is done: it concerns this side not at all, makes a handle, or drops one.\<close>

lemma side_ok_pop:
  assumes "side_ok drops makes P L" "P t = i # p" "drops (i # p) = drops p"
    and "\<And>h. makes h i \<Longrightarrow> h \<in> L'" "L \<subseteq> L'"
  shows "side_ok drops makes (P(t := p)) L'"
proof -
  note d = side_okD [OF assms(1)]
  have dr: "drops ((P(t := p)) u) = drops (P u)" for u using assms(2,3) by simp
  have "h \<in> L' \<or> (\<exists>u. \<exists>j\<in>set ((P(t := p)) u). makes h j)" if h: "h \<in> set (drops (P u))" for u h
    using d(3) [OF h]
  proof (elim disjE exE bexE)
    fix v j assume j: "j \<in> set (P v)" "makes h j"
    show ?thesis
    proof (cases "j = i")
      case False
      then have "j \<in> set ((P(t := p)) v)" using j(1) assms(2) by (cases "v = t") auto
      then show ?thesis using j(2) by blast
    qed (use assms(4) j(2) in blast)
  qed (use assms(5) in blast)
  then show ?thesis using d(1,2) unfolding side_ok_def dr by blast
qed

lemma side_ok_drop:
  assumes "side_ok drops makes P L" "P t = i # p" "drops (i # p) = h # drops p" "\<And>h'. \<not> makes h' i"
  shows "side_ok drops makes (P(t := p)) (L - {h})"
proof -
  note d = side_okD [OF assms(1)]
  have t: "distinct (h # drops p)" using d(1) [of t] assms(2,3) by simp
  have sub: "set (drops ((P(t := p)) u)) \<subseteq> set (drops (P u))" for u using assms(2,3) by (cases "u = t") auto
  have gone: "h \<notin> set (drops ((P(t := p)) u))" for u
    using t d(2) [of h t u] assms(2,3) by (cases "u = t") auto
  have "h' \<in> L - {h} \<or> (\<exists>u. \<exists>j\<in>set ((P(t := p)) u). makes h' j)" if h': "h' \<in> set (drops ((P(t := p)) u))" for u h'
  proof -
    have ne: "h' \<noteq> h" using gone h' by blast
    consider "h' \<in> L" | v j where "j \<in> set (P v)" "makes h' j" using d(3) sub h' by blast
    then show ?thesis
    proof cases
      case 2
      then have "j \<noteq> i" using assms(4) by blast
      then have "j \<in> set ((P(t := p)) v)" using 2(1) assms(2) by (cases "v = t") auto
      then show ?thesis using 2(2) by blast
    qed (use ne in blast)
  qed
  moreover have "distinct (drops ((P(t := p)) u))" for u using d(1) [of u] t by simp
  moreover have "u = v" if "h' \<in> set (drops ((P(t := p)) u))" "h' \<in> set (drops ((P(t := p)) v))" for u v h'
    using that sub d(2) by blast
  ultimately show ?thesis unfolding side_ok_def by blast
qed

lemma handles_okD:
  assumes "handles_ok P S R"
  shows "prog_ok (P t)" "side_ok snd_drops is_clone_snd P S" "side_ok rcv_drops is_clone_rcv P R"
  using assms by (simp_all add: handles_ok_def)

fun snds_after :: "'a instr \<Rightarrow> nat set \<Rightarrow> nat set" where
  "snds_after (CloneSnd h h') S = insert h' S"
| "snds_after (DropSnd h) S = S - {h}"
| "snds_after _ S = S"

fun rcvs_after :: "'a instr \<Rightarrow> nat set \<Rightarrow> nat set" where
  "rcvs_after (CloneRcv h h') R = insert h' R"
| "rcvs_after (DropRcv h) R = R - {h}"
| "rcvs_after _ R = R"

lemma prog_ok_tl: "prog_ok (i # p) \<Longrightarrow> prog_ok p"
  by (cases i) auto

lemma handles_pop:
  assumes "handles_ok P S R" "P t = i # p"
  shows "handles_ok (P(t := p)) (snds_after i S) (rcvs_after i R)"
proof -
  note h = handles_okD [OF assms(1)]
  have "prog_ok ((P(t := p)) u)" for u using h(1) [of u] assms(2) prog_ok_tl by auto
  moreover have "side_ok snd_drops is_clone_snd (P(t := p)) (snds_after i S)"
  proof (cases i)
    case (DropSnd k)
    then show ?thesis using side_ok_drop [OF h(2) assms(2)] by (simp add: is_clone_snd_def)
  qed (auto intro!: side_ok_pop [OF h(2) assms(2)] simp: is_clone_snd_def)
  moreover have "side_ok rcv_drops is_clone_rcv (P(t := p)) (rcvs_after i R)"
  proof (cases i)
    case (DropRcv k)
    then show ?thesis using side_ok_drop [OF h(3) assms(2)] by (simp add: is_clone_rcv_def)
  qed (auto intro!: side_ok_pop [OF h(3) assms(2)] simp: is_clone_rcv_def)
  ultimately show ?thesis by (simp add: handles_ok_def)
qed

text \<open>While someone has to send, a sender is alive, and likewise for receiving.\<close>

lemma prog_ok_uses:
  "prog_ok p \<Longrightarrow> i \<in> set p \<Longrightarrow> is_send i \<Longrightarrow> \<exists>h. h \<in> set (snd_drops p)"
  "prog_ok p \<Longrightarrow> i \<in> set p \<Longrightarrow> is_recv_all i \<Longrightarrow> \<exists>h. h \<in> set (rcv_drops p)"
  "prog_ok p \<Longrightarrow> i \<in> set p \<Longrightarrow> is_clone_snd h i \<Longrightarrow> h \<noteq> 0 \<and> 0 \<in> set (snd_drops p)"
  "prog_ok p \<Longrightarrow> i \<in> set p \<Longrightarrow> is_clone_rcv h i \<Longrightarrow> h \<noteq> 0 \<and> 0 \<in> set (rcv_drops p)"
  by (induction p rule: prog_ok.induct) (auto simp: is_send_def is_recv_all_def is_clone_snd_def is_clone_rcv_def)

lemma sender_alive:
  assumes "handles_ok P S R" "i \<in> set (P t)" "is_send i \<or> is_clone_snd k i"
  shows "S \<noteq> {}"
proof -
  note h = handles_okD [OF assms(1)]
  have live: "h \<in> set (snd_drops (P u)) \<Longrightarrow> S \<noteq> {} \<or> (\<exists>u. \<exists>i\<in>set (P u). is_clone_snd h i)" for u h
    using side_okD(3) [OF h(2)] by blast
  obtain k where "k \<in> set (snd_drops (P t))" using prog_ok_uses(1,3) [OF h(1) assms(2)] assms(3) by blast
  then show ?thesis using live prog_ok_uses(3) [OF h(1)] by metis
qed

lemma receiver_alive:
  assumes "handles_ok P S R" "i \<in> set (P t)" "is_recv_all i"
  shows "R \<noteq> {}"
proof -
  note h = handles_okD [OF assms(1)]
  have live: "h \<in> set (rcv_drops (P u)) \<Longrightarrow> R \<noteq> {} \<or> (\<exists>u. \<exists>i\<in>set (P u). is_clone_rcv h i)" for u h
    using side_okD(3) [OF h(3)] by blast
  obtain k where "k \<in> set (rcv_drops (P t))" using prog_ok_uses(2) [OF h(1) assms(2,3)] by blast
  then show ?thesis using live prog_ok_uses(4) [OF h(1)] by metis
qed

text \<open>A send that is tried again.\<close>

lemma side_ok_more:
  assumes "side_ok drops makes P L" "\<And>u. drops (P' u) = drops (P u)" "\<And>u. set (P u) \<subseteq> set (P' u)"
  shows "side_ok drops makes P' L"
proof -
  note d = side_okD [OF assms(1)]
  have "h \<in> L \<or> (\<exists>u. \<exists>i\<in>set (P' u). makes h i)" if "h \<in> set (drops (P t))" for t h
    using d(3) [OF that] assms(3) by blast
  then show ?thesis using d(1,2) unfolding side_ok_def assms(2) by blast
qed

lemma handles_resend:
  assumes "handles_ok P S R" "P t = Send h y # p"
  shows "handles_ok (P(t := Send h x # p)) S R"
proof -
  have pop: "handles_ok (P(t := p)) S R" using handles_pop [OF assms] by simp
  have "prog_ok ((P(t := Send h x # p)) u)" for u using handles_okD(1) [OF assms(1), of u] assms(2) by auto
  moreover have "side_ok snd_drops is_clone_snd (P(t := Send h x # p)) S"
    by (rule side_ok_more [OF handles_okD(2) [OF pop]]) auto
  moreover have "side_ok rcv_drops is_clone_rcv (P(t := Send h x # p)) R"
    by (rule side_ok_more [OF handles_okD(3) [OF pop]]) auto
  ultimately show ?thesis by (simp add: handles_ok_def)
qed

end
