(* ===== verification/Client_Channel.thy ===== *)
theory Client_Channel
  imports Clients
begin

text \<open>
  What a channel promises its clients, as a locale, and what follows for every client program
  that uses its handles as Rust's ownership makes it: nobody panics, and the receivers together
  collect what was sent.
\<close>

section \<open>The laws of a channel\<close>

text \<open>\<open>inside\<close> are the values on offer to receivers; \<open>carried\<close> and \<open>gathered\<close> are those in the hands of
  a thread's send and of its receive; \<open>snds\<close> and \<open>rcvs\<close> are the live handles.\<close>

locale channel =
  fixes call :: "nat \<Rightarrow> 'a chan_op \<Rightarrow> 's \<Rightarrow> 's option"
    and internal :: "nat \<Rightarrow> 'act \<Rightarrow> 's \<Rightarrow> 's option"
    and reply :: "'s \<Rightarrow> nat \<Rightarrow> 'a reply"
    and role :: "'s \<Rightarrow> nat \<Rightarrow> role"
    and ok :: "'s \<Rightarrow> bool"
    and inside :: "'s \<Rightarrow> 'a multiset"
    and carried gathered :: "'s \<Rightarrow> nat \<Rightarrow> 'a multiset"
    and snds rcvs :: "'s \<Rightarrow> nat set"
  assumes ok_call: "ok s \<Longrightarrow> call t op s = Some s' \<Longrightarrow> ok s'"
    and ok_internal: "ok s \<Longrightarrow> internal t a s = Some s' \<Longrightarrow> ok s'"
    and call_others: "ok s \<Longrightarrow> call t op s = Some s' \<Longrightarrow> u \<noteq> t \<Longrightarrow>
        reply s' u = reply s u \<and> role s' u = role s u \<and> carried s' u = carried s u \<and> gathered s' u = gathered s u"
    and call_inside: "ok s \<Longrightarrow> call t op s = Some s' \<Longrightarrow> inside s' = inside s"
    and call_send: "ok s \<Longrightarrow> call t (OSend b h x) s = Some s' \<Longrightarrow>
        role s' t = Sending \<and> carried s' t = {#x#} \<and> snds s' = snds s \<and> rcvs s' = rcvs s"
    and call_recv: "ok s \<Longrightarrow> call t (ORecv b h) s = Some s' \<Longrightarrow>
        role s' t = Receiving \<and> gathered s' t = {#} \<and> snds s' = snds s \<and> rcvs s' = rcvs s"
    and call_clone_snd: "ok s \<Longrightarrow> call t (OCloneSnd h h') s = Some s' \<Longrightarrow>
        role s' t = Neither \<and> snds s' = insert h' (snds s) \<and> rcvs s' = rcvs s"
    and call_drop_snd: "ok s \<Longrightarrow> call t (ODropSnd h) s = Some s' \<Longrightarrow>
        role s' t = Neither \<and> snds s' = snds s - {h} \<and> rcvs s' = rcvs s"
    and call_clone_rcv: "ok s \<Longrightarrow> call t (OCloneRcv h h') s = Some s' \<Longrightarrow>
        role s' t = Neither \<and> snds s' = snds s \<and> rcvs s' = insert h' (rcvs s)"
    and call_drop_rcv: "ok s \<Longrightarrow> call t (ODropRcv h) s = Some s' \<Longrightarrow>
        role s' t = Neither \<and> snds s' = snds s \<and> rcvs s' = rcvs s - {h}"
    and internal_others: "ok s \<Longrightarrow> internal t a s = Some s' \<Longrightarrow> u \<noteq> t \<Longrightarrow>
        reply s' u = reply s u \<and> role s' u = role s u \<and> carried s' u = carried s u \<and> gathered s' u = gathered s u"
    and internal_own: "ok s \<Longrightarrow> internal t a s = Some s' \<Longrightarrow>
        reply s t = Running \<and> role s' t = role s t \<and> snds s' = snds s \<and> rcvs s' = rcvs s"
    and internal_moves: "ok s \<Longrightarrow> internal t a s = Some s' \<Longrightarrow>
        inside s' + carried s' t + gathered s' t = inside s + carried s t + gathered s t"
    and internal_inside: "ok s \<Longrightarrow> internal t a s = Some s' \<Longrightarrow> inside s' \<subseteq># inside s + carried s t"
    and not_sending: "ok s \<Longrightarrow> role s t \<noteq> Sending \<Longrightarrow> carried s t = {#}"
    and not_receiving: "ok s \<Longrightarrow> role s t \<noteq> Receiving \<Longrightarrow> gathered s t = {#}"
    and reply_sent: "ok s \<Longrightarrow> reply s t = Sent \<Longrightarrow> role s t = Sending \<and> carried s t = {#}"
    and reply_rejected: "ok s \<Longrightarrow> reply s t = Rejected x \<Longrightarrow> role s t = Sending \<and> rcvs s = {}"
    and reply_refused: "ok s \<Longrightarrow> reply s t = Refused x \<Longrightarrow> role s t = Sending \<and> carried s t = {#x#}"
    and reply_got: "ok s \<Longrightarrow> reply s t = Got vs \<Longrightarrow> role s t = Receiving \<and> gathered s t = mset vs"
    and reply_closed: "ok s \<Longrightarrow> reply s t = Closed \<Longrightarrow>
        role s t = Receiving \<and> gathered s t = {#} \<and> snds s = {} \<and> inside s = {#}"
    and reply_nothing: "ok s \<Longrightarrow> reply s t = NothingYet \<Longrightarrow> role s t = Receiving \<and> gathered s t = {#}"

section \<open>The account of a client\<close>

text \<open>What thread \<open>t\<close> has not handed over yet, and what it has collected.\<close>

definition holdings :: "('s \<Rightarrow> nat \<Rightarrow> 'a multiset) \<Rightarrow> ('s \<Rightarrow> nat \<Rightarrow> 'a multiset) \<Rightarrow> ('s, 'a) client \<Rightarrow> nat \<Rightarrow> 'a multiset" where
  "holdings carried gathered c t =
     (if waiting c t then carried (chan c) t + gathered (chan c) t + prog_items (tl (prog c t)) else prog_items (prog c t)) +
     mset (acc c t)"

text \<open>A thread inside a call is at the instruction that made the call.\<close>

definition call_matches :: "('s \<Rightarrow> nat \<Rightarrow> 'a reply) \<Rightarrow> ('s \<Rightarrow> nat \<Rightarrow> role) \<Rightarrow> ('s, 'a) client \<Rightarrow> nat \<Rightarrow> bool" where
  "call_matches reply role c t \<longleftrightarrow>
     (if waiting c t
      then (\<exists>h x p. prog c t = Send h x # p \<and> role (chan c) t = Sending) \<or>
           (\<exists>h p. prog c t = RecvAll h # p \<and> role (chan c) t = Receiving)
      else reply (chan c) t \<noteq> Running \<or> role (chan c) t = Neither)"

lemma sum_changed:
  fixes f g :: "nat \<Rightarrow> 'b multiset"
  assumes "finite T" "t \<in> T \<or> x' = x" "\<And>u. u \<noteq> t \<Longrightarrow> g u = f u" "x' + g t = x + f t"
  shows "x' + (\<Sum>u\<in>T. g u) = x + (\<Sum>u\<in>T. f u)"
proof (cases "t \<in> T")
  case True
  have "(\<Sum>u\<in>T - {t}. g u) = (\<Sum>u\<in>T - {t}. f u)" using assms(3) by (intro sum.cong) auto
  then show ?thesis
    using sum.remove [OF assms(1) True, of g] sum.remove [OF assms(1) True, of f] assms(4)
    by (simp add: add.assoc [symmetric])
next
  case False
  then have "(\<Sum>u\<in>T. g u) = (\<Sum>u\<in>T. f u)" using assms(3) by (intro sum.cong refl) metis
  then show ?thesis using False assms(2) by simp
qed

context channel
begin

definition client_inv :: "nat set \<Rightarrow> 'a multiset \<Rightarrow> ('s, 'a) client \<Rightarrow> bool" where
  "client_inv T M c \<longleftrightarrow> ok (chan c) \<and> (\<forall>t. call_matches reply role c t) \<and>
     inside (chan c) + (\<Sum>t\<in>T. holdings carried gathered c t) = M \<and>
     handles_ok (prog c) (snds (chan c)) (rcvs (chan c)) \<and>
     (ended c \<noteq> {} \<longrightarrow> snds (chan c) = {} \<and> inside (chan c) = {#}) \<and>
     (ended c = {} \<longrightarrow> (\<exists>t. \<exists>i\<in>set (prog c t). is_recv_all i)) \<and>
     panicked c = {} \<and> finite T \<and> (\<forall>t. t \<notin> T \<longrightarrow> prog c t = [])"

lemma client_invD:
  assumes "client_inv T M c"
  shows "ok (chan c)" "call_matches reply role c t" "inside (chan c) + (\<Sum>t\<in>T. holdings carried gathered c t) = M"
    "handles_ok (prog c) (snds (chan c)) (rcvs (chan c))"
    "ended c \<noteq> {} \<Longrightarrow> snds (chan c) = {}" "ended c \<noteq> {} \<Longrightarrow> inside (chan c) = {#}"
    "ended c = {} \<Longrightarrow> \<exists>t. \<exists>i\<in>set (prog c t). is_recv_all i"
    "panicked c = {}" "finite T" "t \<notin> T \<Longrightarrow> prog c t = []"
  using assms unfolding client_inv_def by blast+

text \<open>One thread moves: its share and what is inside change together, nobody else's share does.\<close>

lemma client_inv_move:
  assumes inv: "client_inv T M c" and t: "t \<in> T \<or> inside (chan c') = inside (chan c) \<and> prog c' t = prog c t"
    and ok: "ok (chan c')"
    and same: "\<And>u. u \<noteq> t \<Longrightarrow> prog c' u = prog c u \<and> waiting c' u = waiting c u \<and> acc c' u = acc c u \<and>
      reply (chan c') u = reply (chan c) u \<and> role (chan c') u = role (chan c) u \<and>
      carried (chan c') u = carried (chan c) u \<and> gathered (chan c') u = gathered (chan c) u"
    and own: "call_matches reply role c' t"
      "inside (chan c') + holdings carried gathered c' t = inside (chan c) + holdings carried gathered c t"
    and handles: "handles_ok (prog c') (snds (chan c')) (rcvs (chan c'))"
    and ended: "ended c' \<noteq> {} \<Longrightarrow> snds (chan c') = {} \<and> inside (chan c') = {#}"
      "ended c' = {} \<Longrightarrow> ended c = {} \<and> (\<forall>i\<in>set (prog c t) - set (prog c' t). \<not> is_recv_all i)"
    and clean: "panicked c' = {}"
  shows "client_inv T M c'"
proof -
  note d = client_invD [OF inv]
  have "call_matches reply role c' u" for u
  proof (cases "u = t")
    case False
    show ?thesis using d(2) [of u] same [OF False] by (auto simp: call_matches_def split: if_splits)
  qed (use own(1) in simp)
  moreover have "inside (chan c') + (\<Sum>u\<in>T. holdings carried gathered c' u) = M"
    unfolding d(3) [symmetric]
    by (rule sum_changed [where t = t, OF d(9)]) (use t own(2) in \<open>auto simp: holdings_def same\<close>)
  moreover have "\<exists>u. \<exists>i\<in>set (prog c' u). is_recv_all i" if e: "ended c' = {}"
  proof -
    obtain u i where u: "i \<in> set (prog c u)" "is_recv_all i" using d(7) ended(2) [OF e] by blast
    have "i \<in> set (prog c' u)" using ended(2) [OF e] u same [of u] by (cases "u = t") auto
    then show ?thesis using u(2) by blast
  qed
  moreover have "prog c' u = []" if "u \<notin> T" for u
    using d(10) [OF that] same [of u] that t by (cases "u = t") auto
  ultimately show ?thesis
    unfolding client_inv_def using ok handles ended(1) clean d(9) by blast
qed

text \<open>A step of the channel.\<close>

lemma client_inv_inside:
  assumes inv: "client_inv T M c" and st: "internal t a (chan c) = Some s'"
  shows "client_inv T M (c\<lparr>chan := s'\<rparr>)"
proof -
  note d = client_invD [OF inv]
  note own = internal_own [OF d(1) st] and moves = internal_moves [OF d(1) st]
  have idle: "role (chan c) t = Neither" if "\<not> waiting c t" using d(2) [of t] that own by (simp add: call_matches_def)
  have ok': "ok s'" using ok_internal [OF d(1) st] .
  have quiet: "inside s' = inside (chan c)" if "\<not> waiting c t"
    using moves idle [OF that] own not_sending [OF d(1)] not_receiving [OF d(1)] not_sending [OF ok'] not_receiving [OF ok'] by simp
  have "prog c t \<noteq> []" if "waiting c t" using d(2) [of t] that by (auto simp: call_matches_def)
  then have t: "t \<in> T \<or> inside s' = inside (chan c)" using quiet d(10) by blast
  have "inside s' = {#}" if e: "ended c \<noteq> {}"
  proof -
    have "role (chan c) t \<noteq> Sending"
    proof
      assume r: "role (chan c) t = Sending"
      then obtain h x p where "prog c t = Send h x # p"
        using d(2) [of t] idle by (auto simp: call_matches_def split: if_splits)
      then show False using sender_alive [OF d(4), of "Send h x" t] d(5) [OF e] by (simp add: is_send_def)
    qed
    then show ?thesis using internal_inside [OF d(1) st] not_sending [OF d(1)] d(6) [OF e] by simp
  qed
  moreover have "inside s' + holdings carried gathered (c\<lparr>chan := s'\<rparr>) t = inside (chan c) + holdings carried gathered c t"
    using moves quiet by (simp add: holdings_def add.assoc)
  moreover have "call_matches reply role (c\<lparr>chan := s'\<rparr>) t"
    using d(2) [of t] own by (auto simp: call_matches_def split: if_splits)
  ultimately show ?thesis
    using own t internal_others [OF d(1) st] ok' d(4,5,8)
    by (intro client_inv_move [OF inv, where t = t]) simp_all
qed

text \<open>The calls.\<close>

lemma client_inv_call:
  assumes inv: "client_inv T M c" and w: "\<not> waiting c t" and p: "prog c t = i # p"
    and call: "call t op (chan c) = Some s'"
    and i: "(\<exists>h x b. i = Send h x \<and> op = OSend b h x) \<or> (\<exists>h b. i = RecvAll h \<and> op = ORecv b h)"
  shows "client_inv T M (c\<lparr>chan := s', waiting := (waiting c)(t := True)\<rparr>)"
proof -
  note d = client_invD [OF inv]
  have ok': "ok s'" using ok_call [OF d(1) call] .
  have t: "t \<in> T" using d(10) p by force
  have "holdings carried gathered (c\<lparr>chan := s', waiting := (waiting c)(t := True)\<rparr>) t = holdings carried gathered c t \<and>
    call_matches reply role (c\<lparr>chan := s', waiting := (waiting c)(t := True)\<rparr>) t \<and>
    snds s' = snds (chan c) \<and> rcvs s' = rcvs (chan c)"
    using i
  proof (elim disjE exE conjE)
    fix h x b assume "i = Send h x" "op = OSend b h x"
    then show ?thesis
      using call_send [OF d(1)] call p w not_receiving [OF ok', of t] by (auto simp: holdings_def call_matches_def)
  next
    fix h b assume "i = RecvAll h" "op = ORecv b h"
    then show ?thesis
      using call_recv [OF d(1)] call p w not_sending [OF ok', of t] by (auto simp: holdings_def call_matches_def)
  qed
  then show ?thesis
    using t call_others [OF d(1) call] call_inside [OF d(1) call] ok' d(4-6,8)
    by (intro client_inv_move [OF inv, where t = t]) simp_all
qed

lemma client_inv_now:
  assumes inv: "client_inv T M c" and w: "\<not> waiting c t" and p: "prog c t = i # p"
    and call: "call t op (chan c) = Some s'"
    and i: "(\<exists>h h'. i = CloneSnd h h' \<and> op = OCloneSnd h h') \<or> (\<exists>h. i = DropSnd h \<and> op = ODropSnd h) \<or>
      (\<exists>h h'. i = CloneRcv h h' \<and> op = OCloneRcv h h') \<or> (\<exists>h. i = DropRcv h \<and> op = ODropRcv h)"
  shows "client_inv T M (c\<lparr>chan := s', prog := (prog c)(t := p)\<rparr>)"
proof -
  note d = client_invD [OF inv]
  have t: "t \<in> T" using d(10) p by force
  have "role s' t = Neither \<and> snds s' = snds_after i (snds (chan c)) \<and> rcvs s' = rcvs_after i (rcvs (chan c))"
    using i call call_clone_snd [OF d(1)] call_drop_snd [OF d(1)] call_clone_rcv [OF d(1)] call_drop_rcv [OF d(1)]
    by (elim disjE exE conjE) simp_all
  moreover have "prog_items (i # p) = prog_items p" "\<not> is_recv_all i" using i by (auto simp: is_recv_all_def)
  moreover have "snds_after i {} = {} \<or> (\<exists>k. is_clone_snd k i)" by (cases i) (auto simp: is_clone_snd_def)
  then have "snds_after i (snds (chan c)) = {}" if "ended c \<noteq> {}"
    using sender_alive [OF d(4), of i t] p d(5) [OF that] by auto
  ultimately show ?thesis
    using t w p call_others [OF d(1) call] call_inside [OF d(1) call] handles_pop [OF d(4) p] ok_call [OF d(1) call] d(6,8)
    by (intro client_inv_move [OF inv, where t = t]) (simp_all add: holdings_def call_matches_def insert_Diff_if)
qed

lemma client_inv_spawn:
  assumes inv: "client_inv T M c" and w: "\<not> waiting c t" and p: "prog c t = Spawn u # p"
  shows "client_inv T M (c\<lparr>spawned := insert u (spawned c), prog := (prog c)(t := p)\<rparr>)"
proof -
  note d = client_invD [OF inv]
  have "t \<in> T" using d(10) p by force
  then show ?thesis
    using w p handles_pop [OF d(4) p] d(1,5,6,8) d(2) [of t]
    by (intro client_inv_move [OF inv, where t = t])
      (simp_all add: holdings_def call_matches_def insert_Diff_if is_recv_all_def)
qed

text \<open>The results.\<close>

lemma not_rejected:
  assumes inv: "client_inv T M c" and p: "prog c t = Send h x # p"
  shows "rcvs (chan c) \<noteq> {}"
proof -
  note d = client_invD [OF inv]
  have "snds (chan c) \<noteq> {}" using sender_alive [OF d(4), of "Send h x" t] p by (simp add: is_send_def)
  then obtain u i where "i \<in> set (prog c u)" "is_recv_all i" using d(5,7) by blast
  then show ?thesis using receiver_alive [OF d(4)] by blast
qed

lemma client_inv_reply_send:
  assumes inv: "client_inv T M c" and w: "waiting c t" and p: "prog c t = Send h x # p"
    and st: "client_reply t (reply (chan c) t) c = Some c'" and r: "role (chan c) t = Sending"
  shows "client_inv T M c'"
proof -
  note d = client_invD [OF inv]
  note laws = reply_sent [OF d(1), of t] reply_rejected [OF d(1), of t] reply_refused [OF d(1), of t]
    reply_got [OF d(1), of t] reply_closed [OF d(1), of t] reply_nothing [OF d(1), of t]
  have t: "t \<in> T" using d(10) p by force
  have g: "gathered (chan c) t = {#}" using not_receiving [OF d(1)] r by simp
  show ?thesis
  proof (cases "reply (chan c) t")
    case Sent
    then have c': "c' = c\<lparr>prog := (prog c)(t := p), waiting := (waiting c)(t := False)\<rparr>" using st p by simp
    show ?thesis
      unfolding c' using t p w g laws(1) [OF Sent] Sent handles_pop [OF d(4) p] d(1,5,6,8)
      by (intro client_inv_move [OF inv, where t = t])
        (simp_all add: holdings_def call_matches_def insert_Diff_if is_recv_all_def)
  next
    case (Rejected y)
    then show ?thesis using laws(2) not_rejected [OF inv p] by blast
  next
    case (Refused y)
    then have c': "c' = c\<lparr>prog := (prog c)(t := Send h y # p), waiting := (waiting c)(t := False)\<rparr>" using st p by simp
    have "\<forall>i\<in>set (prog c t) - set (Send h y # p). \<not> is_recv_all i" using p by (auto simp: is_recv_all_def)
    then show ?thesis
      unfolding c' using t p w g laws(3) [OF Refused] Refused handles_resend [OF d(4) p] d(1,5,6,8)
      by (intro client_inv_move [OF inv, where t = t]) (simp_all add: holdings_def call_matches_def)
  qed (use laws st r in simp_all)
qed

lemma client_inv_reply_recv:
  assumes inv: "client_inv T M c" and w: "waiting c t" and p: "prog c t = RecvAll h # p"
    and st: "client_reply t (reply (chan c) t) c = Some c'" and r: "role (chan c) t = Receiving"
  shows "client_inv T M c'"
proof -
  note d = client_invD [OF inv]
  note laws = reply_sent [OF d(1), of t] reply_rejected [OF d(1), of t] reply_refused [OF d(1), of t]
    reply_got [OF d(1), of t] reply_closed [OF d(1), of t] reply_nothing [OF d(1), of t]
  have t: "t \<in> T" using d(10) p by force
  have g: "carried (chan c) t = {#}" using not_sending [OF d(1)] r by simp
  show ?thesis
  proof (cases "reply (chan c) t")
    case (Got vs)
    then have c': "c' = c\<lparr>acc := (acc c)(t := acc c t @ vs), waiting := (waiting c)(t := False)\<rparr>" using st by simp
    show ?thesis
      unfolding c' using t p w g laws(4) [OF Got] Got d(1,4,5,6,8)
      by (intro client_inv_move [OF inv, where t = t]) (simp_all add: holdings_def call_matches_def)
  next
    case Closed
    then have c': "c' = c\<lparr>prog := (prog c)(t := p), waiting := (waiting c)(t := False), ended := insert t (ended c)\<rparr>"
      using st p by simp
    show ?thesis
      unfolding c' using t p w g laws(5) [OF Closed] Closed handles_pop [OF d(4) p] d(1,8)
      by (intro client_inv_move [OF inv, where t = t]) (simp_all add: holdings_def call_matches_def)
  next
    case NothingYet
    then have c': "c' = c\<lparr>waiting := (waiting c)(t := False)\<rparr>" using st by simp
    show ?thesis
      unfolding c' using t p w g laws(6) [OF NothingYet] NothingYet d(1,4,5,6,8)
      by (intro client_inv_move [OF inv, where t = t]) (simp_all add: holdings_def call_matches_def)
  qed (use laws st r in simp_all)
qed

lemma client_inv_begin:
  assumes inv: "client_inv T M c" and w: "\<not> waiting c t" and p: "prog c t = i # p"
    and st: "client_begin call poly t i c = Some c'"
  shows "client_inv T M c'"
proof (cases i)
  case (Spawn u)
  then show ?thesis using client_inv_spawn [OF inv w] p st by auto
qed (use st p in \<open>auto simp: client_call_def client_now_def intro!: client_inv_call [OF inv w p] client_inv_now [OF inv w p]\<close>)

lemma client_inv_step:
  assumes inv: "client_inv T M c" and st: "client_step call internal reply poly m c = Some c'"
  shows "client_inv T M c'"
proof (cases m)
  case (Inside t a)
  then show ?thesis using st client_inv_inside [OF inv] by auto
next
  case (Go t)
  show ?thesis
  proof (cases "waiting c t")
    case True
    then have "client_reply t (reply (chan c) t) c = Some c'" using st Go by (simp split: if_splits)
    then show ?thesis
      using True client_invD(2) [OF inv, of t] client_inv_reply_send [OF inv True] client_inv_reply_recv [OF inv True]
      by (auto simp: call_matches_def)
  next
    case False
    then show ?thesis using st Go client_inv_begin [OF inv False] by (auto split: if_splits list.splits)
  qed
qed

lemma client_inv_start:
  assumes "client_ok T P" "ok s" "inside s = {#}" "snds s = {0}" "rcvs s = {0}" "\<And>t. reply s t \<noteq> Running"
  shows "client_inv T (\<Sum>t\<in>T. prog_items (P t)) (client_start s P)"
  using assms by (simp add: client_inv_def client_start_def client_ok_def call_matches_def holdings_def)

section \<open>What every client can rely on\<close>

theorem client_delivers:
  assumes "client_reachable call internal reply poly (client_start s P) c"
    and "client_ok T P" "ok s" "inside s = {#}" "snds s = {0}" "rcvs s = {0}" "\<And>t. reply s t \<noteq> Running"
  shows "panicked c = {}"
    "\<forall>t. \<forall>i\<in>set (prog c t). \<not> is_recv_all i \<Longrightarrow> (\<Sum>t\<in>T. mset (acc c t)) = (\<Sum>t\<in>T. prog_items (P t))"
proof -
  have inv: "client_inv T (\<Sum>t\<in>T. prog_items (P t)) c"
    using assms(1) by induction (use client_inv_start [OF assms(2-7)] client_inv_step in blast)+
  note d = client_invD [OF inv]
  show "panicked c = {}" by (rule d(8))
  assume fin: "\<forall>t. \<forall>i\<in>set (prog c t). \<not> is_recv_all i"
  then have e: "ended c \<noteq> {}" using d(7) by blast
  have ns: "\<not> is_send i" if "i \<in> set (prog c t)" for i t
    using sender_alive [OF d(4) that] d(5) [OF e] by blast
  have "\<not> waiting c t" for t
  proof
    assume "waiting c t"
    then obtain i where "i \<in> set (prog c t)" "is_send i \<or> is_recv_all i"
      using d(2) [of t] by (fastforce simp: call_matches_def is_send_def is_recv_all_def)
    then show False using ns fin by blast
  qed
  moreover have "prog_items p = {#}" if "\<forall>i\<in>set p. \<not> is_send i" for p :: "'a instr list"
    using that by (induction p rule: prog_items.induct) (auto simp: is_send_def)
  ultimately have "holdings carried gathered c t = mset (acc c t)" for t
    using ns by (simp add: holdings_def)
  then show "(\<Sum>t\<in>T. mset (acc c t)) = (\<Sum>t\<in>T. prog_items (P t))" using d(3) d(6) [OF e] by simp
qed

end

section \<open>Fewer calls, a stronger invariant\<close>

lemma channel_restrict:
  assumes ch: "channel call internal reply role ok inside carried gathered snds rcvs"
    and ok: "\<And>s. ok' s \<Longrightarrow> ok s" and less: "\<And>t op s s'. call' t op s = Some s' \<Longrightarrow> call t op s = Some s'"
    and keeps: "\<And>t op s s'. ok' s \<Longrightarrow> call' t op s = Some s' \<Longrightarrow> ok' s'"
      "\<And>t a s s'. ok' s \<Longrightarrow> internal t a s = Some s' \<Longrightarrow> ok' s'"
  shows "channel call' internal reply role ok' inside carried gathered snds rcvs"
proof (rule channel.intro, goal_cases)
  case 1 then show ?case by (rule keeps(1))
next
  case 2 then show ?case by (rule keeps(2))
next
  case 3 show ?case by (rule channel.call_others [OF ch ok [OF 3(1)] less [OF 3(2)] 3(3)])
next
  case 4 show ?case by (rule channel.call_inside [OF ch ok [OF 4(1)] less [OF 4(2)]])
next
  case 5 show ?case by (rule channel.call_send [OF ch ok [OF 5(1)] less [OF 5(2)]])
next
  case 6 show ?case by (rule channel.call_recv [OF ch ok [OF 6(1)] less [OF 6(2)]])
next
  case 7 show ?case by (rule channel.call_clone_snd [OF ch ok [OF 7(1)] less [OF 7(2)]])
next
  case 8 show ?case by (rule channel.call_drop_snd [OF ch ok [OF 8(1)] less [OF 8(2)]])
next
  case 9 show ?case by (rule channel.call_clone_rcv [OF ch ok [OF 9(1)] less [OF 9(2)]])
next
  case 10 show ?case by (rule channel.call_drop_rcv [OF ch ok [OF 10(1)] less [OF 10(2)]])
next
  case 11 show ?case by (rule channel.internal_others [OF ch ok [OF 11(1)] 11(2,3)])
next
  case 12 show ?case by (rule channel.internal_own [OF ch ok [OF 12(1)] 12(2)])
next
  case 13 show ?case by (rule channel.internal_moves [OF ch ok [OF 13(1)] 13(2)])
next
  case 14 show ?case by (rule channel.internal_inside [OF ch ok [OF 14(1)] 14(2)])
next
  case 15 show ?case by (rule channel.not_sending [OF ch ok [OF 15(1)] 15(2)])
next
  case 16 show ?case by (rule channel.not_receiving [OF ch ok [OF 16(1)] 16(2)])
next
  case 17 show ?case by (rule channel.reply_sent [OF ch ok [OF 17(1)] 17(2)])
next
  case 18 show ?case by (rule channel.reply_rejected [OF ch ok [OF 18(1)] 18(2)])
next
  case 19 show ?case by (rule channel.reply_refused [OF ch ok [OF 19(1)] 19(2)])
next
  case 20 show ?case by (rule channel.reply_got [OF ch ok [OF 20(1)] 20(2)])
next
  case 21 show ?case by (rule channel.reply_closed [OF ch ok [OF 21(1)] 21(2)])
next
  case 22 show ?case by (rule channel.reply_nothing [OF ch ok [OF 22(1)] 22(2)])
qed

end
