(* ===== verification/Client_Tests.thy ===== *)
theory Client_Tests
  imports Client_Channel
begin

text \<open>
  The clients that the multi-threaded tests of \<^verbatim>\<open>bags/src/mpmc.rs\<close> and \<^verbatim>\<open>bags/src/slot.rs\<close>
  run, for any number of threads and values: \<^verbatim>\<open>basic\<close>, with several senders and one receiver, and
  \<^verbatim>\<open>take_one_down_pass_it_around\<close>, with several of both.  Thread 0 is the test itself; a closure
  drops the handles it has captured when it returns.
\<close>

section \<open>The programs\<close>

text \<open>A spawned sender, a spawned receiver.\<close>

definition sender_prog :: "nat \<Rightarrow> 'a list \<Rightarrow> 'a instr list" where
  "sender_prog h xs = map (Send h) xs @ [DropSnd h]"

definition receiver_prog :: "nat \<Rightarrow> 'a instr list" where
  "receiver_prog h = [RecvAll h, DropRcv h]"

text \<open>\<^verbatim>\<open>basic\<close>: \<open>k\<close> senders of the same values, the receiver is the last thread.\<close>

definition basic_main :: "nat \<Rightarrow> 'a instr list" where
  "basic_main k = concat (map (\<lambda>u. [CloneSnd 0 u, Spawn u]) [1..<Suc k]) @ [DropSnd 0, Spawn (Suc k)]"

definition basic_prog :: "nat \<Rightarrow> 'a list \<Rightarrow> nat \<Rightarrow> 'a instr list" where
  "basic_prog k xs t =
     (if t = 0 then basic_main k
      else if t \<le> k then sender_prog t xs
      else if t = Suc k then receiver_prog 0
      else [])"

text \<open>\<^verbatim>\<open>take_one_down_pass_it_around\<close>: \<open>k\<close> writers and \<open>k\<close> readers, each with a handle of its own;
  the writers are the odd threads, the readers the even ones.\<close>

definition pass_main :: "nat \<Rightarrow> 'a instr list" where
  "pass_main k = concat (map (\<lambda>j. [CloneSnd 0 (Suc j), Spawn (2 * j + 1), CloneRcv 0 (Suc j), Spawn (2 * j + 2)]) [0..<k]) @
     [DropSnd 0, DropRcv 0]"

definition pass_prog :: "nat \<Rightarrow> (nat \<Rightarrow> 'a list) \<Rightarrow> nat \<Rightarrow> 'a instr list" where
  "pass_prog k F t =
     (if t = 0 then pass_main k
      else if t > 2 * k then []
      else if odd t then sender_prog (Suc (t div 2)) (F (t div 2))
      else receiver_prog (t div 2))"

text \<open>The tests send the numbers below 1000, and the numbers below 3000 shared out by residue.\<close>

definition basic_test :: "nat \<Rightarrow> nat \<Rightarrow> nat \<Rightarrow> nat instr list" where
  "basic_test k n = basic_prog k [0..<n]"

definition pass_test :: "nat \<Rightarrow> nat \<Rightarrow> nat \<Rightarrow> nat instr list" where
  "pass_test k n = pass_prog k (\<lambda>j. filter (\<lambda>i. i mod k = j) [0..<n])"

section \<open>They use their handles well\<close>

lemma prog_simps [simp]:
  "prog_items (p @ q) = prog_items p + prog_items q" "snd_drops (p @ q) = snd_drops p @ snd_drops q"
  "rcv_drops (p @ q) = rcv_drops p @ rcv_drops q"
  by (induction p rule: prog_items.induct) simp_all

lemma prog_ok_append: "prog_ok p \<Longrightarrow> prog_ok q \<Longrightarrow> prog_ok (p @ q)"
  by (induction p rule: prog_ok.induct) auto

lemma send_prog [simp]:
  "prog_items (map (Send h) xs) = mset xs" "snd_drops (map (Send h) xs) = []" "rcv_drops (map (Send h) xs) = []"
  by (induction xs) simp_all

lemma sender_prog_facts [simp]:
  "prog_items (sender_prog h xs) = mset xs" "snd_drops (sender_prog h xs) = [h]" "rcv_drops (sender_prog h xs) = []"
  "prog_ok (sender_prog h xs)" "is_recv_all i \<Longrightarrow> i \<notin> set (sender_prog h xs)"
proof -
  show "prog_ok (sender_prog h xs)" by (induction xs) (simp_all add: sender_prog_def)
qed (auto simp: sender_prog_def is_recv_all_def)

lemma receiver_prog_facts [simp]:
  "prog_items (receiver_prog h) = {#}" "snd_drops (receiver_prog h) = []" "rcv_drops (receiver_prog h) = [h]"
  "prog_ok (receiver_prog h)" "set (receiver_prog h) = {RecvAll h, DropRcv h}"
  by (simp_all add: receiver_prog_def)

lemma basic_loop:
  "prog_items (concat (map (\<lambda>u. [CloneSnd 0 u, Spawn u]) us)) = {#}"
  "snd_drops (concat (map (\<lambda>u. [CloneSnd 0 u, Spawn u]) us)) = []"
  "rcv_drops (concat (map (\<lambda>u. [CloneSnd 0 u, Spawn u]) us)) = []"
  "prog_ok (concat (map (\<lambda>u. [CloneSnd 0 u, Spawn u]) us) @ [DropSnd 0, Spawn v]) \<longleftrightarrow> 0 \<notin> set us"
  by (induction us) auto

lemma basic_main_facts [simp]:
  "prog_items (basic_main k) = {#}" "snd_drops (basic_main k) = [0]" "rcv_drops (basic_main k) = []" "prog_ok (basic_main k)"
  "is_recv_all i \<Longrightarrow> i \<notin> set (basic_main k)"
  "1 \<le> u \<Longrightarrow> u \<le> k \<Longrightarrow> CloneSnd 0 u \<in> set (basic_main k)"
  unfolding basic_main_def using basic_loop(4) [of "[1..<Suc k]"]
  by (auto simp: basic_loop is_recv_all_def)

lemma basic_ok: "client_ok {..Suc k} (basic_prog k xs)"
proof -
  have snd: "snd_drops (basic_prog k xs t) = (if t \<le> k then [t] else [])" for t
    by (simp add: basic_prog_def)
  have rcv: "rcv_drops (basic_prog k xs t) = (if t = Suc k then [0] else [])" for t
    by (simp add: basic_prog_def)
  have "\<exists>u. \<exists>i\<in>set (basic_prog k xs u). is_clone_snd t i" if "1 \<le> t" "t \<le> k" for t
    using basic_main_facts(6) [OF that] by (intro exI [of _ 0] bexI [of _ "CloneSnd 0 t"])
      (simp_all add: basic_prog_def is_clone_snd_def)
  then have "h = 0 \<or> (\<exists>u. \<exists>i\<in>set (basic_prog k xs u). is_clone_snd h i)" if "h \<le> k" for h
    using that by (cases "h = 0") auto
  then have "side_ok snd_drops is_clone_snd (basic_prog k xs) {0}"
    unfolding side_ok_def snd by simp
  moreover have "side_ok rcv_drops is_clone_rcv (basic_prog k xs) {0}"
    unfolding side_ok_def rcv by simp
  moreover have "\<exists>t. \<exists>i\<in>set (basic_prog k xs t). is_recv_all i"
    by (intro exI [of _ "Suc k"]) (simp add: basic_prog_def is_recv_all_def)
  ultimately show ?thesis
    by (auto simp: client_ok_def handles_ok_def basic_prog_def)
qed

lemma basic_items: "(\<Sum>t\<in>{..Suc k}. prog_items (basic_prog k xs t)) = repeat_mset k (mset xs)"
proof -
  have "(\<Sum>t\<in>{..Suc k}. prog_items (basic_prog k xs t)) = (\<Sum>t\<in>{1..k}. mset xs)"
    by (rule sum.mono_neutral_cong_right) (auto simp: basic_prog_def)
  also have "\<dots> = repeat_mset k (mset xs)" by (induction k) simp_all
  finally show ?thesis .
qed

lemma pass_loop:
  fixes js :: "nat list"
  defines "p \<equiv> concat (map (\<lambda>j. [CloneSnd 0 (Suc j), Spawn (2 * j + 1), CloneRcv 0 (Suc j), Spawn (2 * j + 2)]) js)"
  shows "prog_items p = {#}" "snd_drops p = []" "rcv_drops p = []" "prog_ok (p @ [DropSnd 0, DropRcv 0])"
  unfolding p_def by (induction js) auto

lemma pass_main_facts [simp]:
  "prog_items (pass_main k) = {#}" "snd_drops (pass_main k) = [0]" "rcv_drops (pass_main k) = [0]" "prog_ok (pass_main k)"
  "is_recv_all i \<Longrightarrow> i \<notin> set (pass_main k)"
  "j < k \<Longrightarrow> CloneSnd 0 (Suc j) \<in> set (pass_main k)" "j < k \<Longrightarrow> CloneRcv 0 (Suc j) \<in> set (pass_main k)"
  unfolding pass_main_def using pass_loop [of "[0..<k]"]
  by (auto simp: is_recv_all_def)

lemma pass_cases:
  fixes t k :: nat
  obtains "t = 0" | "2 * k < t" | j where "t = 2 * j + 1" "j < k" | j where "t = 2 * j + 2" "j < k"
proof (cases "t = 0 \<or> 2 * k < t")
  case False
  then show ?thesis
  proof (cases "odd t")
    case True
    then obtain j where "t = 2 * j + 1" by (rule oddE)
    then show ?thesis using that(3) [of j] False by auto
  next
    case ev: False
    then obtain j where "t = 2 * j" by blast
    then show ?thesis using that(4) [of "j - 1"] False by auto
  qed
qed (use that in blast)

lemma pass_prog_simps [simp]:
  "pass_prog k F 0 = pass_main k" "2 * k < t \<Longrightarrow> pass_prog k F t = []"
  "j < k \<Longrightarrow> pass_prog k F (Suc (2 * j)) = sender_prog (Suc j) (F j)"
  "j < k \<Longrightarrow> pass_prog k F (Suc (Suc (2 * j))) = receiver_prog (Suc j)"
  by (simp_all add: pass_prog_def)

lemma pass_ok: "0 < k \<Longrightarrow> client_ok {..2 * k} (pass_prog k F)"
proof -
  assume k: "0 < k"
  have snd: "snd_drops (pass_prog k F t) = (if t = 0 then [0] else if t \<le> 2 * k \<and> odd t then [Suc (t div 2)] else [])" for t
    by (rule pass_cases [where t = t and k = k]) auto
  have rcv: "rcv_drops (pass_prog k F t) = (if t = 0 then [0] else if t \<le> 2 * k \<and> even t then [t div 2] else [])" for t
    by (rule pass_cases [where t = t and k = k]) auto
  have ms: "\<exists>u. \<exists>i\<in>set (pass_prog k F u). is_clone_snd (Suc j) i" "\<exists>u. \<exists>i\<in>set (pass_prog k F u). is_clone_rcv (Suc j) i"
    if "j < k" for j
    using pass_main_facts(6,7) [OF that] pass_prog_simps(1) [of k F] unfolding is_clone_snd_def is_clone_rcv_def by metis+
  have "side_ok snd_drops is_clone_snd (pass_prog k F) {0}"
    unfolding side_ok_def snd using ms(1) by (auto split: if_splits elim!: oddE)
  moreover have "side_ok rcv_drops is_clone_rcv (pass_prog k F) {0}"
  proof -
    have "h = 0 \<or> (\<exists>u. \<exists>i\<in>set (pass_prog k F u). is_clone_rcv h i)" if "h \<in> set (rcv_drops (pass_prog k F t))" for t h
      using that ms(2) [of "h - 1"] unfolding rcv by (auto split: if_splits elim!: evenE)
    then show ?thesis
      unfolding side_ok_def rcv by (auto split: if_splits elim!: evenE)
  qed
  moreover have "prog_ok (pass_prog k F t)" for t by (rule pass_cases [where t = t and k = k]) auto
  moreover have "\<exists>t. \<exists>i\<in>set (pass_prog k F t). is_recv_all i"
    using pass_prog_simps(4) [OF k, of F] by (intro exI [of _ 2]) (auto simp: is_recv_all_def numeral_2_eq_2)
  ultimately show ?thesis by (simp add: client_ok_def handles_ok_def)
qed

lemma count_filter_upt: "count (mset (filter P [0..<n])) i = (if i < n \<and> P i then 1 else 0)"
  by (induction n) (auto simp: less_Suc_eq)

lemma residues:
  assumes "0 < k"
  shows "(\<Sum>j<k. mset (filter (\<lambda>i. i mod k = j) [0..<n])) = mset [0..<n]"
proof (rule multiset_eqI)
  fix i
  have "count (\<Sum>j<k. mset (filter (\<lambda>i. i mod k = j) [0..<n])) i = (\<Sum>j<k. if i < n \<and> i mod k = j then 1 else 0)"
    by (simp only: count_sum count_filter_upt)
  also have "\<dots> = (if i < n then 1 else 0)" using assms by (simp add: sum.delta)
  also have "\<dots> = count (mset [0..<n]) i" using count_filter_upt [of "\<lambda>_. True" n i] by simp
  finally show "count (\<Sum>j<k. mset (filter (\<lambda>i. i mod k = j) [0..<n])) i = count (mset [0..<n]) i" .
qed

lemma sum_pass:
  fixes f :: "nat \<Rightarrow> 'b::comm_monoid_add"
  shows "(\<Sum>t\<in>{..2 * k}. f t) = f 0 + (\<Sum>j<k. f (Suc (2 * j))) + (\<Sum>j<k. f (Suc (Suc (2 * j))))"
proof (induction k)
  case (Suc k)
  have "{..2 * Suc k} = insert (Suc (Suc (2 * k))) (insert (Suc (2 * k)) {..2 * k})" by auto
  then show ?case using Suc.IH by (simp add: add_ac)
qed simp

lemma pass_items: "(\<Sum>t\<in>{..2 * k}. prog_items (pass_prog k F t)) = (\<Sum>j<k. mset (F j))"
  by (simp add: sum_pass)

section \<open>What the tests assert\<close>

context channel
begin

text \<open>No loop that receives is ever added to a program.\<close>

lemma client_step_recvs:
  assumes st: "client_step call internal reply poly m c = Some c'" and i: "i \<in> set (prog c' u)" "is_recv_all i"
  shows "i \<in> set (prog c u)"
proof (cases m)
  case (Go t)
  show ?thesis
  proof (cases "waiting c t")
    case True
    then have st: "client_reply t (reply (chan c) t) c = Some c'" using st Go by (simp split: if_splits)
    then show ?thesis
      using i list.set_sel(2) [of "prog c u"]
      by (cases "reply (chan c) t"; cases "t = u"; cases "prog c t")
        (auto simp: is_recv_all_def split: instr.splits)
  next
    case False
    then obtain j p where p: "prog c t = j # p" "client_begin call poly t j c = Some c'"
      using st Go by (auto split: if_splits list.splits)
    then show ?thesis using i
      by (cases j; cases "t = u") (auto simp: client_call_def client_now_def)
  qed
qed (use st i in auto)

lemma client_recvs:
  assumes "client_reachable call internal reply poly (client_start s P) c" "is_recv_all i"
  shows "i \<in> set (prog c u) \<Longrightarrow> i \<in> set (P u)"
  using assms(1) by induction (use client_step_recvs [OF _ _ assms(2)] in \<open>auto simp: client_start_def\<close>)

text \<open>A thread whose program receives nothing collects nothing.\<close>

lemma client_step_collects:
  assumes inv: "client_inv T M c" and st: "client_step call internal reply poly m c = Some c'"
    and none: "\<forall>i\<in>set (prog c u). \<not> is_recv_all i" "acc c u = []"
  shows "acc c' u = []"
proof (cases m)
  case (Inside t a)
  then show ?thesis using st none by auto
next
  case (Go t)
  have d: "ok (chan c)" "call_matches reply role c t" using client_invD(1,2) [OF inv] by blast+
  show ?thesis
  proof (cases "waiting c t")
    case True
    then have st: "client_reply t (reply (chan c) t) c = Some c'" using st Go by (simp split: if_splits)
    have "t = u \<Longrightarrow> \<exists>h x p. prog c t = Send h x # p \<and> role (chan c) t = Sending"
      using d(2) True none(1) by (auto simp: call_matches_def is_recv_all_def)
    then show ?thesis
      using st none(2) reply_got [OF d(1), of t]
      by (cases "reply (chan c) t"; cases "t = u") (auto split: list.splits instr.splits)
  next
    case False
    then obtain i p where p: "prog c t = i # p" "client_begin call poly t i c = Some c'"
      using st Go by (auto split: if_splits list.splits)
    then show ?thesis using none(2)
      by (cases i) (auto simp: client_call_def client_now_def)
  qed
qed

lemma client_collectors:
  assumes "client_reachable call internal reply poly (client_start s P) c"
    and "client_ok T P" "ok s" "inside s = {#}" "snds s = {0}" "rcvs s = {0}" "\<And>t. reply s t \<noteq> Running"
    and none: "\<forall>i\<in>set (P u). \<not> is_recv_all i"
  shows "acc c u = []"
proof -
  have "client_inv T (\<Sum>t\<in>T. prog_items (P t)) c \<and> acc c u = []"
    using assms(1)
  proof induction
    case client_init
    then show ?case using client_inv_start [OF assms(2-7)] by (simp add: client_start_def)
  next
    case (client_next c m c')
    have "\<forall>i\<in>set (prog c u). \<not> is_recv_all i" using client_recvs [OF client_next.hyps(1)] none by blast
    then show ?case
      using client_next.IH client_step_collects [OF _ client_next.hyps(2)] client_inv_step [OF _ client_next.hyps(2)] by blast
  qed
  then show ?thesis by blast
qed

lemma basic_delivers:
  assumes "client_reachable call internal reply poly (client_start s (basic_prog k xs)) c"
    and "ok s" "inside s = {#}" "snds s = {0}" "rcvs s = {0}" "\<And>t. reply s t \<noteq> Running"
  shows "panicked c = {}"
    "RecvAll 0 \<notin> set (prog c (Suc k)) \<Longrightarrow> mset (acc c (Suc k)) = repeat_mset k (mset xs)"
proof -
  note start = basic_ok [of k xs] assms(2-6)
  show "panicked c = {}" by (rule client_delivers(1) [OF assms(1) start])
  assume r: "RecvAll 0 \<notin> set (prog c (Suc k))"
  have none: "acc c t = []" if "t \<noteq> Suc k" for t
    using that by (intro client_collectors [OF assms(1) start]) (auto simp: basic_prog_def)
  have "\<not> is_recv_all i" if i: "i \<in> set (prog c t)" for t i
  proof
    assume a: "is_recv_all i"
    then have "i \<in> set (basic_prog k xs t)" using client_recvs [OF assms(1) _ i] by simp
    then have "t = Suc k \<and> i = RecvAll 0" using a by (auto simp: basic_prog_def is_recv_all_def split: if_splits)
    then show False using r i by simp
  qed
  then have "(\<Sum>t\<in>{..Suc k}. mset (acc c t)) = repeat_mset k (mset xs)"
    using client_delivers(2) [OF assms(1) start] basic_items [of k xs] by simp
  moreover have "(\<Sum>t\<in>{..Suc k}. mset (acc c t)) = mset (acc c (Suc k))"
    using none by simp
  ultimately show "mset (acc c (Suc k)) = repeat_mset k (mset xs)" by simp
qed

lemma pass_delivers:
  assumes "client_reachable call internal reply poly (client_start s (pass_prog k F)) c" "0 < k"
    and "ok s" "inside s = {#}" "snds s = {0}" "rcvs s = {0}" "\<And>t. reply s t \<noteq> Running"
  shows "panicked c = {}"
    "\<forall>j<k. RecvAll (Suc j) \<notin> set (prog c (2 * j + 2)) \<Longrightarrow> (\<Sum>j<k. mset (acc c (2 * j + 2))) = (\<Sum>j<k. mset (F j))"
proof -
  note start = pass_ok [OF assms(2), of F] assms(3-7)
  show "panicked c = {}" by (rule client_delivers(1) [OF assms(1) start])
  assume r: "\<forall>j<k. RecvAll (Suc j) \<notin> set (prog c (2 * j + 2))"
  have none: "acc c 0 = []" "j < k \<Longrightarrow> acc c (Suc (2 * j)) = []" for j
    by (intro client_collectors [OF assms(1) start]; auto)+
  have "\<not> is_recv_all i" if i: "i \<in> set (prog c t)" for t i
  proof
    assume a: "is_recv_all i"
    then have i': "i \<in> set (pass_prog k F t)" using client_recvs [OF assms(1) _ i] by simp
    show False
    proof (rule pass_cases [where t = t and k = k])
      fix j assume "t = 2 * j + 2" "j < k"
      then show False using i' a r i by (auto simp: is_recv_all_def)
    qed (use i' a in auto)
  qed
  then have "(\<Sum>t\<in>{..2 * k}. mset (acc c t)) = (\<Sum>j<k. mset (F j))"
    using client_delivers(2) [OF assms(1) start] pass_items [of k F] by simp
  then show "(\<Sum>j<k. mset (acc c (2 * j + 2))) = (\<Sum>j<k. mset (F j))"
    using none by (simp add: sum_pass)
qed

end

end
