(* ===== verification/Mpmc_Clients.thy ===== *)
theory Mpmc_Clients
  imports Mpmc_Refine Client_Tests
begin

text \<open>
  The bag of \<^verbatim>\<open>bags/src/mpmc.rs\<close> under its clients: its calls, its steps and its results are a
  \<open>channel\<close>, so with the clients of \<open>Clients\<close>, and however their threads interleave, nobody panics and
  the receivers collect what was sent.  The tests \<^verbatim>\<open>basic\<close> and
  \<^verbatim>\<open>take_one_down_pass_it_around\<close> are two such clients.
\<close>

section \<open>Calls, results and values in hand\<close>

text \<open>The client sends single values; the loop of \<^verbatim>\<open>send_polyfill\<close> passes the value that
  \<^verbatim>\<open>Full\<close> returns to the next \<^verbatim>\<open>try_send\<close>.\<close>

fun mpmc_op :: "'a chan_op \<Rightarrow> 'a call" where
  "mpmc_op (OSend b h x) = (if b then CallSend h (Item (Some x)) else CallTrySend h (Item (Some x)))"
| "mpmc_op (ORecv b h) = (if b then CallRecv h else CallTryRecv h)"
| "mpmc_op (OCloneSnd h h') = CloneSender h h'"
| "mpmc_op (ODropSnd h) = DropSender h"
| "mpmc_op (OCloneRcv h h') = CloneReceiver h h'"
| "mpmc_op (ODropRcv h) = DropReceiver h"

fun next_state :: "'a outcome \<Rightarrow> 'a sys option" where
  "next_state (Next s) = Some s"
| "next_state _ = None"

definition mpmc_call :: "bool \<Rightarrow> nat \<Rightarrow> 'a chan_op \<Rightarrow> 'a sys \<Rightarrow> 'a sys option" where
  "mpmc_call x86_64 t op s = next_state (step x86_64 t (Start (mpmc_op op)) s)"

definition mpmc_internal :: "bool \<Rightarrow> nat \<Rightarrow> 'a action \<Rightarrow> 'a sys \<Rightarrow> 'a sys option" where
  "mpmc_internal x86_64 t a s = (if ready (threads s t) then None else next_state (step x86_64 t a s))"

fun reply_pc :: "'a pc \<Rightarrow> 'a reply" where
  "reply_pc Idle = Quiet"
| "reply_pc (SendRet (SendOk d)) = Sent"
| "reply_pc (SendRet (SendDisconnected (Item (Some x)))) = Rejected x"
| "reply_pc (SendRet (SendFull (Item (Some x)))) = Refused x"
| "reply_pc (SendRet _) = Quiet"
| "reply_pc (RecvRet (RecvOk vs)) = Got vs"
| "reply_pc (RecvRet RecvDisconnected) = Closed"
| "reply_pc (RecvRet RecvEmpty) = NothingYet"
| "reply_pc _ = Running"

fun role_pc :: "'a pc \<Rightarrow> role" where
  "role_pc (SendRet r) = Sending"
| "role_pc (RecvRet r) = Receiving"
| "role_pc p = (if scall_of p \<noteq> None then Sending else if rcall_of p \<noteq> None then Receiving else Neither)"

fun in_hand :: "'a pc \<Rightarrow> 'a list" where
  "in_hand (TryReserve c n m d) = contents d"
| "in_hand (TryFence c r d) = contents d"
| "in_hand (TryWrite c r rest d) = contents d"
| "in_hand (TryCommit c r d) = contents d"
| "in_hand (TryWake c d) = contents d"
| "in_hand (SendSpin c n d) = contents d"
| "in_hand (SendSleep c e d) = contents d"
| "in_hand (SendAsleep c d) = contents d"
| "in_hand (SendTorch c d) = contents d"
| "in_hand (SendRet (SendOk d)) = contents d"
| "in_hand (SendRet (SendDisconnected d)) = contents d"
| "in_hand (SendRet (SendFull d)) = contents d"
| "in_hand _ = []"

text \<open>A send of a single value: the buffer holds it until it is written.\<close>

fun single_pc :: "'a pc \<Rightarrow> bool" where
  "single_pc (TryReserve c n m d) = (\<exists>x. d = Item (Some x))"
| "single_pc (TryFence c r d) = (\<exists>x. d = Item (Some x))"
| "single_pc (TryWrite c r rest d) = (length (contents d) = card (slots rest))"
| "single_pc (TryCommit c r d) = (contents d = [])"
| "single_pc (TryWake c d) = (contents d = [])"
| "single_pc (SendSpin c n d) = (\<exists>x. d = Item (Some x))"
| "single_pc (SendSleep c e d) = (\<exists>x. d = Item (Some x))"
| "single_pc (SendAsleep c d) = (\<exists>x. d = Item (Some x))"
| "single_pc (SendTorch c d) = (\<exists>x. d = Item (Some x))"
| "single_pc (SendRet (SendOk d)) = (contents d = [])"
| "single_pc (SendRet (SendDisconnected d)) = (\<exists>x. d = Item (Some x))"
| "single_pc (SendRet (SendFull d)) = (\<exists>x. d = Item (Some x))"
| "single_pc _ = True"

definition mpmc_carried :: "'a sys \<Rightarrow> nat \<Rightarrow> 'a multiset" where
  "mpmc_carried s t = mset (in_hand (threads s t)) + offered_pc (bag s) (threads s t)"

definition mpmc_gathered :: "'a sys \<Rightarrow> nat \<Rightarrow> 'a multiset" where
  "mpmc_gathered s t = taken_pc (bag s) (threads s t)"

definition mpmc_inside :: "'a sys \<Rightarrow> 'a multiset" where
  "mpmc_inside s = vals (bag s) (slots (recv s))"

definition mpmc_ok :: "'a sys \<Rightarrow> bool" where
  "mpmc_ok s \<longleftrightarrow> channel_inv s \<and> inner_dropped s = None \<and> (\<forall>t. single_pc (threads s t))"

section \<open>A step and the client's view\<close>

text \<open>What a client sees of a thread.\<close>

definition view :: "'a sys \<Rightarrow> nat \<Rightarrow> 'a reply \<times> role \<times> 'a multiset \<times> 'a multiset \<times> bool" where
  "view s u = (reply_pc (threads s u), role_pc (threads s u), mpmc_carried s u, mpmc_gathered s u,
     single_pc (threads s u))"

lemma view_simps [simp]:
  "reply_pc (wake_pc p) = reply_pc p" "role_pc (wake_pc p) = role_pc p" "in_hand (wake_pc p) = in_hand p"
  "single_pc (wake_pc p) = single_pc p"
  by (cases p; simp)+

lemma entry_view [simp]:
  "role_pc (try_send_entry c d) = Sending"
  "fresh d \<Longrightarrow> in_hand (try_send_entry c d) = contents d"
  "single_pc (try_send_entry c (Item (Some x)))"
  by (simp_all add: try_send_entry_def Let_def)

lemma remit_item: "remit (Item (Some x)) = Some r \<longleftrightarrow> r = Item (Some x)"
  by auto

lemma reply_running: "reply_pc p = Running \<longleftrightarrow> \<not> ready p"
  by (cases p rule: reply_pc.cases) simp_all

lemma view_other:
  assumes "bag s1 = bag s" "threads s1 = (\<lambda>u. if u \<in> W then wake_pc (threads s u) else threads s u)" "u \<noteq> t"
  shows "view (goto t q s1) u = view s u"
  using assms by (simp add: view_def mpmc_carried_def mpmc_gathered_def)

lemmas view_other' = view_other [where W = "{}"]

text \<open>A step inside a call: the values stay, or move between the thread and the bag.\<close>

definition keeps_values :: "nat \<Rightarrow> 'a sys \<Rightarrow> 'a sys \<Rightarrow> bool" where
  "keeps_values t s s' \<longleftrightarrow> (\<forall>u. u \<noteq> t \<longrightarrow> view s' u = view s u) \<and>
     role_pc (threads s' t) = role_pc (threads s t) \<and> (single_pc (threads s t) \<longrightarrow> single_pc (threads s' t)) \<and>
     mpmc_inside s' + mpmc_carried s' t + mpmc_gathered s' t = mpmc_inside s + mpmc_carried s t + mpmc_gathered s t \<and>
     mpmc_inside s' \<subseteq># mpmc_inside s + mpmc_carried s t \<and>
     senders s' = senders s \<and> receivers s' = receivers s \<and> inner_dropped s' = inner_dropped s"

lemma keeps_quiet:
  assumes "s' = goto t q s1" "bag s1 = bag s" "slots (recv s1) = slots (recv s)"
    "threads s1 = (\<lambda>u. if u \<in> W then wake_pc (threads s u) else threads s u)"
    "senders s1 = senders s" "receivers s1 = receivers s" "inner_dropped s1 = inner_dropped s"
    "role_pc q = role_pc (threads s t)" "single_pc (threads s t) \<longrightarrow> single_pc q" "in_hand q = in_hand (threads s t)"
    "offered_pc (bag s) q = offered_pc (bag s) (threads s t)"
    "taken_pc (bag s) q = taken_pc (bag s) (threads s t)"
  shows "keeps_values t s s'"
  unfolding keeps_values_def assms(1) using view_other [OF assms(2,4), of _ t q] assms
  by (simp add: mpmc_inside_def mpmc_carried_def mpmc_gathered_def)

lemmas keeps_quiet' = keeps_quiet [where W = "{}"]

lemma keeps_send_move:
  assumes "send_move x86_64 t s s'" and wf: "wf_threads (threads s)" and c: "core_inv s"
  shows "keeps_values t s s'"
proof -
  have p: "wf_pc (threads s u)" for u using wf by (simp add: wf_threads_def)
  note core = c [unfolded core_inv_def]
  from assms(1) show ?thesis
  proof cases
    case (reserve c n m d q)
    then have "remit d = Some d" using p [of t] buf.remit_fresh [of d] by simp
    then have "role_pc q = Sending \<and> ((\<exists>x. d = Item (Some x)) \<longrightarrow> single_pc q) \<and> in_hand q = contents d \<and>
        offered_pc (bag s) q = {#} \<and> taken_pc (bag s) q = {#}"
      using reserve(3) by (elim disjE exE conjE) (simp_all del: remit.simps split: if_splits)
    then show ?thesis using reserve(1) by (intro keeps_quiet' [OF reserve(2)]) simp_all
  next
    case (fence c r d)
    have "length (contents d) = card (slots r)" if "d = Item (Some x)" for x
    proof -
      have "0 < card (slots r)" "card (slots r) \<le> 1" using p [of t] fence(1) that by (simp_all add: card_gt_0_iff)
      then show ?thesis using that by simp
    qed
    then show ?thesis using fence by (intro keeps_quiet' [OF fence(2)]) auto
  next
    case (wr c r rest d i rest' x d')
    note dn = drain_next_wf [OF wr(2)]
    have w: "slots rest \<subseteq> slots r" using p [of t] wr(1) by simp
    have i: "i \<in> owned (threads s t)" using dn(1) w wr(1) by auto
    note o = other_slots [OF core i p]
    have ds: "contents d = contents d' @ [x]" by (rule take_item_Some [OF wr(3)])
    have "slots r - slots rest' = insert i (slots r - slots rest)" using dn w by auto
    then have "vals ((bag s)(i := Some x)) (slots r - slots rest') =
        add_mset x (vals (bag s) (slots r - slots rest))"
      using vals_insert [of "slots r - slots rest" i "(bag s)(i := Some x)" x] dn(1) vals_other
      by (metis DiffD2 finite_slots_minus fun_upd_same)
    moreover have "length (contents d) = card (slots rest) \<longrightarrow> length (contents d') = card (slots rest')"
      using ds dn by simp
    ultimately show ?thesis
      unfolding keeps_values_def wr(4) using o wr(1) ds
      by (simp add: view_def mpmc_inside_def mpmc_carried_def mpmc_gathered_def)
  next
    case (wrdone c r rest d)
    then have "slots rest = {}" by (simp add: mpmc_n_def)
    then show ?thesis using wrdone(1) by (intro keeps_quiet' [OF wrdone(3)]) simp_all
  next
    case (commit c r d q)
    have "slots r \<inter> slots (recv s) = {}" using coreD(3) [OF core, of t] commit(1) by auto
    then have "vals (bag s) (slots (recv s) \<union> slots r) = vals (bag s) (slots (recv s)) + vals (bag s) (slots r)"
      by (intro vals_Un) auto
    then show ?thesis
      unfolding keeps_values_def commit(2) using commit(1,3)
      by (simp add: view_def mpmc_inside_def mpmc_carried_def mpmc_gathered_def slots_commit_recv)
  qed
qed

lemma keeps_recv_move:
  assumes "recv_move x86_64 t s s'" and wf: "wf_threads (threads s)" and c: "core_inv s"
  shows "keeps_values t s s'"
proof -
  have p: "wf_pc (threads s u)" for u using wf by (simp add: wf_threads_def)
  note core = c [unfolded core_inv_def]
  from assms(1) show ?thesis
  proof cases
    case (claim c q)
    have "slots (recv s AND NOT status_all) = slots (recv s)" "slots (recv s AND status_all) = {}" by (rule slots_claim)+
    then show ?thesis
      unfolding keeps_values_def claim(2) using claim(1,3)
      by (simp add: view_def mpmc_inside_def mpmc_carried_def mpmc_gathered_def)
  next
    case (rd c cl rest vs i rest' x)
    note dn = drain_next_wf [OF rd(2)]
    have w: "slots rest \<subseteq> slots cl" using p [of t] rd(1) by simp
    have i: "i \<in> owned (threads s t)" using dn(1) w rd(1) by auto
    have "vals (bag s) (slots rest) = add_mset x (vals ((bag s)(i := None)) (slots rest'))"
      using vals_remove [of "slots rest" i "bag s" x] vals_other [of i "slots rest'" "bag s" None] dn rd(3) by simp
    then show ?thesis
      unfolding keeps_values_def rd(4) using other_slots [OF core i p] rd(1)
      by (simp add: view_def mpmc_inside_def mpmc_carried_def mpmc_gathered_def)
  next
    case (rddone c cl rest vs)
    then have "slots rest = {}" by (simp add: mpmc_n_def)
    then show ?thesis using rddone(1) by (intro keeps_quiet' [OF rddone(3)]) simp_all
  next
    case (rfence c cl vs) then show ?thesis by (intro keeps_quiet' [OF rfence(2)]) simp_all
  next
    case (release c cl vs q) then show ?thesis by (intro keeps_quiet' [OF release(2)]) simp_all
  qed
qed

lemma spin_view:
  "send_spin_next c n d w q \<Longrightarrow> fresh d \<Longrightarrow>
     role_pc q = Sending \<and> ((\<exists>x. d = Item (Some x)) \<longrightarrow> single_pc q) \<and> in_hand q = contents d"
  "recv_spin_next c' n w q \<Longrightarrow> role_pc q = Receiving \<and> single_pc q \<and> in_hand q = []"
  unfolding send_spin_next_def recv_spin_next_def by (elim disjE conjE; auto)+

lemma keeps_sleep_move:
  assumes "sleep_move t s s'" and wf: "wf_threads (threads s)"
  shows "keeps_values t s s'"
proof -
  have p: "wf_pc (threads s t)" using wf by (simp add: wf_threads_def)
  from assms(1) show ?thesis
  proof cases
    case (sspin c n d w q)
    then have "fresh d" using p by simp
    then show ?thesis using sspin(1) spin_view(1) [OF sspin(4)] pc_spin(1) [OF sspin(4), of "bag s"]
      by (intro keeps_quiet' [OF sspin(5)]) simp_all
  next
    case (sload c n d w q)
    then have "fresh d" using p by simp
    then show ?thesis using sload(1) spin_view(1) [OF sload(4)] pc_spin(1) [OF sload(4), of "bag s"]
      by (intro keeps_quiet' [OF sload(5)]) simp_all
  next
    case (ssleep c e d q) then show ?thesis by (intro keeps_quiet' [OF ssleep(2)]) simp_all
  next
    case (sintr c d) then show ?thesis by (intro keeps_quiet' [OF sintr(2)]) simp_all
  next
    case (storch c d)
    then have "fresh d" using p by simp
    then show ?thesis using storch(1) by (intro keeps_quiet' [OF storch(2)]) auto
  next
    case (twake c d W) then show ?thesis by (intro keeps_quiet [OF twake(3)]) simp_all
  next
    case (rspin c n w q)
    then show ?thesis using spin_view(2) [OF rspin(4)] pc_spin(2) [OF rspin(4), of "bag s"]
      by (intro keeps_quiet' [OF rspin(5)]) simp_all
  next
    case (rload c n w q)
    then show ?thesis using spin_view(2) [OF rload(4)] pc_spin(2) [OF rload(4), of "bag s"]
      by (intro keeps_quiet' [OF rload(5)]) simp_all
  next
    case (rsleep c e q) then show ?thesis by (intro keeps_quiet' [OF rsleep(2)]) simp_all
  next
    case (rintr c) then show ?thesis by (intro keeps_quiet' [OF rintr(2)]) simp_all
  next
    case (rtorch c) then show ?thesis by (intro keeps_quiet' [OF rtorch(2)]) simp_all
  next
    case (cwake c vs W) then show ?thesis by (intro keeps_quiet [OF cwake(3)]) simp_all
  qed
qed

lemma keeps_death_move:
  assumes "death_move t s s'"
  shows "keeps_values t s s'"
  using assms
proof cases
  case (sdead q) then show ?thesis by (intro keeps_quiet' [OF sdead(2)]) simp_all
next
  case (sdwake W) then show ?thesis by (intro keeps_quiet [OF sdwake(3)]) simp_all
next
  case (rdead q) then show ?thesis by (intro keeps_quiet' [OF rdead(2)]) simp_all
next
  case (rdwake W) then show ?thesis by (intro keeps_quiet [OF rdwake(3)]) simp_all
qed

lemma next_state_Some: "next_state r = Some s \<longleftrightarrow> r = Next s"
  by (cases r) auto

lemma mpmc_okD:
  assumes "mpmc_ok s"
  shows "channel_inv s" "inner_dropped s = None" "single_pc (threads s t)" "wf_threads (threads s)" "core_inv s"
    "wf_pc (threads s t)"
  using assms channel_invD(3,4,5) [of s] by (simp_all add: mpmc_ok_def)

lemma step_keeps:
  assumes "step x86_64 t a s = Next s'" "channel_inv s" "inner_dropped s = None" "\<not> ready (threads s t)"
  shows "keeps_values t s s'"
  using assms(1)
proof (cases rule: step_moves)
  case call then show ?thesis using assms(4) by simp
next
  case send then show ?thesis using channel_invD(3,5) [OF assms(2)] assms(3) by (intro keeps_send_move)
next
  case recv then show ?thesis using channel_invD(3,5) [OF assms(2)] assms(3) by (intro keeps_recv_move)
next
  case sleep then show ?thesis using channel_invD(3) [OF assms(2)] by (intro keeps_sleep_move)
next
  case death then show ?thesis by (rule keeps_death_move)
qed

lemma mpmc_internal_keeps:
  assumes ok: "mpmc_ok s" and st: "mpmc_internal x86_64 t a s = Some s'"
  shows "keeps_values t s s'" "mpmc_ok s'" "\<not> ready (threads s t)"
proof -
  note d = mpmc_okD [OF ok]
  show r: "\<not> ready (threads s t)" using st by (simp add: mpmc_internal_def split: if_splits)
  have step: "step x86_64 t a s = Next s'" using st r by (simp add: mpmc_internal_def next_state_Some)
  show keeps: "keeps_values t s s'" by (rule step_keeps [OF step d(1,2) r])
  have "single_pc (threads s' u)" for u
    using keeps d(3) [of u] by (cases "u = t") (simp_all add: keeps_values_def view_def)
  then show "mpmc_ok s'"
    using channel_inv_step [OF step d(1)] keeps d(2) by (simp add: mpmc_ok_def keeps_values_def)
qed

section \<open>The calls\<close>

lemma mpmc_call_Some:
  assumes "mpmc_call x86_64 t op s = Some s'"
  shows "ready (threads s t)" "start t (mpmc_op op) s = Next s'" "step x86_64 t (Start (mpmc_op op)) s = Next s'"
proof -
  show st: "step x86_64 t (Start (mpmc_op op)) s = Next s'" using assms by (simp add: mpmc_call_def next_state_Some)
  then show "ready (threads s t)"
    by (cases "threads s t") (simp_all add: step_def on_step_def on_woken_def on_interrupt_def on_spin_def split: if_splits)
  then show "start t (mpmc_op op) s = Next s'" using st by (simp add: step_ready on_start_def split: if_splits)
qed

lemma single_after_call:
  assumes "start t (mpmc_op op) s = Next s'"
  shows "\<exists>q s1. s' = goto t q s1 \<and> bag s1 = bag s \<and> recv s1 = recv s \<and> threads s1 = threads s \<and>
    inner_dropped s1 = inner_dropped s \<and> single_pc q \<and> offered_pc (bag s) q = {#} \<and> taken_pc (bag s) q = {#} \<and>
    (case op of
       OSend b h x \<Rightarrow> role_pc q = Sending \<and> in_hand q = [x] \<and> senders s1 = senders s \<and> receivers s1 = receivers s
     | ORecv b h \<Rightarrow> role_pc q = Receiving \<and> in_hand q = [] \<and> senders s1 = senders s \<and> receivers s1 = receivers s
     | OCloneSnd h h' \<Rightarrow> role_pc q = Neither \<and> dom (senders s1) = insert h' (dom (senders s)) \<and> receivers s1 = receivers s
     | ODropSnd h \<Rightarrow> role_pc q = Neither \<and> dom (senders s1) = dom (senders s) - {h} \<and> receivers s1 = receivers s
     | OCloneRcv h h' \<Rightarrow> role_pc q = Neither \<and> senders s1 = senders s \<and> receivers s1 = insert h' (receivers s)
     | ODropRcv h \<Rightarrow> role_pc q = Neither \<and> senders s1 = senders s \<and> receivers s1 = receivers s - {h})"
proof (cases op)
  case (OSend b h x)
  then show ?thesis using assms
    by (auto simp: start_def dest!: try_send_start_next split: option.splits if_splits intro!: exI [of _ s])
next
  case (ORecv b h)
  then show ?thesis using assms by (auto simp: start_def split: option.splits if_splits intro!: exI [of _ s])
next
  case (OCloneSnd h h')
  then show ?thesis using assms
    by (intro exI [of _ Idle] exI [of _ "s\<lparr>num_senders := num_senders s + 1,
        senders := (senders s)(h' \<mapsto> clone_bias (num_senders s))\<rparr>"])
      (simp add: start_def clone_sender_def Let_def split: if_splits)
next
  case (ODropSnd h)
  then show ?thesis using assms
    by (intro exI [of _ "if num_senders s > 1 then Idle else SDropDead"]
        exI [of _ "s\<lparr>num_senders := num_senders s - 1, senders := (senders s)(h := None)\<rparr>"])
      (simp add: start_def drop_sender_def Let_def split: if_splits)
next
  case (OCloneRcv h h')
  then show ?thesis using assms
    by (intro exI [of _ Idle] exI [of _ "s\<lparr>num_receivers := num_receivers s + 1, receivers := insert h' (receivers s)\<rparr>"])
      (simp add: start_def clone_receiver_def Let_def split: if_splits)
next
  case (ODropRcv h)
  then show ?thesis using assms
    by (intro exI [of _ "if num_receivers s > 1 then Idle else RDropDead"]
        exI [of _ "s\<lparr>num_receivers := num_receivers s - 1, receivers := receivers s - {h}\<rparr>"])
      (simp add: start_def drop_receiver_def Let_def split: if_splits)
qed

section \<open>The bag is a channel\<close>

definition mpmc_reply :: "'a sys \<Rightarrow> nat \<Rightarrow> 'a reply" where
  "mpmc_reply s t = reply_pc (threads s t)"

definition mpmc_role :: "'a sys \<Rightarrow> nat \<Rightarrow> role" where
  "mpmc_role s t = role_pc (threads s t)"

definition mpmc_senders :: "'a sys \<Rightarrow> nat set" where
  "mpmc_senders s = dom (senders s)"

lemmas client_defs = mpmc_reply_def mpmc_role_def mpmc_senders_def mpmc_carried_def mpmc_gathered_def mpmc_inside_def

lemma mpmc_call_laws:
  assumes ok: "mpmc_ok s" and call: "mpmc_call x86_64 t op s = Some s'"
  shows "mpmc_ok s'" "mpmc_inside s' = mpmc_inside s" "u \<noteq> t \<Longrightarrow> view s' u = view s u" "mpmc_gathered s' t = {#}"
    "case op of
       OSend b h x \<Rightarrow> mpmc_role s' t = Sending \<and> mpmc_carried s' t = {#x#} \<and> mpmc_senders s' = mpmc_senders s \<and>
         receivers s' = receivers s
     | ORecv b h \<Rightarrow> mpmc_role s' t = Receiving \<and> mpmc_senders s' = mpmc_senders s \<and> receivers s' = receivers s
     | OCloneSnd h h' \<Rightarrow> mpmc_role s' t = Neither \<and> mpmc_senders s' = insert h' (mpmc_senders s) \<and>
         receivers s' = receivers s
     | ODropSnd h \<Rightarrow> mpmc_role s' t = Neither \<and> mpmc_senders s' = mpmc_senders s - {h} \<and> receivers s' = receivers s
     | OCloneRcv h h' \<Rightarrow> mpmc_role s' t = Neither \<and> mpmc_senders s' = mpmc_senders s \<and>
         receivers s' = insert h' (receivers s)
     | ODropRcv h \<Rightarrow> mpmc_role s' t = Neither \<and> mpmc_senders s' = mpmc_senders s \<and> receivers s' = receivers s - {h}"
proof -
  note d = mpmc_okD [OF ok] and c = mpmc_call_Some [OF call]
  obtain q s1 where q: "s' = goto t q s1" "bag s1 = bag s" "recv s1 = recv s" "threads s1 = threads s"
      "inner_dropped s1 = inner_dropped s" "single_pc q" "offered_pc (bag s) q = {#}" "taken_pc (bag s) q = {#}"
    and op: "case op of
       OSend b h x \<Rightarrow> role_pc q = Sending \<and> in_hand q = [x] \<and> senders s1 = senders s \<and> receivers s1 = receivers s
     | ORecv b h \<Rightarrow> role_pc q = Receiving \<and> in_hand q = [] \<and> senders s1 = senders s \<and> receivers s1 = receivers s
     | OCloneSnd h h' \<Rightarrow> role_pc q = Neither \<and> dom (senders s1) = insert h' (dom (senders s)) \<and> receivers s1 = receivers s
     | ODropSnd h \<Rightarrow> role_pc q = Neither \<and> dom (senders s1) = dom (senders s) - {h} \<and> receivers s1 = receivers s
     | OCloneRcv h h' \<Rightarrow> role_pc q = Neither \<and> senders s1 = senders s \<and> receivers s1 = insert h' (receivers s)
     | ODropRcv h \<Rightarrow> role_pc q = Neither \<and> senders s1 = senders s \<and> receivers s1 = receivers s - {h}"
    using single_after_call [OF c(2)] by blast
  have "single_pc (threads s' u)" for u using d(3) [of u] q(4,6) unfolding q(1) by simp
  then show "mpmc_ok s'"
    using channel_inv_step [OF c(3) d(1)] d(2) q(5) unfolding q(1) by (simp add: mpmc_ok_def)
  show "mpmc_inside s' = mpmc_inside s" unfolding q(1) by (simp add: mpmc_inside_def q(2,3))
  show "view s' u = view s u" if "u \<noteq> t" unfolding q(1) using that by (intro view_other') (simp_all add: q(2,4))
  show "mpmc_gathered s' t = {#}" unfolding q(1) by (simp add: mpmc_gathered_def q(2,8))
  show "case op of
       OSend b h x \<Rightarrow> mpmc_role s' t = Sending \<and> mpmc_carried s' t = {#x#} \<and> mpmc_senders s' = mpmc_senders s \<and>
         receivers s' = receivers s
     | ORecv b h \<Rightarrow> mpmc_role s' t = Receiving \<and> mpmc_senders s' = mpmc_senders s \<and> receivers s' = receivers s
     | OCloneSnd h h' \<Rightarrow> mpmc_role s' t = Neither \<and> mpmc_senders s' = insert h' (mpmc_senders s) \<and>
         receivers s' = receivers s
     | ODropSnd h \<Rightarrow> mpmc_role s' t = Neither \<and> mpmc_senders s' = mpmc_senders s - {h} \<and> receivers s' = receivers s
     | OCloneRcv h h' \<Rightarrow> mpmc_role s' t = Neither \<and> mpmc_senders s' = mpmc_senders s \<and>
         receivers s' = insert h' (receivers s)
     | ODropRcv h \<Rightarrow> mpmc_role s' t = Neither \<and> mpmc_senders s' = mpmc_senders s \<and> receivers s' = receivers s - {h}"
    using op unfolding q(1) by (cases op) (simp_all add: client_defs q(2,7))
qed

lemma view_eq:
  "view s' u = view s u \<Longrightarrow> mpmc_reply s' u = mpmc_reply s u \<and> mpmc_role s' u = mpmc_role s u \<and>
     mpmc_carried s' u = mpmc_carried s u \<and> mpmc_gathered s' u = mpmc_gathered s u"
  by (simp add: view_def mpmc_reply_def mpmc_role_def)

lemma keeps_valuesD:
  assumes "keeps_values t s s'"
  shows "u \<noteq> t \<Longrightarrow> view s' u = view s u" "mpmc_role s' t = mpmc_role s t"
    "mpmc_inside s' + mpmc_carried s' t + mpmc_gathered s' t = mpmc_inside s + mpmc_carried s t + mpmc_gathered s t"
    "mpmc_inside s' \<subseteq># mpmc_inside s + mpmc_carried s t"
    "mpmc_senders s' = mpmc_senders s" "receivers s' = receivers s"
  using assms by (simp_all add: keeps_values_def mpmc_role_def mpmc_senders_def)

lemma role_values:
  "role_pc p \<noteq> Sending \<Longrightarrow> in_hand p = [] \<and> offered_pc b p = {#}"
  "role_pc p \<noteq> Receiving \<Longrightarrow> taken_pc b p = {#}"
proof -
  show "in_hand p = [] \<and> offered_pc b p = {#}" if "role_pc p \<noteq> Sending" using that by (cases p) simp_all
  show "taken_pc b p = {#}" if "role_pc p \<noteq> Receiving" using that by (cases p) simp_all
qed

text \<open>The results.\<close>

lemma reply_pcD:
  "reply_pc p = Sent \<Longrightarrow> \<exists>d. p = SendRet (SendOk d)"
  "reply_pc p = Rejected x \<Longrightarrow> p = SendRet (SendDisconnected (Item (Some x)))"
  "reply_pc p = Refused x \<Longrightarrow> p = SendRet (SendFull (Item (Some x)))"
  "reply_pc p = Got vs \<Longrightarrow> p = RecvRet (RecvOk vs)"
  "reply_pc p = Closed \<Longrightarrow> p = RecvRet RecvDisconnected"
  "reply_pc p = NothingYet \<Longrightarrow> p = RecvRet RecvEmpty"
  by (cases p rule: reply_pc.cases; simp)+

lemma mpmc_reply_laws:
  assumes "mpmc_ok s"
  shows "mpmc_reply s t = Sent \<Longrightarrow> mpmc_role s t = Sending \<and> mpmc_carried s t = {#}"
    "mpmc_reply s t = Rejected x \<Longrightarrow> mpmc_role s t = Sending \<and> receivers s = {}"
    "mpmc_reply s t = Refused x \<Longrightarrow> mpmc_role s t = Sending \<and> mpmc_carried s t = {#x#}"
    "mpmc_reply s t = Got vs \<Longrightarrow> mpmc_role s t = Receiving \<and> mpmc_gathered s t = mset vs"
    "mpmc_reply s t = Closed \<Longrightarrow> mpmc_role s t = Receiving \<and> mpmc_gathered s t = {#} \<and> mpmc_senders s = {} \<and>
       mpmc_inside s = {#}"
    "mpmc_reply s t = NothingYet \<Longrightarrow> mpmc_role s t = Receiving \<and> mpmc_gathered s t = {#}"
proof -
  note death = death_invD [OF channel_invD(2) [OF mpmc_okD(1) [OF assms]]]
  show "mpmc_role s t = Sending \<and> mpmc_carried s t = {#}" if "mpmc_reply s t = Sent"
    using reply_pcD(1) [of "threads s t"] that mpmc_okD(3) [OF assms, of t] by (auto simp: client_defs)
  show "mpmc_role s t = Sending \<and> receivers s = {}" if "mpmc_reply s t = Rejected x"
    using reply_pcD(2) [of "threads s t" x] that death(4,14) by (auto simp: client_defs)
  show "mpmc_role s t = Sending \<and> mpmc_carried s t = {#x#}" if "mpmc_reply s t = Refused x"
    using reply_pcD(3) [of "threads s t" x] that by (simp add: client_defs)
  show "mpmc_role s t = Receiving \<and> mpmc_gathered s t = mset vs" if "mpmc_reply s t = Got vs"
    using reply_pcD(4) [of "threads s t" vs] that by (simp add: client_defs)
  show "mpmc_role s t = Receiving \<and> mpmc_gathered s t = {#} \<and> mpmc_senders s = {} \<and> mpmc_inside s = {#}"
    if "mpmc_reply s t = Closed"
    using reply_pcD(5) [of "threads s t"] that death(1,12,13) by (simp add: client_defs)
  show "mpmc_role s t = Receiving \<and> mpmc_gathered s t = {#}" if "mpmc_reply s t = NothingYet"
    using reply_pcD(6) [of "threads s t"] that by (simp add: client_defs)
qed

interpretation mch: channel "mpmc_call x86_64" "mpmc_internal x86_64" mpmc_reply mpmc_role mpmc_ok mpmc_inside
  mpmc_carried mpmc_gathered mpmc_senders receivers for x86_64 :: bool
proof (unfold_locales, goal_cases)
  case 1 then show ?case by (rule mpmc_call_laws(1))
next
  case 2 then show ?case by (rule mpmc_internal_keeps(2))
next
  case 3 show ?case by (rule view_eq [OF mpmc_call_laws(3) [OF 3]])
next
  case 4 then show ?case by (rule mpmc_call_laws(2))
next
  case 5 show ?case using mpmc_call_laws(5) [OF 5] by simp
next
  case 6 show ?case using mpmc_call_laws(4,5) [OF 6] by simp
next
  case 7 show ?case using mpmc_call_laws(5) [OF 7] by simp
next
  case 8 show ?case using mpmc_call_laws(5) [OF 8] by simp
next
  case 9 show ?case using mpmc_call_laws(5) [OF 9] by simp
next
  case 10 show ?case using mpmc_call_laws(5) [OF 10] by simp
next
  case 11 show ?case by (rule view_eq [OF keeps_valuesD(1) [OF mpmc_internal_keeps(1) [OF 11(1,2)] 11(3)]])
next
  case 12 show ?case using keeps_valuesD(2,5,6) [OF mpmc_internal_keeps(1) [OF 12]] mpmc_internal_keeps(3) [OF 12]
    by (simp add: mpmc_reply_def reply_running)
next
  case 13 show ?case by (rule keeps_valuesD(3) [OF mpmc_internal_keeps(1) [OF 13]])
next
  case 14 show ?case by (rule keeps_valuesD(4) [OF mpmc_internal_keeps(1) [OF 14]])
next
  case 15 then show ?case using role_values(1) by (simp add: client_defs)
next
  case 16 then show ?case using role_values(2) by (simp add: client_defs)
next
  case 17 then show ?case by (rule mpmc_reply_laws(1))
next
  case 18 then show ?case by (rule mpmc_reply_laws(2))
next
  case 19 then show ?case by (rule mpmc_reply_laws(3))
next
  case 20 then show ?case by (rule mpmc_reply_laws(4))
next
  case 21 then show ?case by (rule mpmc_reply_laws(5))
next
  case 22 then show ?case by (rule mpmc_reply_laws(6))
qed

lemma mpmc_ok_init: "mpmc_ok (mpmc n)"
  by (simp add: mpmc_ok_def channel_inv_init) (simp add: mpmc_def)

lemma mpmc_start:
  "mpmc_inside (mpmc n) = {#}" "mpmc_senders (mpmc n) = {0}" "receivers (mpmc n) = {0}" "mpmc_reply (mpmc n) t \<noteq> Running"
  by (simp_all add: client_defs mpmc_def)

end
