(* ===== verification/Mpmc_History.thy ===== *)
theory Mpmc_History
  imports Mpmc_Clients Mpmc_Disconnect
begin

text \<open>
  What the callers of the bag observe over a run: the values they pass to calls that send, the values
  those calls hand back, and the values the calls that receive return.  The history is read off the
  calls and the returns; the state of the channel is only compared with it.
\<close>

section \<open>The history of a run\<close>

record 'a mpmc_history =
  given :: "'a list"
  handed_back :: "'a list"
  got_values :: "'a list"

definition no_calls :: "'a mpmc_history" where
  "no_calls = \<lparr>given = [], handed_back = [], got_values = []\<rparr>"

text \<open>The values a call is started with, and those in its result: what the buffer of a \<^verbatim>\<open>send\<close>
  still holds, what a \<^verbatim>\<open>recv\<close> collected.\<close>

fun call_values :: "'a action \<Rightarrow> 'a list" where
  "call_values (Start (CallTrySend h d)) = contents d"
| "call_values (Start (CallSend h d)) = contents d"
| "call_values _ = []"

fun sent_back :: "'a pc \<Rightarrow> 'a list" where
  "sent_back (SendRet (SendOk d)) = contents d"
| "sent_back (SendRet (SendDisconnected d)) = contents d"
| "sent_back (SendRet (SendFull d)) = contents d"
| "sent_back _ = []"

fun received_values :: "'a pc \<Rightarrow> 'a list" where
  "received_values (RecvRet (RecvOk vs)) = vs"
| "received_values _ = []"

text \<open>A step of thread \<open>t\<close>: it may be the start of a call and it may be a return.\<close>

definition observe_step :: "nat \<Rightarrow> 'a action \<Rightarrow> 'a sys \<Rightarrow> 'a mpmc_history \<Rightarrow> 'a mpmc_history" where
  "observe_step t a s' h =
     \<lparr>given = given h @ call_values a,
      handed_back = handed_back h @ sent_back (threads s' t),
      got_values = got_values h @ received_values (threads s' t)\<rparr>"

fun mpmc_run :: "bool \<Rightarrow> (nat \<times> 'a action) list \<Rightarrow> 'a sys \<times> 'a mpmc_history \<Rightarrow> ('a sys \<times> 'a mpmc_history) option" where
  "mpmc_run x86_64 [] p = Some p"
| "mpmc_run x86_64 ((t, a) # as) (s, h) =
     (case step x86_64 t a s of Next s' \<Rightarrow> mpmc_run x86_64 as (s', observe_step t a s' h) | _ \<Rightarrow> None)"

text \<open>The values that are inside the channel, or were dropped with it, and those in the hands of calls
  that have not returned yet.\<close>

definition in_channel :: "'a sys \<Rightarrow> 'a multiset" where
  "in_channel s = (case inner_dropped s of None \<Rightarrow> mpmc_inside s | Some xs \<Rightarrow> mset xs)"

definition in_call :: "'a sys \<Rightarrow> nat \<Rightarrow> 'a multiset" where
  "in_call s t = (if ready (threads s t) then {#} else mpmc_carried s t + mpmc_gathered s t)"

definition in_calls :: "'a sys \<Rightarrow> 'a multiset" where
  "in_calls s = (\<Sum>t<n_threads s. in_call s t)"

section \<open>The history agrees with the state\<close>

definition values_kept :: "'a sys \<Rightarrow> 'a mpmc_history \<Rightarrow> bool" where
  "values_kept s h \<longleftrightarrow> mset (given h) = mset (handed_back h) + mset (got_values h) + in_channel s + in_calls s"

lemma values_kept_init: "values_kept (mpmc n :: 'a sys) no_calls"
proof -
  have "inner_dropped (mpmc n :: 'a sys) = None" "ready (threads (mpmc n :: 'a sys) t)" for t by (simp_all add: mpmc_def)
  then show ?thesis
    by (simp add: values_kept_def no_calls_def in_channel_def in_calls_def in_call_def mpmc_start(1))
qed

text \<open>One thread's step: what the others have stays, and what this one had, was given and left in the
  channel is what it returns and has.\<close>

lemma values_kept_step:
  assumes kept: "values_kept s h" and t: "t < n_threads s" and n: "n_threads s' = n_threads s"
    and others: "\<And>u. u \<noteq> t \<Longrightarrow> in_call s' u = in_call s u"
    and here: "in_channel s' + in_call s' t + mset (sent_back (threads s' t)) + mset (received_values (threads s' t)) =
      in_channel s + in_call s t + mset (call_values a)"
  shows "values_kept s' (observe_step t a s' h)"
proof -
  have sum: "in_calls z = in_call z t + (\<Sum>u\<in>{..<n_threads s} - {t}. in_call z u)" if "n_threads z = n_threads s" for z :: "'a sys"
    unfolding in_calls_def that using t by (intro sum.remove) auto
  have "(\<Sum>u\<in>{..<n_threads s} - {t}. in_call s' u) = (\<Sum>u\<in>{..<n_threads s} - {t}. in_call s u)"
    by (rule sum.cong) (use others in auto)
  then have "in_channel s' + in_calls s' + mset (sent_back (threads s' t)) + mset (received_values (threads s' t)) =
      in_channel s + in_calls s + mset (call_values a)"
    using here sum [OF n] sum [of s] by (simp add: ac_simps)
  then show ?thesis using kept by (simp add: values_kept_def observe_step_def ac_simps)
qed

lemma view_in_call: "view s' u = view s u \<Longrightarrow> in_call s' u = in_call s u"
  using reply_running [of "threads s u"] reply_running [of "threads s' u"] by (simp add: view_def in_call_def)

text \<open>A call that returns has nothing in hand but its result.\<close>

lemma ready_values:
  assumes "ready p"
  shows "mset (in_hand p) + offered_pc b p + taken_pc b p = mset (sent_back p) + mset (received_values p)"
proof (cases p)
  case (SendRet r) then show ?thesis by (cases r) simp_all
next
  case (RecvRet r) then show ?thesis by (cases r) simp_all
qed (use assms in simp_all)

lemma running_values: "\<not> ready p \<Longrightarrow> sent_back p = [] \<and> received_values p = []"
  by (cases p) simp_all

lemma in_call_result:
  "in_call s t + mset (sent_back (threads s t)) + mset (received_values (threads s t)) = mpmc_carried s t + mpmc_gathered s t"
  using ready_values [of "threads s t" "bag s"] running_values [of "threads s t"]
  by (cases "ready (threads s t)") (simp_all add: in_call_def mpmc_carried_def mpmc_gathered_def)

lemma values_kept_internal:
  assumes "keeps_values t s s'" "\<not> ready (threads s t)" "values_kept s h" "t < n_threads s" "n_threads s' = n_threads s"
    "inner_dropped s = None" "call_values a = []"
  shows "values_kept s' (observe_step t a s' h)"
proof (rule values_kept_step [OF assms(3-5)])
  show "in_call s' u = in_call s u" if "u \<noteq> t" for u
    by (rule view_in_call [OF keeps_valuesD(1) [OF assms(1) that]])
  have "in_channel s' = mpmc_inside s'" "in_channel s = mpmc_inside s"
    using assms(1,6) by (simp_all add: in_channel_def keeps_values_def)
  then show "in_channel s' + in_call s' t + mset (sent_back (threads s' t)) + mset (received_values (threads s' t)) =
      in_channel s + in_call s t + mset (call_values a)"
    using keeps_valuesD(3) [OF assms(1)] in_call_result [of s' t] assms(2,7)
    by (simp add: in_call_def add.assoc)
qed

text \<open>The start of a call: what it is given is what it has in hand.\<close>

lemma call_in_hand:
  assumes "start t k s = Next s'" "k \<noteq> DropInner"
  obtains q s1 where "s' = goto t q s1" "bag s1 = bag s" "recv s1 = recv s" "threads s1 = threads s"
    "inner_dropped s1 = inner_dropped s" "in_hand q = call_values (Start k)" "offered_pc (bag s) q = {#}" "taken_pc (bag s) q = {#}"
proof (cases k)
  case (CallTrySend h d)
  then obtain b where e: "s' = goto t (try_send_entry (SCall h b False) d) s" "fresh d"
    using assms(1) by (auto simp: start_def dest!: try_send_start_next split: option.splits if_splits)
  show ?thesis by (rule that [OF e(1) refl refl refl refl]) (simp_all add: CallTrySend e(2))
next
  case (CallSend h d)
  then obtain b where e: "s' = goto t (try_send_entry (SCall h b True) d) s" "fresh d"
    using assms(1) by (auto simp: start_def dest!: try_send_start_next split: option.splits if_splits)
  show ?thesis by (rule that [OF e(1) refl refl refl refl]) (simp_all add: CallSend e(2))
next
  case (CallTryRecv h)
  then show ?thesis using assms(1) by (intro that [of "ClaimAll (RCall h False)" s]) (auto simp: start_def split: if_splits)
next
  case (CallRecv h)
  then show ?thesis using assms(1) by (intro that [of "ClaimAll (RCall h True)" s]) (auto simp: start_def split: if_splits)
next
  case (CloneSender h h')
  show ?thesis
    by (rule that [of Idle "s\<lparr>num_senders := num_senders s + 1, senders := (senders s)(h' \<mapsto> clone_bias (num_senders s))\<rparr>"])
      (use CloneSender assms(1) in \<open>auto simp: start_def clone_sender_def Let_def split: if_splits\<close>)
next
  case (DropSender h)
  show ?thesis
    by (rule that [of "if num_senders s > 1 then Idle else SDropDead"
          "s\<lparr>num_senders := num_senders s - 1, senders := (senders s)(h := None)\<rparr>"])
      (use DropSender assms(1) in \<open>auto simp: start_def drop_sender_def Let_def split: if_splits\<close>)
next
  case (CloneReceiver h h')
  show ?thesis
    by (rule that [of Idle "s\<lparr>num_receivers := num_receivers s + 1, receivers := insert h' (receivers s)\<rparr>"])
      (use CloneReceiver assms(1) in \<open>auto simp: start_def clone_receiver_def Let_def split: if_splits\<close>)
next
  case (DropReceiver h)
  show ?thesis
    by (rule that [of "if num_receivers s > 1 then Idle else RDropDead"
          "s\<lparr>num_receivers := num_receivers s - 1, receivers := receivers s - {h}\<rparr>"])
      (use DropReceiver assms(1) in \<open>auto simp: start_def drop_receiver_def Let_def split: if_splits\<close>)
qed (use assms(2) in simp)

lemma values_kept_call:
  assumes st: "start t k s = Next s'" and r: "ready (threads s t)" and kept: "values_kept s h" "t < n_threads s" "n_threads s' = n_threads s"
    and inv: "channel_inv s" "inner_dropped s = None"
  shows "values_kept s' (observe_step t (Start k) s' h)"
proof (cases "k = DropInner")
  case False
  obtain q s1 where q: "s' = goto t q s1" "bag s1 = bag s" "recv s1 = recv s" "threads s1 = threads s"
    "inner_dropped s1 = inner_dropped s" "in_hand q = call_values (Start k)" "offered_pc (bag s) q = {#}" "taken_pc (bag s) q = {#}"
    using call_in_hand [OF st False] by blast
  show ?thesis
  proof (rule values_kept_step [OF kept])
    show "in_call s' u = in_call s u" if "u \<noteq> t" for u
      unfolding q(1) by (rule view_in_call, rule view_other') (simp_all add: q(2,4) that)
    have "mpmc_inside s' = mpmc_inside s" using q(1,2,3) by (simp add: mpmc_inside_def)
    moreover have "inner_dropped s' = inner_dropped s" using q(1,5) by simp
    ultimately have "in_channel s' = in_channel s" by (simp add: in_channel_def split: option.split)
    moreover have "mpmc_carried s' t + mpmc_gathered s' t = mset (call_values (Start k))"
      unfolding q(1) by (simp add: mpmc_carried_def mpmc_gathered_def q(2,6,7,8))
    ultimately show "in_channel s' + in_call s' t + mset (sent_back (threads s' t)) + mset (received_values (threads s' t)) =
        in_channel s + in_call s t + mset (call_values (Start k))"
      using in_call_result [of s' t] r by (simp add: in_call_def add.assoc)
  qed
next
  case True
  then have d: "drop_inner t s = Next s'" using st by (simp add: start_def)
  have l: "last_handle_gone s" by (rule drop_inner_Next [OF d])
  obtain v where s': "s' = goto t Idle (s\<lparr>bag := (\<lambda>_. None), mem := v,
      inner_dropped := Some (map (\<lambda>i. the (bag s i)) (sorted_list_of_set (slots (recv s))))\<rparr>)"
    using drop_inner_ok [OF inv(1) l, of t] d by auto
  show ?thesis
  proof (rule values_kept_step [OF kept])
    have ready: "ready (threads s u)" for u using no_handles(3) [OF channel_invD(1) [OF inv(1)] l] .
    then show "in_call s' u = in_call s u" if "u \<noteq> t" for u
      unfolding s' using that by (simp add: in_call_def)
    have "in_channel s' = in_channel s"
      unfolding s' using inv(2) committed_values [OF inv(1) l] by (simp add: in_channel_def mpmc_inside_def)
    then show "in_channel s' + in_call s' t + mset (sent_back (threads s' t)) + mset (received_values (threads s' t)) =
        in_channel s + in_call s t + mset (call_values (Start k))"
      using ready [of t] True unfolding s' by (simp add: in_call_def)
  qed
qed

text \<open>So every step of a reachable state keeps the equation, and every run does.\<close>

lemma step_thread: "step x86_64 t a s = Next s' \<Longrightarrow> t < n_threads s"
  by (simp add: step_def split: if_splits)

lemma running_no_call: "step x86_64 t a s = Next s' \<Longrightarrow> \<not> ready (threads s t) \<Longrightarrow> call_values a = []"
  by (cases "threads s t"; cases a)
    (simp_all add: step_def on_step_def on_woken_def on_interrupt_def on_spin_def split: if_splits)

lemma values_kept_next:
  assumes st: "step x86_64 t a s = Next s'" and inv: "channel_inv s" and kept: "values_kept s h"
  shows "values_kept s' (observe_step t a s' h)"
proof -
  have alive: "inner_dropped s = None" using dropped_step [OF inv, of x86_64 t a] st by (cases "inner_dropped s") auto
  note n = step_thread [OF st] step_n_threads [OF st]
  show ?thesis
  proof (cases "ready (threads s t)")
    case True
    then obtain k where "a = Start k" "start t k s = Next s'"
      using st n by (auto simp: step_ready on_start_def split: action.splits)
    then show ?thesis using values_kept_call [OF _ True kept n inv alive] by simp
  next
    case False
    then show ?thesis
      using values_kept_internal [OF step_keeps [OF st inv alive False] False kept n alive running_no_call [OF st False]] by simp
  qed
qed

lemma mpmc_run_kept:
  assumes "mpmc_run x86_64 as (s, h) = Some (s', h')" "channel_inv s" "values_kept s h"
  shows "values_kept s' h'"
  using assms
proof (induction as arbitrary: s h)
  case (Cons p as)
  obtain t a where p: "p = (t, a)" by (cases p)
  with Cons.prems(1) obtain s1 where s1: "step x86_64 t a s = Next s1" "mpmc_run x86_64 as (s1, observe_step t a s1 h) = Some (s', h')"
    by (auto split: outcome.splits)
  show ?case
    by (rule Cons.IH [OF s1(2) channel_inv_step [OF s1(1) Cons.prems(2)] values_kept_next [OF s1(1) Cons.prems(2,3)]])
qed simp

end
