(* ===== verification/Mpmc_Props.thy ===== *)
theory Mpmc_Props
  imports Mpmc_Solo Mpmc_History
begin

text \<open>
  The properties of the channel of \<^verbatim>\<open>bags/src/mpmc.rs\<close>, each with a witness: a concrete run of
  the system in which its hypotheses hold.
\<close>

section \<open>Concrete runs\<close>

text \<open>One item sent and received by two threads, up to the points of interest.\<close>

definition send_run :: "(nat \<times> nat action) list" where
  "send_run = [(0, Start (CallTrySend 0 (VecBuf [5, 6]))), (0, Step), (0, Step)]"

definition start_run :: "(nat \<times> nat action) list" where
  "start_run = [(0, Start (CallTrySend 0 (VecBuf [5, 6])))]"

definition clone_run :: "(nat \<times> nat action) list" where
  "clone_run = [(0, Start (CloneSender 0 1)), (0, Start (CallTrySend 1 (Item (Some 3))))]"

definition commit_run :: "(nat \<times> nat action) list" where
  "commit_run = send_run @ [(0, Step), (0, Step), (0, Step), (0, Step)]"

definition claim_run :: "(nat \<times> nat action) list" where
  "claim_run = commit_run @ [(1, Start (CallTryRecv 0)), (1, Step)]"

definition recv_run :: "(nat \<times> nat action) list" where
  "recv_run = claim_run @ [(1, Step), (1, Step), (1, Step), (1, Step), (1, Step)]"

text \<open>A thread that finds nothing, spins out its budget on the value \<open>w\<close> and goes to sleep.\<close>

definition spin_then_sleep :: "nat \<Rightarrow> u32 \<Rightarrow> (nat \<times> 'a action) list" where
  "spin_then_sleep t w = replicate 32 (t, Load w) @ [(t, Step), (t, Step)]"

definition sleep_run :: "(nat \<times> nat action) list" where
  "sleep_run = [(1, Start (CallRecv 0)), (1, Step)] @ spin_then_sleep 1 status_all"

text \<open>A sender fills the bag, and sleeps on its next value.\<close>

definition full_run :: "(nat \<times> nat action) list" where
  "full_run = [(0, Start (CallTrySend 0 (VecBuf [0 ..< 30])))] @ replicate 34 (0, Step)"

definition send_sleep_run :: "(nat \<times> nat action) list" where
  "send_sleep_run = full_run @ [(0, Start (CallSend 0 (Item (Some 30)))), (0, Step)] @
     spin_then_sleep 0 (NOT status_all)"

text \<open>The last sender goes, a receiver finds out, and the bag is dropped.\<close>

definition close_run :: "(nat \<times> nat action) list" where
  "close_run = [(0, Start (DropSender 0)), (0, Step), (1, Start (CallTryRecv 0)), (1, Step)]"

definition reject_run :: "(nat \<times> nat action) list" where
  "reject_run = [(1, Start (DropReceiver 0)), (1, Step), (0, Start (CallTrySend 0 (Item (Some 666)))), (0, Step)]"

definition drop_run :: "(nat \<times> nat action) list" where
  "drop_run = commit_run @ [(1, Start (DropReceiver 0)), (1, Step), (0, Start (DropSender 0)), (0, Step)]"

text \<open>Two receivers sleep; one is woken by a send, the last sender goes before that receiver has
  announced the other one again.\<close>

definition lost_run :: "(nat \<times> nat action) list" where
  "lost_run =
     [(2, Start (CloneReceiver 0 1)), (1, Start (CallRecv 0)), (1, Step)] @ spin_then_sleep 1 status_all @
     [(2, Start (CallRecv 1)), (2, Step), (2, Load COUNTERPARTY_DEAD), (2, Step),
      (0, Start (CallTrySend 0 (Item (Some 7)))), (0, Step), (0, Step), (0, Step), (0, Step), (0, Step),
      (0, Woken [1]), (0, Start (DropSender 0)), (0, Step),
      (1, Step), (1, Step), (1, Step), (1, Step), (1, Step), (1, Step)]"

text \<open>A sender fills the bag, a second sender and then a receiver fall asleep around it.\<close>

definition both_sleep_run :: "(nat \<times> nat action) list" where
  "both_sleep_run = sleep_run @
     [(2, Start (CloneSender 0 1)), (2, Start (CallTrySend 1 (VecBuf [0 ..< 30]))), (2, Step),
      (0, Start (CallSend 0 (Item (Some 30)))), (0, Step)] @ spin_then_sleep 0 (NOT status_all)"

text \<open>Two values are sent and received, a third stays in the bag, a fourth is refused because the receiver
  is gone; then the bag is dropped.\<close>

definition history_run :: "(nat \<times> nat action) list" where
  "history_run = recv_run @ [(0, Start (CallTrySend 0 (Item (Some 3))))] @ replicate 5 (0, Step) @
     [(1, Start (DropReceiver 0)), (1, Step), (0, Start (CallTrySend 0 (Item (Some 4)))), (0, Step),
      (0, Start (DropSender 0)), (0, Step), (1, Start DropInner)]"

lemma history_run_ends:
  "case mpmc_run True history_run (mpmc 2, no_calls) of
     Some (s, h) \<Rightarrow> handed_back h = [4] \<and> got_values h = [6, 5] \<and> inner_dropped s = Some [3]
   | None \<Rightarrow> False"
  by code_simp

definition ends_in :: "'a outcome \<Rightarrow> ('a sys \<Rightarrow> bool) \<Rightarrow> bool" where
  "ends_in r P = (case r of Next s \<Rightarrow> P s | _ \<Rightarrow> False)"

lemma ends_inD: "ends_in r P \<Longrightarrow> \<exists>s. r = Next s \<and> P s"
  by (cases r) (simp_all add: ends_in_def)

lemma ends_in_reachable:
  assumes "ends_in (exec x86_64 as (mpmc n)) P"
  obtains s where "reachable x86_64 s" "P s"
proof (cases "exec x86_64 as (mpmc n)")
  case (Next s)
  then have "reachable x86_64 s" by (rule reachable_exec [OF reachable_init])
  then show ?thesis using that assms Next by (simp add: ends_in_def)
qed (use assms in \<open>simp_all add: ends_in_def\<close>)

lemma ends_in_via:
  assumes "ends_in (exec_via Q x86_64 as (mpmc n)) P" "Q (mpmc n)"
  obtains s where "reachable_via Q x86_64 s" "P s"
proof (cases "exec_via Q x86_64 as (mpmc n)")
  case (Next s)
  then have "reachable_via Q x86_64 s" by (rule via_exec [OF via_init [of Q n x86_64, OF assms(2)]])
  then show ?thesis using that assms(1) Next by (simp add: ends_in_def)
qed (use assms in \<open>simp_all add: ends_in_def\<close>)

text \<open>A lone producer asleep on a full bag, and the last receiver leaving after that.\<close>

definition receiver_goes :: "(nat \<times> nat action) list" where
  "receiver_goes = [(1, Start (DropReceiver 0)), (1, Step)]"

lemma sender_sleeps:
  "\<exists>s :: nat sys. reachable_via one_sender True s \<and> quiescent s \<and> send_asleep (threads s 0) \<and> 0 \<in> receivers s \<and>
     ends_in (exec_via one_sender True receiver_goes s)
       (\<lambda>s. send_asleep (threads s 0) \<and> num_receivers s = 0 \<and> contains (send s) COUNTERPARTY_DEAD)"
proof -
  have "ends_in (exec_via one_sender True send_sleep_run (mpmc 2))
      (\<lambda>s. quiescent s \<and> send_asleep (threads s 0) \<and> 0 \<in> receivers s \<and>
         ends_in (exec_via one_sender True receiver_goes s)
           (\<lambda>s. send_asleep (threads s 0) \<and> num_receivers s = 0 \<and> contains (send s) COUNTERPARTY_DEAD))"
    by code_simp
  moreover have "one_sender (mpmc 2 :: nat sys)" by (simp add: one_sender_def mpmc_def)
  ultimately show ?thesis by (rule ends_in_via) blast
qed

section \<open>Memory safety\<close>

text \<open>C1: in every reachable state and for every move of every thread, no step races on a slot,
  reads or drops an uninitialised slot, overwrites a value, unwraps an empty buffer, exceeds the
  receive buffer, underflows the spin counter or fails one of the debug assertions: the bias is
  in range, the request mask leaves the status bits alone, what is reserved is not empty and not more than there are
  items, what is claimed is not empty and not more than the bag holds.  The arithmetic of the handle
  counts and of the bias of a clone is that of a release build.\<close>

theorem mpmc_no_fault:
  assumes "reachable x86_64 s"
  shows "step x86_64 t a s \<noteq> Fault f"
  using step_no_fault [OF reachable_inv [OF assms]] .

theorem mpmc_no_fault_witness:
  "\<exists>s :: nat sys. reachable True s \<and> (\<exists>c r d. threads s 0 = TryWrite c r r d) \<and>
     (\<forall>f. step True 0 Step s \<noteq> Fault f)"
proof -
  have "ends_in (exec True send_run (mpmc 2)) (\<lambda>s. case threads s 0 of TryWrite c r r' d \<Rightarrow> r = r' | _ \<Rightarrow> False)"
    by code_simp
  then obtain s :: "nat sys" where s: "reachable True s"
    "case threads s 0 of TryWrite c r r' d \<Rightarrow> r = r' | _ \<Rightarrow> False" by (rule ends_in_reachable)
  then have "\<exists>c r d. threads s 0 = TryWrite c r r d" by (cases "threads s 0") auto
  then show ?thesis using mpmc_no_fault [OF s(1)] s(1) by blast
qed

text \<open>C17: a slot in the hands of a running call belongs to that call alone: no other call owns it,
  no receiver can claim it and no sender can reserve it, and the call's view of the slot is the
  latest one at the point where it accesses it.\<close>

theorem mpmc_slots_exclusive:
  assumes "reachable x86_64 s" "inner_dropped s = None" "i \<in> owned (threads s t)"
  shows "(\<forall>u. i \<in> owned (threads s u) \<longleftrightarrow> u = t) \<and> i \<notin> slots (recv s) \<and> i \<in> slots (send s) \<and>
    knows (mem s) (stage t (threads s t)) i"
proof -
  have core: "core (slots (send s)) (slots (recv s)) (threads s) (bag s) (mem s)"
    using channel_invD(5) [OF reachable_inv [OF assms(1)] assms(2)] by (simp add: core_inv_def)
  have "u = t" if "i \<in> owned (threads s u)" for u
    using coreD(4) [OF core, of u t] that assms(3) by blast
  then show ?thesis
    using coreD(3) [OF core, of t] coreD(10) [OF core assms(3)] assms(3) by blast
qed

theorem mpmc_slots_exclusive_witness:
  "\<exists>s :: nat sys. reachable True s \<and> 0 \<in> owned (threads s 0) \<and> 1 \<in> owned (threads s 0) \<and>
     (\<forall>u. 0 \<in> owned (threads s u) \<longleftrightarrow> u = 0) \<and> 0 \<notin> slots (recv s)"
proof -
  have "ends_in (exec True send_run (mpmc 2)) (\<lambda>s. inner_dropped s = None \<and>
      (case threads s 0 of TryWrite c r r' d \<Rightarrow> r = 0xC0000000 | _ \<Rightarrow> False))"
    by code_simp
  then obtain s :: "nat sys" where s: "reachable True s" "inner_dropped s = None"
    "case threads s 0 of TryWrite c r r' d \<Rightarrow> r = 0xC0000000 | _ \<Rightarrow> False" by (auto elim: ends_in_reachable)
  have "owned (threads s 0) = slots 0xC0000000" using s(3) by (cases "threads s 0") auto
  moreover have "0 \<in> slots 0xC0000000" "1 \<in> slots 0xC0000000" by (simp_all add: slots_def mpmc_n_def)
  ultimately have "0 \<in> owned (threads s 0)" "1 \<in> owned (threads s 0)" by simp_all
  then show ?thesis using mpmc_slots_exclusive [OF s(1,2), of 0 0] s(1) by blast
qed

section \<open>The bag\<close>

text \<open>C2: every step of every interleaving is a step of the bag specification: a send publishes all
  the items it accepted at once, a receive takes everything published at once, the initial channel
  is the empty bag, and nothing else changes the contents.\<close>

theorem mpmc_refines_bag:
  assumes "reachable x86_64 s" "step x86_64 t a s = Next s'"
  shows "spec_step t (abs_bag s) (abs_bag s') \<and> abs_bag (mpmc n) = empty_spec"
  using abs_step [OF reachable_inv [OF assms(1)] assms(2)] abs_bag_init by blast

theorem mpmc_refines_bag_witness:
  "\<exists>(s :: nat sys) s'. step True 1 Step s = Next s' \<and> abs_bag s \<noteq> abs_bag s' \<and>
     spec_step 1 (abs_bag s) (abs_bag s')"
proof -
  have "ends_in (exec True (commit_run @ [(1, Start (CallTryRecv 0))]) (mpmc 2))
      (\<lambda>s. recv s = 0xC0000003 \<and> bag s 0 = Some 6 \<and> (case step True 1 Step s of Next s' \<Rightarrow> recv s' = 3 | _ \<Rightarrow> False))"
    by code_simp
  then obtain s :: "nat sys" where s: "reachable True s" "recv s = 0xC0000003" "bag s 0 = Some 6"
    "case step True 1 Step s of Next s' \<Rightarrow> recv s' = 3 | _ \<Rightarrow> False" by (auto elim: ends_in_reachable)
  then obtain s' where s': "step True 1 Step s = Next s'" "recv s' = 3" by (auto split: outcome.splits)
  have "slots (recv s') = {}"
    using slots_status(3) unfolding status_all_eq s'(2) .
  then have "available (abs_bag s') = {#}" by (simp add: abs_bag_def)
  moreover have "available (abs_bag s) \<noteq> {#}"
  proof -
    have "0 \<in> slots (recv s)" unfolding s(2) by (simp add: slots_def mpmc_n_def)
    then have "available (abs_bag s) = add_mset 6 (vals (bag s) (slots (recv s) - {0}))"
      using vals_remove [of "slots (recv s)" 0 "bag s"] s(3) by (simp add: abs_bag_def)
    then show ?thesis by simp
  qed
  ultimately show ?thesis using mpmc_refines_bag [OF s(1) s'(1)] s'(1) by metis
qed

text \<open>C13: no value is lost or duplicated.  Over every run, the values passed to calls of
  \<^verbatim>\<open>send\<close> and \<^verbatim>\<open>try_send\<close> are those that these calls handed back (what is left in the
  buffer of their results), those that calls of \<^verbatim>\<open>recv\<close> and \<^verbatim>\<open>try_recv\<close> returned,
  those committed in the channel or, once it is gone, dropped with it, and those in the hands of calls that
  have not returned, each as often as it was passed.\<close>

theorem mpmc_conserves_values:
  assumes "mpmc_run x86_64 as (mpmc n, no_calls) = Some (s, h)"
  shows "mset (given h) = mset (handed_back h) + mset (got_values h) + in_channel s + in_calls s"
  using mpmc_run_kept [OF assms channel_inv_init values_kept_init] by (simp add: values_kept_def)

theorem mpmc_conserves_values_witness:
  "\<exists>s h. mpmc_run True history_run (mpmc 2, no_calls) = Some (s, h) \<and> handed_back h = [4] \<and> got_values h = [6, 5] \<and>
     inner_dropped s = Some [3] \<and> mset (given h) = {#4, 6, 5, 3#} + in_calls s"
proof -
  obtain s h where r: "mpmc_run True history_run (mpmc 2, no_calls) = Some (s, h)"
    and h: "handed_back h = [4]" "got_values h = [6, 5]" "inner_dropped s = Some [3]"
    using history_run_ends by (auto split: option.splits)
  then show ?thesis using mpmc_conserves_values [OF r] by (simp add: in_channel_def add_mset_commute)
qed

text \<open>As long as the senders have not been told that the receivers are gone, a slot looks taken
  to the senders exactly when it holds a committed value or a running call owns it, so every slot
  becomes available again.\<close>

theorem mpmc_slots_accounted:
  assumes "reachable x86_64 s" "inner_dropped s = None" "\<not> bit (send s) 0"
  shows "slots (send s) = slots (recv s) \<union> (\<Union>u. owned (threads s u))"
proof -
  have core: "core (slots (send s)) (slots (recv s)) (threads s) (bag s) (mem s)"
    using channel_invD(5) [OF reachable_inv [OF assms(1)] assms(2)] by (simp add: core_inv_def)
  have "slots (recv s) \<union> (\<Union>u. owned (threads s u)) \<subseteq> slots (send s)"
    using coreD(1,3) [OF core] by blast
  then show ?thesis
    using reachable_accounted [OF assms(1)] assms(3) unfolding accounted_def by blast
qed

theorem mpmc_slots_accounted_witness:
  "\<exists>s :: nat sys. reachable True s \<and> send s = 0xC0000000 \<and> recv s = 3 \<and>
     slots 0xC0000000 = slots 3 \<union> (\<Union>u. owned (threads s u))"
proof -
  have "ends_in (exec True claim_run (mpmc 2)) (\<lambda>s. inner_dropped s = None \<and> send s = 0xC0000000 \<and> recv s = 3)"
    by code_simp
  then obtain s :: "nat sys" where s: "reachable True s" "inner_dropped s = None" "send s = 0xC0000000" "recv s = 3"
    by (auto elim: ends_in_reachable)
  then have "\<not> bit (send s) 0" by simp
  then show ?thesis using mpmc_slots_accounted [OF s(1,2)] s by auto
qed

text \<open>A successful receive returns between one and thirty values.\<close>

theorem mpmc_batch_size:
  assumes "reachable x86_64 s" "threads s t = RecvRet (RecvOk vs)"
  shows "1 \<le> length vs \<and> length vs \<le> 30"
  using channel_invD(4) [OF reachable_inv [OF assms(1)], of t] assms(2) by (simp add: Suc_le_eq)

theorem mpmc_batch_size_witness:
  "\<exists>(s :: nat sys) vs. reachable True s \<and> threads s 1 = RecvRet (RecvOk vs) \<and> vs = [6, 5] \<and>
     1 \<le> length vs \<and> length vs \<le> 30"
proof -
  have "ends_in (exec True recv_run (mpmc 2)) (\<lambda>s. threads s 1 = RecvRet (RecvOk [6, 5]))" by code_simp
  then obtain s :: "nat sys" where s: "reachable True s" "threads s 1 = RecvRet (RecvOk [6, 5])"
    by (rule ends_in_reachable)
  then show ?thesis using mpmc_batch_size [OF s] by blast
qed

text \<open>C33: when the last handle is gone, dropping the storage succeeds and drops exactly the values
  still stored, each once, and leaves nothing initialised behind.\<close>

theorem mpmc_drop_inner:
  assumes "reachable x86_64 s" "last_handle_gone s"
  shows "\<exists>s' vs. drop_inner t s = Next s' \<and> inner_dropped s' = Some vs \<and>
    mset vs = stored s \<and> bag s' = (\<lambda>_. None) \<and> mset (sent_log s) = mset (recv_log s) + mset vs"
proof -
  obtain v where d: "drop_inner t s = Next (goto t Idle (s\<lparr>bag := (\<lambda>_. None), mem := v,
      inner_dropped := Some (map (\<lambda>i. the (bag s i)) (sorted_list_of_set (slots (recv s))))\<rparr>))"
    using drop_inner_ok [OF reachable_inv [OF assms(1)] assms(2)] by blast
  let ?s' = "goto t Idle (s\<lparr>bag := (\<lambda>_. None), mem := v,
      inner_dropped := Some (map (\<lambda>i. the (bag s i)) (sorted_list_of_set (slots (recv s))))\<rparr>)"
  have "start t DropInner s = Next ?s'" using d by (simp add: start_def)
  then have c: "conserved ?s'"
    by (rule conserved_call_move [OF start_move reachable_inv [OF assms(1)] reachable_conserved [OF assms(1)]])
  have n: "inner_dropped s = None" using assms(2) by (simp add: last_handle_gone_def)
  have "mset (sent_log s) = mset (recv_log s) + stored s"
    using reachable_conserved [OF assms(1)] n by (simp add: conserved_def dropped_def)
  then show ?thesis
    using d c by (intro exI [of _ ?s'] exI [of _ "map (\<lambda>i. the (bag s i)) (sorted_list_of_set (slots (recv s)))"])
      (simp add: conserved_def stored_def dropped_def)
qed

theorem mpmc_drop_inner_witness:
  "\<exists>s :: nat sys. reachable True s \<and> last_handle_gone s \<and> sent_log s = [6, 5] \<and>
     (\<exists>s' vs. drop_inner 0 s = Next s' \<and> inner_dropped s' = Some vs \<and> mset vs = {#5, 6#})"
proof -
  have "ends_in (exec True drop_run (mpmc 2)) (\<lambda>s. last_handle_gone s \<and> sent_log s = [6, 5] \<and> recv_log s = [])"
    by code_simp
  then obtain s :: "nat sys" where s: "reachable True s" "last_handle_gone s" "sent_log s = [6, 5]" "recv_log s = []"
    by (auto elim: ends_in_reachable)
  obtain s' vs where d: "drop_inner 0 s = Next s'" "inner_dropped s' = Some vs"
    "mset (sent_log s) = mset (recv_log s) + mset vs"
    using mpmc_drop_inner [OF s(1,2), of 0] by blast
  have "mset vs = mset [6, 5]" using d(3) s(3,4) by simp
  also have "\<dots> = {#5, 6#}" by simp
  finally have "mset vs = {#5, 6#}" .
  then show ?thesis using s(1-3) d(1,2) by blast
qed

section \<open>Sleeping and waking\<close>

text \<open>C15: a sender and a receiver never sleep at the same time with nobody running: some third
  thread is inside a call.\<close>

theorem mpmc_no_deadlock:
  assumes "reachable x86_64 s" "recv_asleep (threads s u)" "send_asleep (threads s v)"
  shows "\<not> quiescent s"
proof
  assume q: "quiescent s"
  note inv = reachable_inv [OF assms(1)]
  note h = channel_invD(1) [OF inv]
  have run: "ready (threads s w) \<or> recv_asleep (threads s w) \<or> send_asleep (threads s w)" for w
    using q handle_invD(8) [OF h, of w] by (cases "w < n_threads s") (auto simp: quiescent_def)
  have nr: "\<not> r_active (threads s w)" and ns: "\<not> s_active (threads s w)" for w
    using run [of w] waker_not_asleep [of "threads s w"] by auto
  have "slots (recv s) = {}"
    using sleep_invD(2) [OF reachable_sleep [OF assms(1)] assms(2)] nr by blast
  have pend: "send_pending s"
    using sleep_invD(4) [OF reachable_sleep [OF assms(1)] assms(3)] ns by blast
  have alive: "\<not> bit (send s) 0"
    using death_invD(4) [OF channel_invD(2) [OF inv]] rcall_receivers [OF h, of u] asleep_call(1) [OF assms(2)] by auto
  have "owned (threads s w) = {}" for w
    using run [of w] by (cases "threads s w") auto
  then have "slots (send s) = {}"
    using reachable_accounted [OF assms(1)] alive \<open>slots (recv s) = {}\<close> by (simp add: accounted_def)
  then show False using pend alive by (simp add: send_pending_def)
qed

theorem mpmc_no_deadlock_witness:
  "\<exists>s :: nat sys. reachable True s \<and> recv_asleep (threads s 1) \<and> send_asleep (threads s 0) \<and> \<not> quiescent s"
proof -
  have "ends_in (exec True both_sleep_run (mpmc 3))
      (\<lambda>s. recv_asleep (threads s 1) \<and> send_asleep (threads s 0))"
    by code_simp
  then obtain s :: "nat sys" where s: "reachable True s" "recv_asleep (threads s 1)" "send_asleep (threads s 0)"
    by (auto elim: ends_in_reachable)
  then show ?thesis using mpmc_no_deadlock [OF s] by blast
qed

text \<open>C22: no wake-up is lost for data: when nobody is running and a receiver sleeps, the bag holds
  nothing it could receive, and its sleep is announced, so that the next send will wake it.\<close>

theorem mpmc_idle_receiver:
  assumes "reachable x86_64 s" "quiescent s" "recv_asleep (threads s u)"
  shows "slots (recv s) = {} \<and> contains (NOT (recv s)) SLEEPING"
proof -
  note h = channel_invD(1) [OF reachable_inv [OF assms(1)]]
  have run: "ready (threads s w) \<or> recv_asleep (threads s w) \<or> send_asleep (threads s w)" for w
    using assms(2) handle_invD(8) [OF h, of w] by (cases "w < n_threads s") (auto simp: quiescent_def)
  have nr: "\<not> r_active (threads s w)" for w using run [of w] waker_not_asleep [of "threads s w"] by auto
  have "\<not> bit (recv s) 1"
    using sleep_invD(1) [OF reachable_sleep [OF assms(1)] assms(3)] nr waker_active(1) by blast
  moreover have "slots (recv s) = {}"
    using sleep_invD(2) [OF reachable_sleep [OF assms(1)] assms(3)] nr by blast
  ultimately show ?thesis by (simp add: contains_SLEEPING bit_not_iff)
qed

theorem mpmc_idle_receiver_witness:
  "\<exists>s :: nat sys. reachable True s \<and> quiescent s \<and> recv_asleep (threads s 1) \<and>
     slots (recv s) = {} \<and> contains (NOT (recv s)) SLEEPING"
proof -
  have "ends_in (exec True sleep_run (mpmc 2)) (\<lambda>s. quiescent s \<and> recv_asleep (threads s 1))" by code_simp
  then obtain s :: "nat sys" where s: "reachable True s" "quiescent s" "recv_asleep (threads s 1)"
    by (auto elim: ends_in_reachable)
  then show ?thesis using mpmc_idle_receiver [OF s] by blast
qed

text \<open>C23: when nobody is running and a sender sleeps although there are receivers, the bag holds a
  value, so the next receive does not block, and the sender's sleep is announced, so that receive
  will wake it.\<close>

theorem mpmc_idle_sender:
  assumes "reachable x86_64 s" "quiescent s" "send_asleep (threads s u)" "receivers s \<noteq> {}"
  shows "slots (recv s) \<noteq> {} \<and> contains (send s) SLEEPING"
proof -
  note inv = reachable_inv [OF assms(1)]
  note h = channel_invD(1) [OF inv]
  have run: "ready (threads s w) \<or> recv_asleep (threads s w) \<or> send_asleep (threads s w)" for w
    using assms(2) handle_invD(8) [OF h, of w] by (cases "w < n_threads s") (auto simp: quiescent_def)
  have ns: "\<not> s_active (threads s w)" for w using run [of w] waker_not_asleep [of "threads s w"] by auto
  have "bit (send s) 1"
    using sleep_invD(3) [OF reachable_sleep [OF assms(1)] assms(3)] ns waker_active(2) by blast
  moreover have pend: "send_pending s"
    using sleep_invD(4) [OF reachable_sleep [OF assms(1)] assms(3)] ns by blast
  moreover have alive: "\<not> bit (send s) 0"
    using death_invD(4) [OF channel_invD(2) [OF inv]] assms(4) by blast
  moreover have "owned (threads s w) = {}" for w
    using run [of w] by (cases "threads s w") auto
  ultimately show ?thesis
    using reachable_accounted [OF assms(1)]
    by (auto simp: accounted_def send_pending_def contains_SLEEPING)
qed

theorem mpmc_idle_sender_witness:
  "\<exists>s :: nat sys. reachable True s \<and> quiescent s \<and> send_asleep (threads s 0) \<and>
     slots (recv s) \<noteq> {} \<and> contains (send s) SLEEPING"
proof -
  obtain s :: "nat sys" where s: "reachable True s" "quiescent s" "send_asleep (threads s 0)" "0 \<in> receivers s"
    using sender_sleeps via_reachable by metis
  then have "receivers s \<noteq> {}" by blast
  then show ?thesis using mpmc_idle_sender [OF s(1-3)] s(1-3) by blast
qed

section \<open>Disconnection\<close>

text \<open>C21: a receiver is told that the channel is disconnected only when every sender is gone and
  no value is left to receive; a sender is told so only when every receiver is gone.\<close>

theorem mpmc_disconnected_final:
  assumes "reachable x86_64 s"
  shows "(threads s u = RecvRet RecvDisconnected \<longrightarrow>
      senders s = Map.empty \<and> num_senders s = 0 \<and> slots (recv s) = {}) \<and>
    (threads s u = SendRet (SendDisconnected d) \<longrightarrow> receivers s = {} \<and> num_receivers s = 0)"
proof -
  note inv = reachable_inv [OF assms]
  note death = death_invD [OF channel_invD(2) [OF inv]] and h = handle_invD [OF channel_invD(1) [OF inv]]
  have "senders s = Map.empty \<Longrightarrow> num_senders s = 0" using h(2) by (simp add: unat_eq_0)
  moreover have "receivers s = {} \<Longrightarrow> num_receivers s = 0" using h(4) by (simp add: unat_eq_0)
  ultimately show ?thesis using death(1,4,12-14) by blast
qed

theorem mpmc_disconnected_final_witness:
  "\<exists>s :: nat sys. threads s 1 = RecvRet RecvDisconnected \<and> senders s = Map.empty \<and> slots (recv s) = {}"
proof -
  have "ends_in (exec True close_run (mpmc 2)) (\<lambda>s. threads s 1 = RecvRet RecvDisconnected)" by code_simp
  then obtain s :: "nat sys" where s: "reachable True s" "threads s 1 = RecvRet RecvDisconnected"
    by (rule ends_in_reachable)
  then show ?thesis using mpmc_disconnected_final [OF s(1)] by blast
qed

text \<open>Once the last sender is gone, its drop has announced it in the receivers' word or is
  about to, and likewise for the last receiver.\<close>

theorem mpmc_disconnect_announced:
  assumes "reachable x86_64 s"
  shows "(num_senders s = 0 \<longrightarrow> contains (NOT (recv s)) COUNTERPARTY_DEAD \<or> (\<exists>u. threads s u = SDropDead)) \<and>
    (num_receivers s = 0 \<longrightarrow> contains (send s) COUNTERPARTY_DEAD \<or> (\<exists>u. threads s u = RDropDead))"
proof -
  note inv = reachable_inv [OF assms]
  note death = death_invD [OF channel_invD(2) [OF inv]] and h = handle_invD [OF channel_invD(1) [OF inv]]
  have "num_senders s = 0 \<Longrightarrow> senders s = Map.empty" using h(1,2) by simp
  moreover have "num_receivers s = 0 \<Longrightarrow> receivers s = {}" using h(3,4) by simp
  ultimately show ?thesis using death(3,6) by (auto simp: contains_DEAD bit_not_iff)
qed

theorem mpmc_disconnect_announced_witness:
  "\<exists>s :: nat sys. num_receivers s = 0 \<and> threads s 1 = Idle \<and>
     (contains (send s) COUNTERPARTY_DEAD \<or> (\<exists>u. threads s u = RDropDead))"
proof -
  have "ends_in (exec True reject_run (mpmc 2)) (\<lambda>s. num_receivers s = 0 \<and> threads s 1 = Idle)" by code_simp
  then obtain s :: "nat sys" where s: "reachable True s" "num_receivers s = 0" "threads s 1 = Idle"
    by (auto elim: ends_in_reachable)
  then show ?thesis using mpmc_disconnect_announced [OF s(1)] by blast
qed

text \<open>C29: with a single consumer, a receiver that sleeps although the disconnection has been
  announced is about to be woken by the drop that announced it.\<close>

theorem mpmc_single_receiver_woken:
  assumes "reachable_via one_receiver x86_64 s" "recv_asleep (threads s u)"
    "contains (NOT (recv s)) COUNTERPARTY_DEAD"
  shows "\<exists>v. threads s v = SDropWake"
  using via_one_receiver [OF assms(1)] assms(2,3)
  by (simp add: dead_woken_def contains_DEAD bit_not_iff) blast

theorem mpmc_single_receiver_woken_witness:
  "\<exists>s :: nat sys. reachable_via one_receiver True s \<and> recv_asleep (threads s 1) \<and> num_senders s = 0 \<and>
     (\<exists>v. threads s v = SDropWake)"
proof -
  have "ends_in (exec_via one_receiver True (sleep_run @ [(0, Start (DropSender 0)), (0, Step)]) (mpmc 2))
      (\<lambda>s. recv_asleep (threads s 1) \<and> num_senders s = 0 \<and> contains (NOT (recv s)) COUNTERPARTY_DEAD)"
    by code_simp
  moreover have "one_receiver (mpmc 2 :: nat sys)" by (simp add: one_receiver_def mpmc_def)
  ultimately obtain s :: "nat sys" where s: "reachable_via one_receiver True s" "recv_asleep (threads s 1)"
    "contains (NOT (recv s)) COUNTERPARTY_DEAD" "num_senders s = 0" by (auto elim: ends_in_via)
  then show ?thesis using mpmc_single_receiver_woken [OF s(1-3)] by blast
qed

text \<open>C30: with a single producer, a sender that sleeps although the receivers are known to be gone
  is about to be woken by the drop that announced it.\<close>

theorem mpmc_single_sender_woken:
  assumes "reachable_via one_sender x86_64 s" "send_asleep (threads s u)" "contains (send s) COUNTERPARTY_DEAD"
  shows "\<exists>v. threads s v = RDropWake"
  using via_one_sender [OF assms(1)] assms(2,3)
  by (simp add: sdead_woken_def contains_DEAD) blast

theorem mpmc_single_sender_woken_witness:
  "\<exists>s :: nat sys. reachable_via one_sender True s \<and> send_asleep (threads s 0) \<and> num_receivers s = 0 \<and>
     (\<exists>v. threads s v = RDropWake)"
proof -
  from sender_sleeps obtain s0 :: "nat sys" where s0: "reachable_via one_sender True s0"
    "ends_in (exec_via one_sender True receiver_goes s0)
      (\<lambda>s. send_asleep (threads s 0) \<and> num_receivers s = 0 \<and> contains (send s) COUNTERPARTY_DEAD)" by (elim exE conjE)
  from ends_inD [OF s0(2)] obtain s where s1: "exec_via one_sender True receiver_goes s0 = Next s"
    and s: "send_asleep (threads s 0)" "num_receivers s = 0" "contains (send s) COUNTERPARTY_DEAD" by (elim exE conjE)
  note r = via_exec [OF s0(1) s1]
  show ?thesis using mpmc_single_sender_woken [OF r s(1,3)] r s(1,2) by (intro exI [of _ s] conjI)
qed

text \<open>With two consumers a wake-up can be lost: a run ends with one receiver back from a
  successful receive, every sender gone, nobody running and the other receiver asleep, and however
  the other threads go on, that receiver is never woken.\<close>

theorem mpmc_receiver_abandoned:
  "\<exists>s :: nat sys. reachable True s \<and> threads s 1 = RecvRet (RecvOk [7]) \<and> num_senders s = 0 \<and>
     quiescent s \<and> recv_asleep (threads s 2) \<and>
     (\<forall>as. case exec True (filter (\<lambda>(t, a). t \<noteq> 2) as) s of
             Next s' \<Rightarrow> recv_asleep (threads s' 2) | _ \<Rightarrow> True)"
proof -
  have "ends_in (exec True lost_run (mpmc 3))
      (\<lambda>s. threads s 1 = RecvRet (RecvOk [7]) \<and> num_senders s = 0 \<and> quiescent s \<and> abandoned 2 s)"
    by code_simp
  then obtain s :: "nat sys" where s: "reachable True s" "threads s 1 = RecvRet (RecvOk [7])"
    "num_senders s = 0" "quiescent s" "abandoned 2 s" by (auto elim: ends_in_reachable)
  have "case exec True (filter (\<lambda>(t, a). t \<noteq> 2) as) s of
      Next s' \<Rightarrow> recv_asleep (threads s' 2) | _ \<Rightarrow> True" for as
    using abandoned_exec [OF reachable_inv [OF s(1)] s(5)] by (auto simp: abandoned_def split: outcome.splits)
  moreover have "recv_asleep (threads s 2)" using s(5) by (simp add: abandoned_def)
  ultimately show ?thesis using s(1-4) by blast
qed

section \<open>Handles\<close>

text \<open>The two reference counts are exactly the numbers of live handles, every running call
  borrows a live handle with that handle's bias, and every bias is below the number of slots, as
  \<^verbatim>\<open>compute_request_mask\<close> asserts.\<close>

theorem mpmc_handle_counts:
  assumes "reachable x86_64 s"
  shows "unat (num_senders s) = card (dom (senders s)) \<and> unat (num_receivers s) = card (receivers s) \<and>
    (\<forall>u c. scall_of (threads s u) = Some c \<longrightarrow>
      senders s (sc_handle c) = Some (sc_bias c) \<and> unat (sc_bias c) < mpmc_n) \<and>
    (\<forall>u c. rcall_of (threads s u) = Some c \<longrightarrow> rc_handle c \<in> receivers s)"
proof -
  note h = handle_invD [OF channel_invD(1) [OF reachable_inv [OF assms]]]
  show ?thesis using h(2,4-7) by (auto simp: slot_simps(1))
qed

theorem mpmc_handle_counts_witness:
  "\<exists>s :: nat sys. scall_of (threads s 0) = Some (SCall 1 7 False) \<and>
     unat (num_senders s) = card (dom (senders s)) \<and> senders s 1 = Some 7"
proof -
  have "ends_in (exec True clone_run (mpmc 1))
      (\<lambda>s. scall_of (threads s 0) = Some (SCall 1 7 False))" by code_simp
  then obtain s :: "nat sys" where s: "reachable True s" "scall_of (threads s 0) = Some (SCall 1 7 False)"
    by (rule ends_in_reachable)
  then show ?thesis using mpmc_handle_counts [OF s(1)] by (metis scall.sel(1,2))
qed

section \<open>Calls running alone\<close>

text \<open>C24: from any reachable state, a \<^verbatim>\<open>try_send\<close> with items that runs alone finishes its
  attempt within 35 atomic operations: it gives the items back when the receivers are known to be
  gone or every slot is taken, and otherwise sends at least one item, the last ones of the buffer,
  one per slot it newly reserved, commits exactly those slots, and leaves the rest in the buffer.\<close>

theorem mpmc_try_send_alone:
  assumes "reachable x86_64 s" "t < n_threads s" "threads s t = TryReserve c items m d"
  shows "\<exists>n\<le>35. \<exists>s'. solo x86_64 t n s = Next s' \<and>
    (if contains (send s) COUNTERPARTY_DEAD then threads s' t = SendRet (SendDisconnected d) \<and> bag s' = bag s
     else if slots (send s) = {..<30}
     then threads s' t = (if sc_blocking c then SendSpin c 32 d else SendRet (SendFull d)) \<and> bag s' = bag s
     else \<exists>xs d'. xs \<noteq> [] \<and> contents d = contents d' @ rev xs \<and> sent_log s' = sent_log s @ xs \<and>
       threads s' t = (if contains (recv s) SLEEPING then SendRet (SendOk d') else TryWake c d') \<and>
       card (slots (send s') - slots (send s)) = length xs \<and>
       slots (recv s') = slots (recv s) \<union> (slots (send s') - slots (send s)))"
  using try_send_alone [OF reachable_inv [OF assms(1)] assms(2,3), of x86_64]
  unfolding send_outcome_def contains_DEAD contains_SLEEPING .

theorem mpmc_try_send_alone_witness:
  "\<exists>(s :: nat sys) n s' xs. n \<le> 35 \<and> solo True 0 n s = Next s' \<and> xs \<noteq> [] \<and> sent_log s' = sent_log s @ xs"
proof -
  have "ends_in (exec True start_run (mpmc 2))
      (\<lambda>s. (case threads s 0 of TryReserve c items m d \<Rightarrow> True | _ \<Rightarrow> False) \<and> send s = 0 \<and> n_threads s = 2)"
    by code_simp
  then obtain s :: "nat sys" where s: "reachable True s" "send s = 0" "n_threads s = 2"
    "case threads s 0 of TryReserve c items m d \<Rightarrow> True | _ \<Rightarrow> False" by (auto elim: ends_in_reachable)
  from s(4) obtain c items m d where p: "threads s 0 = TryReserve c items m d" by (cases "threads s 0") auto
  have "0 \<in> {..<30 :: nat}" "slots (send s) = {}" using s(2) by (simp_all add: slots_def)
  then have room: "slots (send s) \<noteq> {..<30}" by (metis empty_iff)
  have alive: "\<not> contains (send s) COUNTERPARTY_DEAD" using s(2) by (simp add: contains_DEAD)
  have "0 < n_threads s" using s(3) by simp
  from mpmc_try_send_alone [OF s(1) this p] obtain n s' xs where
    "n \<le> 35" "solo True 0 n s = Next s'" "xs \<noteq> []" "sent_log s' = sent_log s @ xs"
    unfolding if_not_P [OF alive] if_not_P [OF room] by blast
  then show ?thesis by blast
qed

text \<open>C25: from any reachable state, a \<^verbatim>\<open>try_recv\<close> that runs alone finishes within 34 atomic
  operations: it reports disconnection or emptiness when nothing is committed, and otherwise
  returns the values of all committed slots from left to right and frees exactly those slots.\<close>

theorem mpmc_try_recv_alone:
  assumes "reachable x86_64 s" "t < n_threads s" "threads s t = ClaimAll c"
  shows "\<exists>n\<le>34. \<exists>s'. solo x86_64 t n s = Next s' \<and>
    (if slots (recv s) = {}
     then threads s' t = (if contains (NOT (recv s)) COUNTERPARTY_DEAD then RecvRet RecvDisconnected
         else if rc_blocking c then RecvSpin c 32 else RecvRet RecvEmpty)
     else \<exists>vs. vs = map (\<lambda>i. the (bag s i)) (sorted_list_of_set (slots (recv s))) \<and>
       threads s' t = (if contains (send s) SLEEPING then ClaimWake c vs else RecvRet (RecvOk vs)) \<and>
       slots (recv s') = {} \<and> slots (send s') = slots (send s) - slots (recv s))"
proof -
  have dead: "contains (NOT w) COUNTERPARTY_DEAD \<longleftrightarrow> \<not> bit w 0" for w
    by (simp add: contains_DEAD bit_not_iff)
  show ?thesis
    using try_recv_alone [OF reachable_inv [OF assms(1)] assms(2,3), of x86_64]
    unfolding contains_SLEEPING dead .
qed

theorem mpmc_try_recv_alone_witness:
  "\<exists>(s :: nat sys) n s'. n \<le> 34 \<and> solo True 1 n s = Next s' \<and> bag s 0 = Some 6 \<and> slots (recv s) \<noteq> {} \<and>
     slots (recv s') = {}"
proof -
  have "ends_in (exec True (commit_run @ [(1, Start (CallTryRecv 0))]) (mpmc 2))
      (\<lambda>s. threads s 1 = ClaimAll (RCall 0 False) \<and> recv s = 0xC0000003 \<and> bag s 0 = Some 6 \<and> n_threads s = 2)"
    by code_simp
  then obtain s :: "nat sys" where s: "reachable True s" "threads s 1 = ClaimAll (RCall 0 False)"
    "recv s = 0xC0000003" "bag s 0 = Some 6" "n_threads s = 2" by (auto elim: ends_in_reachable)
  have "0 \<in> slots (recv s)" unfolding s(3) by (simp add: slots_def mpmc_n_def)
  then have ne: "slots (recv s) \<noteq> {}" by blast
  obtain n s' where "n \<le> 34" "solo True 1 n s = Next s'" "slots (recv s') = {}"
    using mpmc_try_recv_alone [OF s(1) _ s(2)] s(5) ne by auto
  then show ?thesis using s(4) ne by blast
qed

section \<open>The channel words\<close>

text \<open>C37: the \<^verbatim>\<open>swap\<close>s that replace \<^verbatim>\<open>fetch_or\<close> and \<^verbatim>\<open>fetch_and\<close> on x86-64 leave the
  same word behind as the portable operations, for every previous word.\<close>

theorem mpmc_arch_equivalent:
  "commit_recv x86_64 r prev = commit_recv False r prev \<and> release_send x86_64 cl prev = release_send False cl prev"
  by (simp add: commit_recv_arch release_send_arch)

text \<open>C38: the request mask of a sender is a cyclic window of the slots that starts at its bias, as
  wide as the number of items, and touches no status bit.\<close>

theorem request_mask_window:
  assumes "0 < items" "unat bias < mpmc_n"
  shows "slots (compute_request_mask mpmc_n items bias) =
      {i. i < mpmc_n \<and> (i + mpmc_n - unat bias) mod mpmc_n < min items mpmc_n} \<and>
    count_ones (compute_request_mask mpmc_n items bias) = min items mpmc_n \<and>
    compute_request_mask mpmc_n items bias AND status_all = 0"
proof -
  have b: "unat bias < 30" using assms(2) by (simp add: slot_simps(1))
  have sf: "status_free (compute_request_mask 30 items bias)" by (rule status_free_request_mask [OF assms(1) b])
  then have "count_ones (compute_request_mask 30 items bias) = min items 30"
    using count_ones_slots [OF sf] card_request_mask [OF assms(1) b] by simp
  then show ?thesis using slots_request_mask [OF assms(1) b] sf
    by (simp add: slot_simps(1) status_free_def)
qed

theorem request_mask_window_witness:
  "slots (compute_request_mask mpmc_n 7 27) =
     {i. i < mpmc_n \<and> (i + mpmc_n - unat (27 :: u32)) mod mpmc_n < min 7 mpmc_n} \<and>
   compute_request_mask mpmc_n 7 27 = 0xF000001C"
proof
  have "(0::nat) < 7" "unat (27 :: u32) < mpmc_n" by (simp_all add: mpmc_n_def)
  then show "slots (compute_request_mask mpmc_n 7 27) =
      {i. i < mpmc_n \<and> (i + mpmc_n - unat (27 :: u32)) mod mpmc_n < min 7 mpmc_n}"
    using request_mask_window by blast
  show "compute_request_mask mpmc_n 7 27 = 0xF000001C" by code_simp
qed

text \<open>Trimming a mask to a number of items keeps a subset of it, with as many bits as the mask
  has and the limit allows: the lowest bits are cleared first, or the highest ones when the
  direction is reversed.\<close>

theorem clear_extra_bits_spec:
  "count_ones (clear_extra_bits m limit direction) = min (count_ones m) limit \<and>
   (\<forall>j. bit (clear_extra_bits m limit direction) j \<longleftrightarrow>
      bit m j \<and> card {k. bit m k \<and> (if direction then k < j else j < k)} < limit)"
  by (simp only: count_ones_clear_extra_bits bit_clear_extra_bits) blast

text \<open>C39: \<^verbatim>\<open>drain_mask\<close> terminates without a shift panic and calls its callback once for each
  slot of the mask, from the first slot to the last.\<close>

theorem drain_mask_visits:
  "drain_mask mpmc_n m f s = Some (fold f (sorted_list_of_set (slots m)) s)"
  using drain_mask_fold [of m f s] by (simp add: slot_simps(1))

end
