(* ===== verification/Free_Vec.thy ===== *)
theory Free_Vec
  imports Prelude
begin

text \<open>
  \<^verbatim>\<open>FreestandingVec<M, T>\<close> of \<^verbatim>\<open>vecs/src/freestanding_vec.rs\<close>: a vector that is one
  pointer to one heap block, which holds a header (metadata, element size, alignment, length,
  capacity in bytes) followed by the elements.  The element type may change between calls, so
  every operation takes the layout of the types it is instantiated at; the vector itself is the
  pointer and the heap.  Memory is byte-addressed inside a block, and every use of a pointer that
  Rust calls undefined behaviour is an error value.  The allocator is not part of the program: its
  answer, an address or a failure, is an argument of the operations that call it.
\<close>

section \<open>Machine arithmetic on \<^verbatim>\<open>usize\<close>\<close>

definition usize_max :: nat where
  "usize_max = 2 ^ 64 - 1"

definition isize_max :: nat where
  "isize_max = 2 ^ 63 - 1"

definition wrap :: "nat \<Rightarrow> nat" where
  "wrap x = x mod 2 ^ 64"

definition as_u32 :: "nat \<Rightarrow> nat" where
  "as_u32 x = x mod 2 ^ 32"

definition checked_add :: "nat \<Rightarrow> nat \<Rightarrow> nat option" where
  "checked_add a b = (if a + b \<le> usize_max then Some (a + b) else None)"

definition saturating_mul :: "nat \<Rightarrow> nat \<Rightarrow> nat" where
  "saturating_mul a b = min (a * b) usize_max"

definition next_multiple_of :: "nat \<Rightarrow> nat \<Rightarrow> nat" where
  "next_multiple_of x a = (if x mod a = 0 then x else x + (a - x mod a))"

section \<open>Layouts\<close>

text \<open>The sizes and alignments of \<^verbatim>\<open>Header<M>\<close> and of \<^verbatim>\<open>T\<close>.  The compiler chooses
  the first pair; \<open>layout_ok\<close> states what it guarantees of any type.\<close>

record layout =
  header_size :: nat
  header_align :: nat
  elem_size :: nat
  elem_align :: nat

text \<open>The union \<^verbatim>\<open>HeaderSpace<M, T>\<close>: big enough and aligned for both.\<close>

definition space_align :: "layout \<Rightarrow> nat" where
  "space_align L = max (header_align L) (elem_align L)"

definition space_size :: "layout \<Rightarrow> nat" where
  "space_size L = next_multiple_of (max (header_size L) (elem_size L)) (space_align L)"

text \<open>\<^verbatim>\<open>HeaderSpace<M, ()>\<close>.\<close>

definition unit_layout :: "layout \<Rightarrow> layout" where
  "unit_layout L = L\<lparr>elem_size := 0, elem_align := 1\<rparr>"

definition MIN_NON_ZERO_CAP :: "layout \<Rightarrow> nat" where
  "MIN_NON_ZERO_CAP L =
     (if elem_size L = 1 then 8 else if elem_size L \<le> 1024 then 4 else 1) * elem_size L + space_size L"

definition HEADER_ALIGNMENT :: "layout \<Rightarrow> nat" where
  "HEADER_ALIGNMENT L = as_u32 (space_align L)"

definition ELEM_SIZE :: "layout \<Rightarrow> nat" where
  "ELEM_SIZE L = as_u32 (elem_size L)"

definition layout_ok :: "layout \<Rightarrow> bool" where
  "layout_ok L \<longleftrightarrow> 0 < header_size L \<and> 0 < header_align L \<and> 0 < elem_align L \<and>
     header_align L dvd header_size L \<and> elem_align L dvd elem_size L \<and>
     (header_align L dvd elem_align L \<or> elem_align L dvd header_align L)"

section \<open>The heap and the vector\<close>

record 'm header =
  metadata :: 'm
  value_size :: nat
  alignment :: nat
  len :: nat
  capacity :: nat

text \<open>A block as the allocator knows it, its header once written, and its other bytes: \<open>'b\<close> is
  whatever a byte of memory can be.\<close>

record ('m, 'b) block =
  blk_size :: nat
  blk_align :: nat
  hdr :: "'m header option"
  bytes :: "nat \<Rightarrow> 'b option"

text \<open>The vector, together with the heap it points into and the metadata dropped so far.\<close>

record ('m, 'b) vec =
  data :: nat
  heap :: "nat \<Rightarrow> ('m, 'b) block option"
  meta_dropped :: "'m list"

datatype ub = DanglingPointer | UninitHeader | OutOfBounds | Misaligned | HeaderOverwritten |
  LayoutMismatch | LayoutTooBig

text \<open>\<^verbatim>\<open>DoublePanic\<close> is a panic while unwinding: it aborts the process.\<close>

datatype vec_error = Panic string | AllocError nat | DebugAssert | DoublePanic | Undefined ub

text \<open>The calls that run code of the client, such as the drop of its metadata, return or unwind
  with its panic; in both cases the vector is there to go on with.\<close>

datatype 'a outcome = Returned 'a | Unwound

definition and_then :: "('e, 'a) result \<Rightarrow> ('a \<Rightarrow> ('e, 'b) result) \<Rightarrow> ('e, 'b) result" where
  "and_then r f = (case r of Inl e \<Rightarrow> Inl e | Inr x \<Rightarrow> f x)"

lemma and_then_simps [simp]: "and_then (Inr x) f = f x" "and_then (Inl e) f = Inl e"
  by (simp_all add: and_then_def)

lemma and_then_Inr: "and_then r f = Inr y \<longleftrightarrow> (\<exists>x. r = Inr x \<and> f x = Inr y)"
  by (cases r) simp_all

section \<open>Operations\<close>

text \<open>\<^verbatim>\<open>NonNull::dangling()\<close> is the alignment of the pointee.\<close>

definition dangling :: "layout \<Rightarrow> nat" where
  "dangling L = space_align L"

definition is_allocated :: "layout \<Rightarrow> ('m, 'b) vec \<Rightarrow> bool" where
  "is_allocated L v \<longleftrightarrow> data v \<noteq> dangling L"

text \<open>\<^verbatim>\<open>Header::from_ref\<close> and \<^verbatim>\<open>Header::from_mut\<close>.\<close>

definition header_ref :: "layout \<Rightarrow> ('m, 'b) vec \<Rightarrow> (vec_error, 'm header) result" where
  "header_ref L v =
     (if \<not> is_allocated L v then Inl DebugAssert
      else case heap v (data v) of
        None \<Rightarrow> Inl (Undefined DanglingPointer)
      | Some b \<Rightarrow> (case hdr b of None \<Rightarrow> Inl (Undefined UninitHeader) | Some h \<Rightarrow> Inr h))"

definition set_header :: "'m header \<Rightarrow> ('m, 'b) vec \<Rightarrow> ('m, 'b) vec" where
  "set_header h v = v\<lparr>heap := (heap v)(data v := map_option (\<lambda>b. b\<lparr>hdr := Some h\<rparr>) (heap v (data v)))\<rparr>"

text \<open>The two requirements of \<^verbatim>\<open>Layout\<close> that the unchecked constructor leaves to the caller.\<close>

definition valid_layout :: "nat \<Rightarrow> nat \<Rightarrow> bool" where
  "valid_layout n align \<longleftrightarrow> 0 < n \<and> n + (align - 1) \<le> isize_max"

definition allocate :: "layout \<Rightarrow> nat option \<Rightarrow> ('m, 'b) vec \<Rightarrow> (vec_error, nat \<times> ('m, 'b) vec) result" where
  "allocate L answer v =
     (if is_allocated L v then Inl DebugAssert
      else let capacity = MIN_NON_ZERO_CAP L in
        if \<not> valid_layout capacity (space_align L) then Inl (Undefined LayoutTooBig)
        else case answer of
          None \<Rightarrow> Inl (AllocError capacity)
        | Some ptr \<Rightarrow> Inr (capacity, v\<lparr>data := ptr,
            heap := (heap v)(ptr \<mapsto> \<lparr>blk_size = capacity, blk_align = space_align L, hdr = None, bytes = (\<lambda>_. None)\<rparr>)\<rparr>))"

definition is_empty :: "layout \<Rightarrow> ('m, 'b) vec \<Rightarrow> (vec_error, bool) result" where
  "is_empty L v = and_then (header_ref L v) (\<lambda>h. Inr (len h = 0))"

text \<open>\<^verbatim>\<open>realloc\<close> of the vector's block: the old layout must be the one the block was
  allocated with; header and bytes move along.\<close>

definition realloc :: "layout \<Rightarrow> nat option \<Rightarrow> nat \<Rightarrow> nat \<Rightarrow> ('m, 'b) vec \<Rightarrow> (vec_error, ('m, 'b) vec) result" where
  "realloc L answer og_cap new_capacity v =
     (case heap v (data v) of
        None \<Rightarrow> Inl (Undefined DanglingPointer)
      | Some b \<Rightarrow>
          if blk_size b \<noteq> og_cap \<or> blk_align b \<noteq> space_align L then Inl (Undefined LayoutMismatch)
          else if \<not> valid_layout new_capacity (space_align L) then Inl (Undefined LayoutTooBig)
          else (case answer of
             None \<Rightarrow> Inl (AllocError og_cap)
           | Some ptr \<Rightarrow> Inr (v\<lparr>data := ptr,
               heap := (heap v)(data v := None, ptr \<mapsto> b\<lparr>blk_size := new_capacity\<rparr>)\<rparr>)))"

definition reserve :: "layout \<Rightarrow> nat option \<Rightarrow> nat \<Rightarrow> ('m, 'b) vec \<Rightarrow> (vec_error, ('m, 'b) vec) result" where
  "reserve L answer additional_bytes v =
     (if additional_bytes = 0 then Inr v
      else and_then (header_ref L v) (\<lambda>h.
        case checked_add (wrap (wrap (len h * elem_size L) + space_size L)) additional_bytes of
          None \<Rightarrow> Inl (Panic ''Requested allocation overflows'')
        | Some required_cap \<Rightarrow>
            let og_cap = capacity h in
              if og_cap \<ge> required_cap then Inr v
              else let new_capacity = max (saturating_mul og_cap 2) required_cap in
                and_then (realloc L answer og_cap new_capacity v) (\<lambda>v.
                and_then (header_ref L v) (\<lambda>h. Inr (set_header (h\<lparr>capacity := new_capacity\<rparr>) v)))))"

text \<open>The metadata is moved out and dropped when the function ends, the block already freed and
  the pointer reset.  \<open>panics\<close> says of which metadata the drop panics.\<close>

definition deallocate :: "layout \<Rightarrow> ('m \<Rightarrow> bool) \<Rightarrow> ('m, 'b) vec \<Rightarrow>
    (vec_error, unit outcome \<times> ('m, 'b) vec) result" where
  "deallocate L panics v =
     (if \<not> is_allocated L v then Inr (Returned (), v)
      else and_then (header_ref L v) (\<lambda>h.
        case heap v (data v) of
          None \<Rightarrow> Inl (Undefined DanglingPointer)
        | Some b \<Rightarrow>
            if blk_size b \<noteq> capacity h \<or> blk_align b \<noteq> alignment h then Inl (Undefined LayoutMismatch)
            else Inr (if panics (metadata h) then Unwound else Returned (),
                      v\<lparr>heap := (heap v)(data v := None), data := dangling L,
                        meta_dropped := meta_dropped v @ [metadata h]\<rparr>)))"

text \<open>\<^verbatim>\<open>init\<close> in its three stages: give back a block of the wrong alignment, grow one that
  is too small, write the new header.  \<open>answers\<close> are the allocator's answers to the
  \<^verbatim>\<open>realloc\<close> and to the \<^verbatim>\<open>alloc\<close> call.  Overwriting an old header drops its metadata; the new
  header is in place even when that drop panics.  A panic of the first stage unwinds at once and
  drops the metadata that was to be installed.\<close>

definition init_dealloc :: "layout \<Rightarrow> ('m \<Rightarrow> bool) \<Rightarrow> ('m, 'b) vec \<Rightarrow>
    (vec_error, unit outcome \<times> ('m, 'b) vec) result" where
  "init_dealloc L panics v =
     (if is_allocated L v
      then and_then (header_ref L v) (\<lambda>h.
        if alignment h \<noteq> HEADER_ALIGNMENT L then deallocate L panics v else Inr (Returned (), v))
      else Inr (Returned (), v))"

definition init_reserve :: "layout \<Rightarrow> nat option \<Rightarrow> ('m, 'b) vec \<Rightarrow> (vec_error, ('m, 'b) vec) result" where
  "init_reserve L answer v =
     (if is_allocated L v
      then and_then (header_ref L v) (\<lambda>h.
        if capacity h < MIN_NON_ZERO_CAP L then reserve L answer (MIN_NON_ZERO_CAP L - capacity h) v
        else Inr v)
      else Inr v)"

definition init_write :: "layout \<Rightarrow> ('m \<Rightarrow> bool) \<Rightarrow> nat option \<Rightarrow> 'm \<Rightarrow> ('m, 'b) vec \<Rightarrow>
    (vec_error, unit outcome \<times> ('m, 'b) vec) result" where
  "init_write L panics answer m v =
     (let new_header = (\<lambda>capacity. \<lparr>metadata = m, value_size = ELEM_SIZE L, alignment = HEADER_ALIGNMENT L,
            len = 0, capacity = capacity\<rparr>)
      in if is_allocated L v
         then and_then (header_ref L v) (\<lambda>h.
           Inr (if panics (metadata h) then Unwound else Returned (),
                (set_header (new_header (capacity h)) v)\<lparr>meta_dropped := meta_dropped v @ [metadata h]\<rparr>))
         else and_then (allocate L answer v) (\<lambda>(capacity, v).
           Inr (Returned (), set_header (new_header capacity) v)))"

definition drop_unwinding :: "('m \<Rightarrow> bool) \<Rightarrow> 'm \<Rightarrow> ('m, 'b) vec \<Rightarrow> (vec_error, unit outcome \<times> ('m, 'b) vec) result" where
  "drop_unwinding panics m v =
     (if panics m then Inl DoublePanic else Inr (Unwound, v\<lparr>meta_dropped := meta_dropped v @ [m]\<rparr>))"

definition init :: "layout \<Rightarrow> ('m \<Rightarrow> bool) \<Rightarrow> nat option \<times> nat option \<Rightarrow> 'm \<Rightarrow> ('m, 'b) vec \<Rightarrow>
    (vec_error, unit outcome \<times> ('m, 'b) vec) result" where
  "init L panics answers m v =
     and_then (init_dealloc L panics v) (\<lambda>(out, v). case out of
       Unwound \<Rightarrow> drop_unwinding panics m v
     | Returned _ \<Rightarrow> and_then (init_reserve L (fst answers) v) (init_write L panics (snd answers) m))"

definition new :: "layout \<Rightarrow> ('m \<Rightarrow> bool) \<Rightarrow> nat option \<Rightarrow> 'm \<Rightarrow> (vec_error, unit outcome \<times> ('m, 'b) vec) result" where
  "new L panics answer m =
     init L panics (None, answer) m \<lparr>data = dangling L, heap = (\<lambda>_. None), meta_dropped = []\<rparr>"

text \<open>Writing and reading a value of the element type: its bytes.\<close>

definition write_bytes :: "nat \<Rightarrow> 'b list \<Rightarrow> (nat \<Rightarrow> 'b option) \<Rightarrow> nat \<Rightarrow> 'b option" where
  "write_bytes off x m = (\<lambda>a. if off \<le> a \<and> a < off + length x then Some (x ! (a - off)) else m a)"

definition read_bytes :: "(nat \<Rightarrow> 'b option) \<Rightarrow> nat \<Rightarrow> nat \<Rightarrow> 'b list option" where
  "read_bytes m off n = those (map m [off..<off + n])"

definition write_elem :: "layout \<Rightarrow> nat \<Rightarrow> 'b list \<Rightarrow> ('m, 'b) vec \<Rightarrow> (vec_error, ('m, 'b) vec) result" where
  "write_elem L off x v =
     (case heap v (data v) of
        None \<Rightarrow> Inl (Undefined DanglingPointer)
      | Some b \<Rightarrow>
          if off + length x > blk_size b then Inl (Undefined OutOfBounds)
          else if off < header_size L then Inl (Undefined HeaderOverwritten)
          else if (data v + off) mod elem_align L \<noteq> 0 then Inl (Undefined Misaligned)
          else Inr (v\<lparr>heap := (heap v)(data v \<mapsto> b\<lparr>bytes := write_bytes off x (bytes b)\<rparr>)\<rparr>))"

definition push :: "layout \<Rightarrow> nat option \<Rightarrow> 'b list \<Rightarrow> ('m, 'b) vec \<Rightarrow> (vec_error, ('m, 'b) vec) result" where
  "push L answer value v =
     and_then (reserve L answer (elem_size L) v) (\<lambda>v.
     and_then (header_ref L v) (\<lambda>h.
     and_then (write_elem L (space_size L + len h * elem_size L) value v) (\<lambda>v.
     Inr (set_header (h\<lparr>len := wrap (len h + 1)\<rparr>) v))))"

text \<open>\<^verbatim>\<open>pop\<close> hands its callback the metadata and the address of the last element, here as an
  offset into the block; it knows the element's size only from the header.\<close>

definition pop_base :: "layout \<Rightarrow> 'm header \<Rightarrow> nat" where
  "pop_base L h = next_multiple_of (max (space_size (unit_layout L)) (value_size h)) (alignment h)"

definition pop :: "layout \<Rightarrow> ('m, 'b) vec \<Rightarrow> (vec_error, ('m \<times> nat) option \<times> ('m, 'b) vec) result" where
  "pop L v =
     and_then (header_ref L v) (\<lambda>h.
       if len h = 0 then Inr (None, v)
       else let n = len h - 1;
                off = pop_base L h + n * value_size h
            in case heap v (data v) of
                 None \<Rightarrow> Inl (Undefined DanglingPointer)
               | Some b \<Rightarrow>
                   if off > blk_size b then Inl (Undefined OutOfBounds)
                   else Inr (Some (metadata h, off), set_header (h\<lparr>len := n\<rparr>) v))"

text \<open>Reading a value out of the block, as the callback does with the pointer it gets.\<close>

definition read_elem :: "nat \<Rightarrow> nat \<Rightarrow> nat \<Rightarrow> ('m, 'b) vec \<Rightarrow> (vec_error, 'b list) result" where
  "read_elem align n off v =
     (case heap v (data v) of
        None \<Rightarrow> Inl (Undefined DanglingPointer)
      | Some b \<Rightarrow>
          if off + n > blk_size b then Inl (Undefined OutOfBounds)
          else if (data v + off) mod align \<noteq> 0 then Inl (Undefined Misaligned)
          else (case read_bytes (bytes b) off n of
             None \<Rightarrow> Inl (Undefined UninitHeader)
           | Some x \<Rightarrow> Inr x))"

text \<open>\<^verbatim>\<open>into_raw\<close> and \<^verbatim>\<open>from_raw\<close>: the vector is its pointer.\<close>

definition into_raw :: "('m, 'b) vec \<Rightarrow> nat" where
  "into_raw v = data v"

definition from_raw :: "nat \<Rightarrow> ('m, 'b) vec \<Rightarrow> ('m, 'b) vec" where
  "from_raw ptr v = v\<lparr>data := ptr\<rparr>"

definition drop_vec :: "layout \<Rightarrow> ('m \<Rightarrow> bool) \<Rightarrow> ('m, 'b) vec \<Rightarrow> (vec_error, unit outcome \<times> ('m, 'b) vec) result" where
  "drop_vec L panics v =
     (if \<not> is_allocated L v then deallocate L panics v
      else and_then (is_empty L v) (\<lambda>e. if e then deallocate L panics v else Inl DebugAssert))"

end
