(* ===== verification/Free_Vec_Inv.thy ===== *)
theory Free_Vec_Inv
  imports Free_Vec
begin

text \<open>
The layout arithmetic of \<^verbatim>\<open>FreestandingVec\<close>, reads and writes of an element's bytes, and the invariant \<open>vec_ok\<close> of a vector that holds given elements.
\<close>

section \<open>Arithmetic of layouts\<close>

lemma next_multiple_of:
  assumes "0 < a"
  shows "a dvd next_multiple_of x a" "x \<le> next_multiple_of x a" "next_multiple_of x a < x + a"
proof -
  have m: "x mod a < a" using assms by simp
  show "x \<le> next_multiple_of x a" by (simp add: next_multiple_of_def)
  show "next_multiple_of x a < x + a"
  proof (cases "x mod a = 0")
    case False
    then have "a - x mod a < a" using m by linarith
    then show ?thesis using False by (simp add: next_multiple_of_def)
  qed (use assms in \<open>simp add: next_multiple_of_def\<close>)
  have "(x + (a - x mod a)) mod a = 0"
  proof -
    have "x + (a - x mod a) = a * (x div a) + a"
      using m mult_div_mod_eq [of a x] by linarith
    then show ?thesis by simp
  qed
  then show "a dvd next_multiple_of x a" by (auto simp: next_multiple_of_def)
qed

lemma next_multiple_of_id: "a dvd x \<Longrightarrow> next_multiple_of x a = x"
  by (simp add: next_multiple_of_def)

lemma next_multiple_of_mono:
  assumes "0 < a" "x \<le> y"
  shows "next_multiple_of x a \<le> next_multiple_of y a"
proof -
  obtain k where k: "next_multiple_of x a = a * k" using next_multiple_of(1) [OF assms(1), of x] by (elim dvdE)
  obtain j where j: "next_multiple_of y a = a * j" using next_multiple_of(1) [OF assms(1), of y] by (elim dvdE)
  have "a * k < a * Suc j"
    using next_multiple_of(3) [OF assms(1), of x] next_multiple_of(2) [OF assms(1), of y] assms(2) k j by simp
  then have "k < Suc j" using assms(1) mult_less_cancel1 by blast
  then show ?thesis using k j by simp
qed

text \<open>Layouts whose numbers fit the \<^verbatim>\<open>u32\<close> fields of the header and whose first allocation
  is one the allocator can be asked for.\<close>

definition sized :: "layout \<Rightarrow> bool" where
  "sized L \<longleftrightarrow> layout_ok L \<and> elem_size L < 2 ^ 32 \<and> space_align L < 2 ^ 32 \<and>
     valid_layout (MIN_NON_ZERO_CAP L) (space_align L)"

lemma layout_facts:
  assumes "layout_ok L"
  shows "0 < space_align L" "space_align L dvd space_size L" "elem_align L dvd space_align L"
    "header_align L dvd space_align L" "header_size L \<le> space_size L" "elem_size L \<le> space_size L"
    "elem_align L dvd elem_size L" "elem_align L dvd space_size L" "0 < header_size L" "0 < elem_align L"
proof -
  note ok = assms [unfolded layout_ok_def]
  show "0 < space_align L" using ok by (simp add: space_align_def less_max_iff_disj)
  then show d: "space_align L dvd space_size L" by (simp add: space_size_def next_multiple_of)
  show "elem_align L dvd space_align L" "header_align L dvd space_align L"
    using ok by (auto simp: space_align_def max_def dest: dvd_imp_le)
  then show "elem_align L dvd space_size L" using d by (blast intro: dvd_trans)
  show "header_size L \<le> space_size L" "elem_size L \<le> space_size L"
    using next_multiple_of(2) [OF \<open>0 < space_align L\<close>, of "max (header_size L) (elem_size L)"]
    by (simp_all add: space_size_def)
  show "elem_align L dvd elem_size L" "0 < header_size L" "0 < elem_align L" using ok by simp_all
qed

text \<open>The smallest block the header needs: what \<^verbatim>\<open>HeaderSpace\<close> is for a zero-sized
  element.\<close>

definition min_space :: "layout \<Rightarrow> nat" where
  "min_space L = next_multiple_of (header_size L) (space_align L)"

lemma min_space_le: "layout_ok L \<Longrightarrow> min_space L \<le> space_size L"
  unfolding min_space_def space_size_def
  by (rule next_multiple_of_mono) (simp_all add: layout_facts)

lemma min_space_zst: "elem_size L = 0 \<Longrightarrow> space_size L = min_space L"
  by (simp add: min_space_def space_size_def)

lemma header_le_min_space: "layout_ok L \<Longrightarrow> header_size L \<le> min_space L"
  unfolding min_space_def by (rule next_multiple_of(2)) (simp add: layout_facts)

lemma MIN_ge: "space_size L \<le> MIN_NON_ZERO_CAP L"
  by (simp add: MIN_NON_ZERO_CAP_def)

lemma sizedD:
  assumes "sized L"
  shows "layout_ok L" "ELEM_SIZE L = elem_size L" "HEADER_ALIGNMENT L = space_align L"
    "MIN_NON_ZERO_CAP L + (space_align L - 1) \<le> isize_max" "space_size L \<le> isize_max"
    "valid_layout (MIN_NON_ZERO_CAP L) (space_align L)"
  using assms MIN_ge [of L]
  by (simp_all add: sized_def ELEM_SIZE_def HEADER_ALIGNMENT_def as_u32_def valid_layout_def)

text \<open>The address \<^verbatim>\<open>pop\<close> computes from the header alone is the one \<^verbatim>\<open>push\<close> wrote to.\<close>

lemma pop_base_space:
  assumes "layout_ok L" "value_size h = elem_size L" "alignment h = space_align L"
    and "header_size L' = header_size L" "header_align L' = header_align L"
  shows "pop_base L' h = space_size L"
proof -
  have "header_align L dvd header_size L" "0 < header_align L" using assms(1) by (simp_all add: layout_ok_def)
  then have "space_size (unit_layout L') = header_size L"
    using assms(4,5) by (simp add: space_size_def space_align_def unit_layout_def next_multiple_of_id)
  then show ?thesis using assms(2,3) by (simp add: pop_base_def space_size_def)
qed

section \<open>Bytes\<close>

lemma those_Some: "(\<forall>y\<in>set ys. y \<noteq> None) \<Longrightarrow> those ys = Some (map the ys)"
  by (induction ys) auto

lemma those_cong: "(\<And>y. y \<in> set ys \<Longrightarrow> f y = g y) \<Longrightarrow> those (map f ys) = those (map g ys)"
  by (metis map_cong)

lemma read_write_same: "length x = n \<Longrightarrow> read_bytes (write_bytes off x m) off n = Some x"
proof -
  assume n: "length x = n"
  have "those (map (write_bytes off x m) [off..<off + n]) =
      Some (map the (map (write_bytes off x m) [off..<off + n]))"
    by (rule those_Some) (use n in \<open>auto simp: write_bytes_def\<close>)
  moreover have "map the (map (write_bytes off x m) [off..<off + n]) = x"
    by (rule nth_equalityI) (use n in \<open>auto simp: write_bytes_def\<close>)
  ultimately show ?thesis by (simp add: read_bytes_def)
qed

lemma read_write_other:
  assumes "off' + n \<le> off \<or> off + length x \<le> off'"
  shows "read_bytes (write_bytes off x m) off' n = read_bytes m off' n"
  unfolding read_bytes_def by (rule those_cong) (use assms in \<open>auto simp: write_bytes_def\<close>)

section \<open>The invariant\<close>

text \<open>A vector of layout \<open>L\<close> that holds the elements \<open>xs\<close>, each as its bytes, and the metadata
  \<open>m\<close>.\<close>

abbreviation header_of :: "layout \<Rightarrow> 'm \<Rightarrow> nat \<Rightarrow> nat \<Rightarrow> 'm header" where
  "header_of L m n cap \<equiv> \<lparr>metadata = m, value_size = elem_size L, alignment = space_align L,
     len = n, capacity = cap\<rparr>"

definition stores :: "layout \<Rightarrow> 'm \<Rightarrow> 'b list list \<Rightarrow> ('m, 'b) block \<Rightarrow> bool" where
  "stores L m xs b \<longleftrightarrow>
     hdr b = Some (header_of L m (length xs) (blk_size b)) \<and>
     blk_align b = space_align L \<and> min_space L \<le> blk_size b \<and> blk_size b \<le> isize_max \<and>
     (xs \<noteq> [] \<longrightarrow> space_size L + length xs * elem_size L \<le> blk_size b) \<and>
     (\<forall>i<length xs. length (xs ! i) = elem_size L \<and>
        read_bytes (bytes b) (space_size L + i * elem_size L) (elem_size L) = Some (xs ! i))"

definition vec_ok :: "layout \<Rightarrow> 'm \<Rightarrow> 'b list list \<Rightarrow> ('m, 'b) vec \<Rightarrow> bool" where
  "vec_ok L m xs v \<longleftrightarrow> is_allocated L v \<and> data v mod space_align L = 0 \<and>
     (\<exists>b. heap v (data v) = Some b \<and> stores L m xs b)"

definition cap_of :: "('m, 'b) vec \<Rightarrow> nat" where
  "cap_of v = (case heap v (data v) of None \<Rightarrow> 0 | Some b \<Rightarrow> blk_size b)"

lemma vec_okE:
  assumes "vec_ok L m xs v"
  obtains b where "is_allocated L v" "data v mod space_align L = 0" "heap v (data v) = Some b"
    "stores L m xs b" "cap_of v = blk_size b"
  using assms by (auto simp: vec_ok_def cap_of_def)

lemma storesD:
  assumes "stores L m xs b"
  shows "hdr b = Some (header_of L m (length xs) (blk_size b))"
    "blk_align b = space_align L" "min_space L \<le> blk_size b" "blk_size b \<le> isize_max"
    "xs \<noteq> [] \<Longrightarrow> space_size L + length xs * elem_size L \<le> blk_size b"
    "i < length xs \<Longrightarrow> length (xs ! i) = elem_size L"
    "i < length xs \<Longrightarrow> read_bytes (bytes b) (space_size L + i * elem_size L) (elem_size L) = Some (xs ! i)"
  using assms by (simp_all add: stores_def)

text \<open>Only the header changes: the elements must still be where they were.\<close>

lemma stores_header:
  assumes "stores L m xs b" "length ys \<le> length xs" "take (length ys) xs = ys"
  shows "stores L m' ys (b\<lparr>hdr := Some (header_of L m' (length ys) (blk_size b))\<rparr>)"
proof -
  have le: "length ys * elem_size L \<le> length xs * elem_size L" using assms(2) by (rule mult_right_mono) simp
  have room: "space_size L + length ys * elem_size L \<le> blk_size b" if "ys \<noteq> []"
  proof -
    have "xs \<noteq> []" using that assms(2) by auto
    from storesD(5) [OF assms(1) this] le show ?thesis by linarith
  qed
  have same: "ys ! i = xs ! i" if "i < length ys" for i using that assms(3) nth_take by metis
  have elem: "length (ys ! i) = elem_size L"
    "read_bytes (bytes b) (space_size L + i * elem_size L) (elem_size L) = Some (ys ! i)"
    if "i < length ys" for i
    using storesD(6,7) [OF assms(1), of i] same [OF that] that assms(2) by simp_all
  show ?thesis
    unfolding stores_def using storesD(2-4) [OF assms(1)] room elem by (intro conjI impI allI) simp_all
qed

lemma vec_ok_room:
  assumes "vec_ok L m xs v"
  shows "xs \<noteq> [] \<Longrightarrow> space_size L + length xs * elem_size L \<le> cap_of v"
    "min_space L \<le> cap_of v" "cap_of v \<le> isize_max"
  using assms by (auto simp: vec_ok_def stores_def cap_of_def)

text \<open>What the allocator may answer: failure, or the address of a block that is its own, aligned
  as asked and, as the code assumes, not the dangling address.\<close>

definition alloc_ok :: "layout \<Rightarrow> nat option \<Rightarrow> ('m, 'b) vec \<Rightarrow> bool" where
  "alloc_ok L answer v \<longleftrightarrow>
     (case answer of
        None \<Rightarrow> True
      | Some ptr \<Rightarrow> (heap v ptr = None \<or> ptr = data v) \<and> ptr mod space_align L = 0 \<and> ptr \<noteq> dangling L)"

lemma header_ref_ok:
  assumes "vec_ok L m xs v"
  shows "header_ref L v = Inr (header_of L m (length xs) (cap_of v))"
  using assms by (elim vec_okE) (simp add: header_ref_def stores_def)

text \<open>The arithmetic of \<open>reserve\<close> never wraps on a vector that satisfies the invariant.\<close>

lemma used_no_wrap:
  assumes "vec_ok L m xs v" "sized L"
  shows "wrap (wrap (length xs * elem_size L) + space_size L) = length xs * elem_size L + space_size L"
    "length xs * elem_size L + space_size L \<le> isize_max"
proof -
  show le: "length xs * elem_size L + space_size L \<le> isize_max"
  proof (cases "xs = []")
    case True then show ?thesis using sizedD(5) [OF assms(2)] by simp
  next
    case False
    then show ?thesis using vec_ok_room [OF assms(1)] by linarith
  qed
  have "isize_max < 2 ^ 64" by (simp add: isize_max_def)
  then show "wrap (wrap (length xs * elem_size L) + space_size L) = length xs * elem_size L + space_size L"
    using le by (simp add: wrap_def)
qed

end
