(* ===== verification/Free_Vec_Ops.thy ===== *)
theory Free_Vec_Ops
  imports Free_Vec_Inv
begin

text \<open>
  What \<^verbatim>\<open>reserve\<close>, \<^verbatim>\<open>push\<close>, \<^verbatim>\<open>pop\<close> and \<^verbatim>\<open>is_empty\<close> do to a vector that satisfies the invariant.
\<close>

section \<open>Writing the block\<close>

lemma stores_wf:
  assumes "vec_ok L m xs v" "heap v' (data v') = Some b" "stores L m' ys b" "data v' = data v"
  shows "vec_ok L m' ys v'"
  using assms by (auto simp: vec_ok_def is_allocated_def)

lemma set_header_heap [simp]:
  "heap v (data v) = Some b \<Longrightarrow> heap (set_header h v) (data v) = Some (b\<lparr>hdr := Some h\<rparr>)"
  "data (set_header h v) = data v" "meta_dropped (set_header h v) = meta_dropped v"
  "cap_of (set_header h v) = cap_of v"
  by (simp_all add: set_header_def cap_of_def split: option.splits)

text \<open>Storing one more element behind the others.\<close>

lemma stores_write:
  assumes "stores L m xs b" "length x = elem_size L"
    and "space_size L + length xs * elem_size L + elem_size L \<le> blk_size b"
  shows "stores L m (xs @ [x])
     (b\<lparr>bytes := write_bytes (space_size L + length xs * elem_size L) x (bytes b),
        hdr := Some (header_of L m (length (xs @ [x])) (blk_size b))\<rparr>)" (is "stores L m _ ?b")
proof -
  let ?off = "space_size L + length xs * elem_size L"
  have "read_bytes (bytes ?b) (space_size L + i * elem_size L) (elem_size L) = Some ((xs @ [x]) ! i) \<and>
      length ((xs @ [x]) ! i) = elem_size L"
    if i: "i < length (xs @ [x])" for i
  proof (cases "i < length xs")
    case True
    then have "Suc i * elem_size L \<le> length xs * elem_size L" by (intro mult_right_mono) simp_all
    then have "space_size L + i * elem_size L + elem_size L \<le> ?off" by simp
    then show ?thesis using storesD(6,7) [OF assms(1) True] True by (simp add: read_write_other nth_append)
  next
    case False
    then have "i = length xs" using i by simp
    then show ?thesis using assms(2) by (simp add: read_write_same)
  qed
  then show ?thesis
    unfolding stores_def using storesD(2-4) [OF assms(1)] assms(3) by (intro conjI impI allI) simp_all
qed

lemma elem_aligned:
  assumes "layout_ok L" "p mod space_align L = 0"
  shows "(p + (space_size L + n * elem_size L)) mod elem_align L = 0"
proof -
  have "elem_align L dvd p"
    using assms(2) layout_facts(3) [OF assms(1)] by (meson dvd_trans mod_eq_0_iff_dvd)
  then have "elem_align L dvd p + (space_size L + n * elem_size L)"
    using layout_facts(7,8) [OF assms(1)] by simp
  then show ?thesis by simp
qed

section \<open>reserve\<close>

text \<open>The size \<^verbatim>\<open>reserve\<close> asks the allocator for when the block is full.  The allocator may
  only be asked for it while it is a valid layout, which the code does not check.\<close>

definition grown :: "layout \<Rightarrow> nat \<Rightarrow> nat \<Rightarrow> ('m, 'b) vec \<Rightarrow> nat" where
  "grown L n additional v = max (saturating_mul (cap_of v) 2) (n * elem_size L + space_size L + additional)"

definition room :: "layout \<Rightarrow> nat \<Rightarrow> nat \<Rightarrow> ('m, 'b) vec \<Rightarrow> bool" where
  "room L n additional v \<longleftrightarrow> valid_layout (grown L n additional v) (space_align L)"

lemma stores_resized:
  assumes "stores L m xs b" "blk_size b \<le> cap" "cap \<le> isize_max"
  shows "stores L m xs (b\<lparr>blk_size := cap, hdr := Some (header_of L m (length xs) cap)\<rparr>)"
  using assms unfolding stores_def by auto

lemma realloc_ok:
  assumes "vec_ok L m xs v" "alloc_ok L answer v" "valid_layout cap (space_align L)" "cap_of v \<le> cap"
  shows "case realloc L answer (cap_of v) cap v of
     Inl e \<Rightarrow> answer = None \<and> e = AllocError (cap_of v)
   | Inr v' \<Rightarrow> vec_ok L m xs (set_header (header_of L m (length xs) cap) v') \<and>
       header_ref L v' = header_ref L v \<and> cap_of v' = cap \<and> meta_dropped v' = meta_dropped v"
proof -
  obtain b where b: "is_allocated L v" "data v mod space_align L = 0" "heap v (data v) = Some b"
    "stores L m xs b" "cap_of v = blk_size b"
    using assms(1) by (rule vec_okE)
  note s = storesD [OF b(4)]
  have cap: "cap \<le> isize_max" using assms(3) by (simp add: valid_layout_def)
  show ?thesis
  proof (cases answer)
    case None
    then show ?thesis using b(3,5) s(2) assms(3) by (simp add: realloc_def)
  next
    case (Some ptr)
    let ?v = "v\<lparr>data := ptr, heap := (heap v)(data v := None, ptr \<mapsto> b\<lparr>blk_size := cap\<rparr>)\<rparr>"
    have re: "realloc L answer (cap_of v) cap v = Inr ?v"
      using Some b(3,5) s(2) assms(3) by (simp add: realloc_def)
    have ptr: "ptr mod space_align L = 0" "ptr \<noteq> dangling L"
      using assms(2) Some by (simp_all add: alloc_ok_def)
    have "stores L m xs (b\<lparr>blk_size := cap, hdr := Some (header_of L m (length xs) cap)\<rparr>)"
      using stores_resized [OF b(4) _ cap] assms(4) b(5) by simp
    then have "vec_ok L m xs (set_header (header_of L m (length xs) cap) ?v)"
      using ptr by (simp add: vec_ok_def is_allocated_def set_header_def)
    moreover have "header_ref L ?v = header_ref L v"
      using b(1,3) s(1) ptr by (simp add: header_ref_def is_allocated_def)
    ultimately show ?thesis using re by (simp add: cap_of_def)
  qed
qed

lemma reserve_ok:
  assumes "vec_ok L m xs v" "sized L" "alloc_ok L answer v"
    and "room L (length xs) additional v"
  shows "case reserve L answer additional v of
     Inl e \<Rightarrow> answer = None \<and> e = AllocError (cap_of v) \<and> cap_of v < length xs * elem_size L + space_size L + additional
   | Inr v' \<Rightarrow> vec_ok L m xs v' \<and> meta_dropped v' = meta_dropped v \<and> cap_of v \<le> cap_of v' \<and>
       (additional \<noteq> 0 \<longrightarrow> length xs * elem_size L + space_size L + additional \<le> cap_of v')"
proof (cases "additional = 0")
  case True
  then show ?thesis using assms(1) by (simp add: reserve_def)
next
  case False
  let ?req = "length xs * elem_size L + space_size L + additional"
  let ?new = "grown L (length xs) additional v"
  have valid: "valid_layout ?new (space_align L)" using assms(4) by (simp add: room_def)
  have big: "cap_of v \<le> ?new" "?req \<le> ?new"
    using vec_ok_room(3) [OF assms(1)]
    by (simp_all add: grown_def saturating_mul_def isize_max_def usize_max_def)
  have req: "?req \<le> usize_max"
    using big(2) valid by (simp add: valid_layout_def isize_max_def usize_max_def)
  have used: "checked_add (wrap (wrap (length xs * elem_size L) + space_size L)) additional = Some ?req"
    using used_no_wrap(1) [OF assms(1,2)] req by (simp add: checked_add_def)
  show ?thesis
  proof (cases "?req \<le> cap_of v")
    case True
    then show ?thesis using False used assms(1) by (simp add: reserve_def header_ref_ok [OF assms(1)])
  next
    case full: False
    have new: "max (saturating_mul (cap_of v) 2) ?req = ?new" by (simp add: grown_def)
    have re: "reserve L answer additional v = and_then (realloc L answer (cap_of v) ?new v) (\<lambda>w.
        and_then (header_ref L w) (\<lambda>h. Inr (set_header (h\<lparr>capacity := ?new\<rparr>) w)))"
      using False full used by (simp add: reserve_def header_ref_ok [OF assms(1)] Let_def new)
    show ?thesis
    proof (cases "realloc L answer (cap_of v) ?new v")
      case (Inl e)
      then show ?thesis using realloc_ok [OF assms(1,3) valid big(1)] full re by simp
    next
      case (Inr w)
      then have "vec_ok L m xs (set_header (header_of L m (length xs) ?new) w)"
        "header_ref L w = Inr (header_of L m (length xs) (cap_of v))"
        "cap_of w = ?new" "meta_dropped w = meta_dropped v"
        using realloc_ok [OF assms(1,3) valid big(1)] header_ref_ok [OF assms(1)] by simp_all
      then show ?thesis using re Inr big by simp
    qed
  qed
qed

section \<open>push\<close>

lemma push_write:
  assumes "vec_ok L m xs v" "sized L" "length x = elem_size L"
    and "elem_size L \<noteq> 0 \<longrightarrow> length xs * elem_size L + space_size L + elem_size L \<le> cap_of v"
    and "Suc (length xs) \<le> usize_max"
  shows "\<exists>v'. and_then (header_ref L v) (\<lambda>h.
     and_then (write_elem L (space_size L + len h * elem_size L) x v) (\<lambda>v.
     Inr (set_header (h\<lparr>len := wrap (len h + 1)\<rparr>) v))) = Inr v' \<and>
     vec_ok L m (xs @ [x]) v' \<and> meta_dropped v' = meta_dropped v"
proof -
  obtain b where b: "is_allocated L v" "data v mod space_align L = 0" "heap v (data v) = Some b"
    "stores L m xs b" "cap_of v = blk_size b"
    using assms(1) by (rule vec_okE)
  note ok = sizedD(1) [OF assms(2)]
  let ?off = "space_size L + length xs * elem_size L"
  let ?v = "v\<lparr>heap := (heap v)(data v \<mapsto> b\<lparr>bytes := write_bytes ?off x (bytes b)\<rparr>)\<rparr>"
  let ?h = "header_of L m (length (xs @ [x])) (blk_size b)"
  have fits: "?off + elem_size L \<le> blk_size b"
  proof (cases "elem_size L = 0")
    case True
    then show ?thesis using storesD(3) [OF b(4)] min_space_zst [OF True] by simp
  qed (use assms(4) b(5) in simp)
  have "header_size L \<le> ?off" using layout_facts(5) [OF ok] by simp
  then have w: "write_elem L ?off x v = Inr ?v"
    using b(3) fits elem_aligned [OF ok b(2)] assms(3) by (simp add: write_elem_def)
  have len: "wrap (length xs + 1) = length (xs @ [x])"
    using assms(5) by (simp add: wrap_def usize_max_def)
  have "vec_ok L m (xs @ [x]) (set_header ?h ?v)"
    by (rule stores_wf [OF assms(1) _ stores_write [OF b(4) assms(3)]]) (use fits in \<open>simp_all add: set_header_def\<close>)
  then show ?thesis using w len by (simp add: header_ref_ok [OF assms(1)] b(5))
qed

lemma push_effect:
  assumes "vec_ok L m xs v" "sized L" "alloc_ok L answer v" "room L (length xs) (elem_size L) v"
    and "length x = elem_size L" "Suc (length xs) \<le> usize_max"
  shows "case push L answer x v of
     Inl e \<Rightarrow> answer = None \<and> e = AllocError (cap_of v) \<and>
       cap_of v < length xs * elem_size L + space_size L + elem_size L
   | Inr v' \<Rightarrow> vec_ok L m (xs @ [x]) v' \<and> meta_dropped v' = meta_dropped v"
proof (cases "reserve L answer (elem_size L) v")
  case (Inl e)
  then show ?thesis using reserve_ok [OF assms(1-4)] by (simp add: push_def)
next
  case (Inr w)
  then have w: "vec_ok L m xs w" "meta_dropped w = meta_dropped v"
    "elem_size L \<noteq> 0 \<longrightarrow> length xs * elem_size L + space_size L + elem_size L \<le> cap_of w"
    using reserve_ok [OF assms(1-4)] by simp_all
  obtain v' where "push L answer x v = Inr v'" "vec_ok L m (xs @ [x]) v'" "meta_dropped v' = meta_dropped w"
    using push_write [OF w(1) assms(2,5) w(3) assms(6)] unfolding push_def Inr by auto
  then show ?thesis using w(2) by simp
qed

section \<open>pop\<close>

text \<open>A layout another element type could have: the metadata, and so the header, is the same.\<close>

definition same_header :: "layout \<Rightarrow> layout \<Rightarrow> bool" where
  "same_header L L' \<longleftrightarrow> header_size L' = header_size L \<and> header_align L' = header_align L"

lemma same_header_refl [simp]: "same_header L L"
  by (simp add: same_header_def)

lemma header_ref_any:
  assumes "vec_ok L m xs v" "is_allocated L' v"
  shows "header_ref L' v = Inr (header_of L m (length xs) (cap_of v))"
  using assms(1) by (rule vec_okE) (simp add: header_ref_def assms(2) storesD(1))

lemma is_empty_ok:
  assumes "vec_ok L m xs v" "is_allocated L' v"
  shows "is_empty L' v = Inr (xs = [])"
  by (simp add: is_empty_def header_ref_any [OF assms])

lemma pop_nil:
  assumes "vec_ok L m [] v" "is_allocated L' v"
  shows "pop L' v = Inr (None, v)"
  by (simp add: pop_def header_ref_any [OF assms])

lemma pop_snoc:
  assumes "vec_ok L m (xs @ [x]) v" "layout_ok L" "same_header L L'" "is_allocated L' v"
  shows "\<exists>off v'. pop L' v = Inr (Some (m, off), v') \<and> off = space_size L + length xs * elem_size L \<and>
     read_elem (elem_align L) (elem_size L) off v' = Inr x \<and> vec_ok L m xs v' \<and>
     meta_dropped v' = meta_dropped v \<and> data v' = data v"
proof -
  obtain b where b: "is_allocated L v" "data v mod space_align L = 0" "heap v (data v) = Some b"
    "stores L m (xs @ [x]) b" "cap_of v = blk_size b"
    using assms(1) by (rule vec_okE)
  let ?off = "space_size L + length xs * elem_size L"
  let ?v = "set_header (header_of L m (length xs) (blk_size b)) v"
  have fits: "?off + elem_size L \<le> blk_size b" using storesD(5) [OF b(4)] by simp
  have last: "read_bytes (bytes b) ?off (elem_size L) = Some x"
    using storesD(7) [OF b(4), of "length xs"] by simp
  have ok': "vec_ok L m xs ?v"
    by (rule stores_wf [OF assms(1) _ stores_header [OF b(4)]]) (simp_all add: b(3))
  have "pop_base L' (header_of L m (Suc (length xs)) (blk_size b)) = space_size L"
    by (rule pop_base_space [OF assms(2)]) (use assms(3) in \<open>simp_all add: same_header_def\<close>)
  then have "pop L' v = Inr (Some (m, ?off), ?v)"
    using b(3) fits by (simp add: pop_def header_ref_any [OF assms(1,4)] b(5) Let_def)
  moreover have "read_elem (elem_align L) (elem_size L) ?off ?v = Inr x"
    using b(3) fits last elem_aligned [OF assms(2) b(2)] by (simp add: read_elem_def)
  ultimately show ?thesis using ok' by simp
qed

end
