(* ===== verification/Free_Vec_Init.thy ===== *)
theory Free_Vec_Init
  imports Free_Vec_Ops
begin

text \<open>
  What \<^verbatim>\<open>new\<close>, \<^verbatim>\<open>init\<close>, \<^verbatim>\<open>deallocate\<close> and \<^verbatim>\<open>drop\<close> do: a fresh vector, a vector whose element type
  changes, and the end of one.
\<close>

section \<open>deallocate and drop\<close>

lemma deallocate_ok:
  assumes "vec_ok L m xs v" "is_allocated L' v"
  shows "deallocate L' panics v = Inr (if panics m then Unwound else Returned (),
     v\<lparr>heap := (heap v)(data v := None), data := dangling L', meta_dropped := meta_dropped v @ [m]\<rparr>)"
  using assms(1) by (rule vec_okE)
    (simp add: deallocate_def header_ref_any [OF assms] assms(2) storesD(2))

lemma drop_vec_ok:
  assumes "vec_ok L m [] v" "is_allocated L' v"
  shows "drop_vec L' panics v = Inr (if panics m then Unwound else Returned (),
     v\<lparr>heap := (heap v)(data v := None), data := dangling L', meta_dropped := meta_dropped v @ [m]\<rparr>)"
  using assms by (simp add: drop_vec_def is_empty_ok deallocate_ok)

section \<open>allocate, init and new\<close>

lemma stores_empty:
  assumes "sized L" "MIN_NON_ZERO_CAP L \<le> blk_size b" "blk_size b \<le> isize_max" "blk_align b = space_align L"
  shows "stores L m [] (b\<lparr>hdr := Some (header_of L m 0 (blk_size b))\<rparr>)"
proof -
  have "min_space L \<le> MIN_NON_ZERO_CAP L"
    using min_space_le [OF sizedD(1) [OF assms(1)]] MIN_ge [of L] by (rule le_trans)
  then show ?thesis using assms(2-) by (auto simp: stores_def)
qed

lemma init_write_fresh:
  assumes "\<not> is_allocated L v" "sized L" "alloc_ok L answer v"
  shows "case init_write L panics answer m v of
     Inl e \<Rightarrow> answer = None \<and> e = AllocError (MIN_NON_ZERO_CAP L)
   | Inr (out, v') \<Rightarrow> out = Returned () \<and> vec_ok L m [] v' \<and> cap_of v' = MIN_NON_ZERO_CAP L \<and> meta_dropped v' = meta_dropped v"
proof (cases answer)
  case None
  then show ?thesis using assms sizedD(6) [OF assms(2)] by (simp add: init_write_def allocate_def)
next
  case (Some ptr)
  let ?b = "\<lparr>blk_size = MIN_NON_ZERO_CAP L, blk_align = space_align L, hdr = None, bytes = (\<lambda>_. None)\<rparr>"
  let ?v = "v\<lparr>data := ptr, heap := (heap v)(ptr \<mapsto> ?b)\<rparr>"
  let ?h = "header_of L m 0 (MIN_NON_ZERO_CAP L)"
  have ptr: "ptr mod space_align L = 0" "ptr \<noteq> dangling L"
    using assms(3) Some by (simp_all add: alloc_ok_def)
  have wr: "init_write L panics answer m v = Inr (Returned (), set_header ?h ?v)"
    using Some assms(1) sizedD(2,3,6) [OF assms(2)] by (simp add: init_write_def allocate_def Let_def)
  have "MIN_NON_ZERO_CAP L \<le> isize_max" using sizedD(4) [OF assms(2)] by simp
  then have "stores L m [] (?b\<lparr>hdr := Some ?h\<rparr>)"
    using stores_empty [OF assms(2), of ?b m] by simp
  then have "vec_ok L m [] (set_header ?h ?v)"
    using ptr by (simp add: vec_ok_def is_allocated_def set_header_def)
  then show ?thesis using wr by (simp add: set_header_def cap_of_def)
qed

text \<open>A vector of one element type read at another one of the same alignment: only an empty
  vector carries over.\<close>

lemma init_write_again:
  assumes "vec_ok L0 m0 [] v" "sized L" "same_header L0 L" "space_align L0 = space_align L"
  shows "\<exists>v'. init_write L panics answer m v = Inr (if panics m0 then Unwound else Returned (), v') \<and> vec_ok L m [] v' \<and> meta_dropped v' = meta_dropped v @ [m0]"
proof -
  obtain b where b: "is_allocated L0 v" "data v mod space_align L0 = 0" "heap v (data v) = Some b"
    "stores L0 m0 [] b" "cap_of v = blk_size b"
    using assms(1) by (rule vec_okE)
  have al: "is_allocated L v" using b(1) assms(4) by (simp add: is_allocated_def dangling_def)
  let ?v = "(set_header (header_of L m 0 (blk_size b)) v)\<lparr>meta_dropped := meta_dropped v @ [m0]\<rparr>"
  have "init_write L panics answer m v = Inr (if panics m0 then Unwound else Returned (), ?v)"
    using al b(5) by (simp add: init_write_def header_ref_any [OF assms(1) al] sizedD(2,3) [OF assms(2)])
  moreover have "stores L m [] (b\<lparr>hdr := Some (header_of L m 0 (blk_size b))\<rparr>)"
    using b(4) assms(3,4) by (auto simp: stores_def min_space_def same_header_def)
  then have "vec_ok L m [] ?v"
    using al b(2,3) assms(4) by (simp add: vec_ok_def is_allocated_def)
  ultimately show ?thesis by simp
qed

lemma reserve_retyped:
  fixes v :: "('m, 'b) vec"
  assumes "vec_ok L0 m0 [] v" "sized L" "space_align L0 = space_align L"
    and "alloc_ok L answer v" "room L 0 n v"
  shows "case reserve L answer n v of
     Inl e \<Rightarrow> answer = None \<and> e = AllocError (cap_of v)
   | Inr w \<Rightarrow> vec_ok L0 m0 [] w \<and> meta_dropped w = meta_dropped v"
proof (cases "n = 0")
  case True
  then show ?thesis using assms(1) by (simp add: reserve_def)
next
  case False
  note same = assms(3)
  have "is_allocated L0 v" using assms(1) by (simp add: vec_ok_def)
  then have al: "is_allocated L v" using same by (simp add: is_allocated_def dangling_def)
  have valid: "valid_layout (grown L 0 n v) (space_align L0)" using assms(5) same by (simp add: room_def)
  have big: "cap_of v \<le> grown L 0 n v" "space_size L + n \<le> grown L 0 n v"
    using vec_ok_room(3) [OF assms(1)]
    by (simp_all add: grown_def saturating_mul_def isize_max_def usize_max_def)
  have req: "space_size L + n \<le> usize_max"
    using big(2) valid by (simp add: valid_layout_def isize_max_def usize_max_def)
  then have used: "checked_add (wrap (wrap (0 * elem_size L) + space_size L)) n = Some (space_size L + n)"
    by (simp add: checked_add_def wrap_def usize_max_def)
  have alloc: "alloc_ok L0 answer v" using assms(4) same by (simp add: alloc_ok_def dangling_def split: option.splits)
  have new: "max (saturating_mul (cap_of v) 2) (space_size L + n) = grown L 0 n v" by (simp add: grown_def)
  have re: "realloc L = (realloc L0 :: _ \<Rightarrow> _ \<Rightarrow> _ \<Rightarrow> ('m, 'b) vec \<Rightarrow> _)" unfolding realloc_def same ..
  have href: "header_ref L = (header_ref L0 :: ('m, 'b) vec \<Rightarrow> _)"
    by (intro ext) (simp add: header_ref_def is_allocated_def dangling_def same)
  show ?thesis
  proof (cases "space_size L + n \<le> cap_of v")
    case True
    then show ?thesis using False used assms(1) by (simp add: reserve_def header_ref_any [OF assms(1) al])
  next
    case full: False
    have eq: "reserve L answer n v = and_then (realloc L0 answer (cap_of v) (grown L 0 n v) v) (\<lambda>w.
        and_then (header_ref L0 w) (\<lambda>h. Inr (set_header (h\<lparr>capacity := grown L 0 n v\<rparr>) w)))"
      using False full used
      by (simp add: reserve_def header_ref_any [OF assms(1) al] Let_def new re href [symmetric])
    show ?thesis
    proof (cases "realloc L0 answer (cap_of v) (grown L 0 n v) v")
      case (Inl e)
      then show ?thesis using realloc_ok [OF assms(1) alloc valid big(1)] eq by simp
    next
      case (Inr w)
      then have "vec_ok L0 m0 [] (set_header (header_of L0 m0 0 (grown L 0 n v)) w)"
        "header_ref L0 w = Inr (header_of L0 m0 0 (cap_of v))" "meta_dropped w = meta_dropped v"
        using realloc_ok [OF assms(1) alloc valid big(1)] header_ref_ok [OF assms(1)] by simp_all
      then show ?thesis using eq Inr by simp
    qed
  qed
qed

lemma new_effect:
  fixes m :: 'm
  assumes "sized L" "alloc_ok L answer (\<lparr>data = dangling L, heap = (\<lambda>_. None), meta_dropped = []\<rparr> :: ('m, 'b) vec)"
  shows "case (new L panics answer m :: (vec_error, unit outcome \<times> ('m, 'b) vec) result) of
     Inl e \<Rightarrow> answer = None \<and> e = AllocError (MIN_NON_ZERO_CAP L)
   | Inr (out, v) \<Rightarrow> out = Returned () \<and> vec_ok L m [] v \<and> cap_of v = MIN_NON_ZERO_CAP L \<and> meta_dropped v = []"
  using init_write_fresh [OF _ assms, where panics = panics and m = m]
  by (simp add: new_def init_def init_dealloc_def init_reserve_def is_allocated_def
      split: sum.splits prod.splits)

text \<open>\<^verbatim>\<open>init\<close> on a block of the wrong alignment gives it back.  If dropping the old metadata
  panics, the vector is left without a block.\<close>

lemma init_realigned:
  fixes m :: 'm and v :: "('m, 'b) vec"
  assumes "vec_ok L0 m0 [] v" "sized L" "is_allocated L v" "space_align L0 \<noteq> space_align L"
    and "alloc_ok L (snd answers) v"
  shows "case init L panics answers m v of
     Inl e \<Rightarrow> (\<not> panics m0 \<and> snd answers = None \<and> e = AllocError (MIN_NON_ZERO_CAP L)) \<or>
       (panics m0 \<and> panics m \<and> e = DoublePanic)
   | Inr (out, v') \<Rightarrow> if panics m0
       then out = Unwound \<and> \<not> is_allocated L v' \<and> heap v' = (heap v)(data v := None) \<and>
         meta_dropped v' = meta_dropped v @ [m0, m]
       else out = Returned () \<and> vec_ok L m [] v' \<and> meta_dropped v' = meta_dropped v @ [m0]"
proof -
  let ?w = "v\<lparr>heap := (heap v)(data v := None), data := dangling L, meta_dropped := meta_dropped v @ [m0]\<rparr>"
  have dealloc: "init_dealloc L panics v = Inr (if panics m0 then Unwound else Returned (), ?w)"
    using assms(4) by (simp add: init_dealloc_def assms(3) header_ref_any [OF assms(1,3)]
        sizedD(3) [OF assms(2)] deallocate_ok [OF assms(1,3)])
  show ?thesis
  proof (cases "panics m0")
    case True
    then show ?thesis using dealloc by (simp add: init_def drop_unwinding_def is_allocated_def)
  next
    case False
    then have "init L panics answers m v = init_write L panics (snd answers) m ?w"
      using dealloc by (simp add: init_def init_reserve_def is_allocated_def)
    moreover have "alloc_ok L (snd answers) ?w"
      using assms(5) by (auto simp: alloc_ok_def split: option.splits)
    ultimately show ?thesis
      using init_write_fresh [where L = L and v = ?w and answer = "snd answers" and panics = panics and m = m]
        assms(2) False
      by (simp add: is_allocated_def split: sum.splits prod.splits)
  qed
qed

lemma init_in_place:
  fixes m :: 'm and v :: "('m, 'b) vec"
  assumes "vec_ok L0 m0 [] v" "sized L" "same_header L0 L" "is_allocated L v" "space_align L0 = space_align L"
    and "alloc_ok L (fst answers) v" "room L 0 (MIN_NON_ZERO_CAP L - cap_of v) v"
  shows "case init L panics answers m v of
     Inl e \<Rightarrow> fst answers = None \<and> e = AllocError (cap_of v)
   | Inr (out, v') \<Rightarrow> out = (if panics m0 then Unwound else Returned ()) \<and> vec_ok L m [] v' \<and>
       meta_dropped v' = meta_dropped v @ [m0]"
proof -
  have dealloc: "init_dealloc L panics v = Inr (Returned (), v)"
    using assms(5) by (simp add: init_dealloc_def assms(4) header_ref_any [OF assms(1,4)] sizedD(3) [OF assms(2)])
  let ?r = "init_reserve L (fst answers) v"
  have "?r = (if cap_of v < MIN_NON_ZERO_CAP L then reserve L (fst answers) (MIN_NON_ZERO_CAP L - cap_of v) v else Inr v)"
    by (simp add: init_reserve_def assms(4) header_ref_any [OF assms(1,4)])
  then have r: "case ?r of Inl e \<Rightarrow> fst answers = None \<and> e = AllocError (cap_of v)
      | Inr w \<Rightarrow> vec_ok L0 m0 [] w \<and> meta_dropped w = meta_dropped v"
    using reserve_retyped [OF assms(1,2,5,6,7)] assms(1) by simp
  have i: "init L panics answers m v = and_then ?r (init_write L panics (snd answers) m)"
    by (simp add: init_def dealloc)
  show ?thesis
  proof (cases ?r)
    case (Inl e)
    then show ?thesis using r i by simp
  next
    case (Inr w)
    then have "vec_ok L0 m0 [] w" "meta_dropped w = meta_dropped v" using r by simp_all
    then show ?thesis using init_write_again [OF _ assms(2,3,5), where ?m0.0 = m0 and v = w and panics = panics and answer = "snd answers" and m = m] i Inr
      by auto
  qed
qed

lemma init_effect:
  fixes m :: 'm and v :: "('m, 'b) vec"
  assumes "vec_ok L0 m0 [] v" "sized L" "same_header L0 L" "is_allocated L v"
    and "alloc_ok L (fst answers) v" "alloc_ok L (snd answers) v"
    and "room L 0 (MIN_NON_ZERO_CAP L - cap_of v) v"
  shows "case init L panics answers m v of
     Inl e \<Rightarrow> (fst answers = None \<and> e = AllocError (cap_of v)) \<or>
       (snd answers = None \<and> e = AllocError (MIN_NON_ZERO_CAP L)) \<or>
       (panics m0 \<and> panics m \<and> e = DoublePanic)
   | Inr (out, v') \<Rightarrow> out = (if panics m0 then Unwound else Returned ()) \<and>
       (if panics m0 \<and> space_align L0 \<noteq> space_align L
        then \<not> is_allocated L v' \<and> heap v' = (heap v)(data v := None) \<and> meta_dropped v' = meta_dropped v @ [m0, m]
        else vec_ok L m [] v' \<and> meta_dropped v' = meta_dropped v @ [m0])"
proof (cases "space_align L0 = space_align L")
  case True
  then show ?thesis using init_in_place [OF assms(1-4) True assms(5,7), where panics = panics and m = m] by (auto split: sum.splits)
next
  case False
  then show ?thesis
    using init_realigned [OF assms(1,2,4) False assms(6), where panics = panics and m = m] by (auto split: sum.splits if_splits)
qed

text \<open>A vector whose type changed through a cast reference still has an owner of the old type.
  After an \<^verbatim>\<open>init\<close> that unwound without a block, the dangling address of the new type is not
  the dangling address the owner compares with: dropping the owner reads a header that is not
  there.\<close>

lemma unwound_init_dangles:
  assumes "vec_ok L0 m0 [] v" "sized L" "is_allocated L v" "space_align L0 \<noteq> space_align L"
    and "alloc_ok L (snd answers) v" "panics m0" "heap v (space_align L) = None"
    and "init L panics answers m v = Inr (out, v')"
  shows "out = Unwound \<and> drop_vec L panics v' = Inr (Returned (), v') \<and>
    drop_vec L0 panics v' = Inl (Undefined DanglingPointer)"
proof -
  have v': "out = Unwound" "\<not> is_allocated L v'" "heap v' = (heap v)(data v := None)"
    using init_realigned [OF assms(1-5), where panics = panics and m = m] assms(6,8) by simp_all
  then have "data v' = space_align L" by (simp add: is_allocated_def dangling_def)
  then show ?thesis using v' assms(4,7)
    by (simp add: drop_vec_def deallocate_def is_empty_def header_ref_def is_allocated_def dangling_def)
qed

end
