(* ===== verification/Stack_Spec.thy ===== *)
theory Stack_Spec
  imports Prelude
begin

text \<open>
  The interface of a last-in first-out container, in two stages: a container that can be popped,
  and one that can be pushed to as well.  Commands are run on an implementation and on a plain
  list; \<open>run_simulates\<close> says that the results agree.
\<close>

section \<open>Popping\<close>

text \<open>A container whose last element comes off first.  \<open>ok xs s\<close> says that \<open>s\<close> holds \<open>xs\<close>, oldest
  first.  Popping must neither fail nor lose anything.\<close>

locale poppable =
  fixes ok :: "'x list \<Rightarrow> 's \<Rightarrow> bool"
    and pop :: "'s \<Rightarrow> ('e, 'x option \<times> 's) result"
  assumes pop_empty: "ok [] s \<Longrightarrow> pop s = Inr (None, s)"
    and pop_last: "ok (xs @ [x]) s \<Longrightarrow> \<exists>s'. pop s = Inr (Some x, s') \<and> ok xs s'"

section \<open>Pushing and popping\<close>

text \<open>\<open>fits a x s\<close> is what a push of \<open>x\<close> needs of the world: the allocator's answer \<open>a\<close> and the
  room left.  A push can only fail for want of memory.\<close>

locale stack = poppable ok pop
  for ok :: "'x list \<Rightarrow> 's \<Rightarrow> bool" and pop :: "'s \<Rightarrow> ('e, 'x option \<times> 's) result" +
  fixes fits :: "'a \<Rightarrow> 'x \<Rightarrow> 'x list \<Rightarrow> 's \<Rightarrow> bool"
    and push :: "'a \<Rightarrow> 'x \<Rightarrow> 's \<Rightarrow> ('e, 's) result"
    and out_of_memory :: "'e \<Rightarrow> bool"
  assumes push_ok: "ok xs s \<Longrightarrow> fits a x xs s \<Longrightarrow> push a x s = Inr s' \<Longrightarrow> ok (xs @ [x]) s'"
    and push_error: "ok xs s \<Longrightarrow> fits a x xs s \<Longrightarrow> push a x s = Inl e \<Longrightarrow> out_of_memory e"

section \<open>Runs\<close>

datatype ('a, 'x) command = Push 'a 'x | Pop

fun stack_run :: "('a \<Rightarrow> 'x \<Rightarrow> 's \<Rightarrow> ('e, 's) result) \<Rightarrow> ('s \<Rightarrow> ('e, 'x option \<times> 's) result) \<Rightarrow>
    ('a, 'x) command list \<Rightarrow> 's \<Rightarrow> ('e, 'x option list \<times> 's) result" where
  "stack_run push pop [] s = Inr ([], s)"
| "stack_run push pop (Push a x # cs) s =
     (case push a x s of Inl e \<Rightarrow> Inl e | Inr s' \<Rightarrow> stack_run push pop cs s')"
| "stack_run push pop (Pop # cs) s =
     (case pop s of Inl e \<Rightarrow> Inl e | Inr (r, s') \<Rightarrow>
        (case stack_run push pop cs s' of Inl e \<Rightarrow> Inl e | Inr (rs, s'') \<Rightarrow> Inr (r # rs, s'')))"

text \<open>The same commands on a list.\<close>

fun list_run :: "('a, 'x) command list \<Rightarrow> 'x list \<Rightarrow> 'x option list \<times> 'x list" where
  "list_run [] xs = ([], xs)"
| "list_run (Push a x # cs) xs = list_run cs (xs @ [x])"
| "list_run (Pop # cs) xs =
     (if xs = [] then map_prod (Cons None) id (list_run cs [])
      else map_prod (Cons (Some (last xs))) id (list_run cs (butlast xs)))"

text \<open>Every push of the run fits where it happens.\<close>

fun fits_run :: "('a \<Rightarrow> 'x \<Rightarrow> 'x list \<Rightarrow> 's \<Rightarrow> bool) \<Rightarrow> ('a \<Rightarrow> 'x \<Rightarrow> 's \<Rightarrow> ('e, 's) result) \<Rightarrow>
    ('s \<Rightarrow> ('e, 'x option \<times> 's) result) \<Rightarrow> ('a, 'x) command list \<Rightarrow> 'x list \<Rightarrow> 's \<Rightarrow> bool" where
  "fits_run fits push pop [] xs s = True"
| "fits_run fits push pop (Push a x # cs) xs s = (fits a x xs s \<and>
     (case push a x s of Inl e \<Rightarrow> True | Inr s' \<Rightarrow> fits_run fits push pop cs (xs @ [x]) s'))"
| "fits_run fits push pop (Pop # cs) xs s =
     (case pop s of Inl e \<Rightarrow> True | Inr (r, s') \<Rightarrow> fits_run fits push pop cs (butlast xs) s')"

context stack
begin

lemma run_simulates:
  assumes "ok xs s" "fits_run fits push pop cs xs s"
  shows "case stack_run push pop cs s of
      Inl e \<Rightarrow> out_of_memory e
    | Inr (rs, s') \<Rightarrow> rs = fst (list_run cs xs) \<and> ok (snd (list_run cs xs)) s'"
  using assms
proof (induction cs arbitrary: xs s)
  case Nil
  then show ?case by simp
next
  case (Cons c cs)
  show ?case
  proof (cases c)
    case (Push a x)
    show ?thesis
    proof (cases "push a x s")
      case (Inl e)
      then show ?thesis using Cons.prems Push push_error by simp
    next
      case (Inr s')
      have "ok (xs @ [x]) s'" by (rule push_ok [OF Cons.prems(1) _ Inr]) (use Cons.prems Push in simp)
      then show ?thesis using Cons.prems Push Inr Cons.IH [of "xs @ [x]" s']
        by (simp split: sum.splits prod.splits)
    qed
  next
    case Pop
    show ?thesis
    proof (cases xs rule: rev_cases)
      case Nil
      then show ?thesis using Cons.prems Pop pop_empty [of s] Cons.IH [of "[]" s]
        by (simp split: sum.splits prod.splits)
    next
      case (snoc ys y)
      then obtain s' where s': "pop s = Inr (Some y, s')" "ok ys s'" using Cons.prems pop_last by blast
      then show ?thesis using Cons.prems Pop snoc Cons.IH [of ys s']
        by (simp split: sum.splits prod.splits)
    qed
  qed
qed

end

end
