(* ===== verification/Free_Vec_Stack.thy ===== *)
theory Free_Vec_Stack
  imports Free_Vec_Init Stack_Spec
begin

text \<open>
  \<^verbatim>\<open>FreestandingVec\<close> implements the stack interface: at its own element type in full, and for popping at
  any type with the same metadata.
\<close>

section \<open>FreestandingVec as a stack\<close>

text \<open>\<^verbatim>\<open>pop\<close> with a callback that reads the value out of the vector, at the type the value was
  pushed with.  The vector itself is only known at the layout \<open>L'\<close>.\<close>

definition pop_read :: "layout \<Rightarrow> layout \<Rightarrow> ('m, 'b) vec \<Rightarrow> (vec_error, 'b list option \<times> ('m, 'b) vec) result" where
  "pop_read L L' v = and_then (pop L' v) (\<lambda>(r, v). case r of
     None \<Rightarrow> Inr (None, v)
   | Some (m, off) \<Rightarrow> and_then (read_elem (elem_align L) (elem_size L) off v) (\<lambda>x. Inr (Some x, v)))"

definition erased_ok :: "layout \<Rightarrow> layout \<Rightarrow> 'm \<Rightarrow> 'm list \<Rightarrow> 'b list list \<Rightarrow> ('m, 'b) vec \<Rightarrow> bool" where
  "erased_ok L L' m ms xs v \<longleftrightarrow> vec_ok L m xs v \<and> sized L \<and> same_header L L' \<and> is_allocated L' v \<and>
     meta_dropped v = ms"

definition push_room :: "layout \<Rightarrow> nat option \<Rightarrow> 'b list \<Rightarrow> nat \<Rightarrow> ('m, 'b) vec \<Rightarrow> bool" where
  "push_room L answer x n v \<longleftrightarrow> alloc_ok L answer v \<and> room L n (elem_size L) v \<and>
     length x = elem_size L \<and> n < usize_max"

abbreviation push_fits :: "layout \<Rightarrow> nat option \<Rightarrow> 'b list \<Rightarrow> 'b list list \<Rightarrow> ('m, 'b) vec \<Rightarrow> bool" where
  "push_fits L answer x xs v \<equiv> push_room L answer x (length xs) v"

fun alloc_error :: "vec_error \<Rightarrow> bool" where
  "alloc_error (AllocError n) = True"
| "alloc_error e = False"

lemma set_header_alloc [simp]: "is_allocated L' (set_header h v) = is_allocated L' v"
  by (simp add: is_allocated_def)

lemma pop_read_last:
  assumes "erased_ok L L' m ms (xs @ [x]) v"
  shows "\<exists>off v'. pop L' v = Inr (Some (m, off), v') \<and> read_elem (elem_align L) (elem_size L) off v' = Inr x \<and>
    erased_ok L L' m ms xs v' \<and> data v' = data v"
proof -
  have "vec_ok L m (xs @ [x]) v" "layout_ok L" "same_header L L'" "is_allocated L' v"
    using assms sizedD(1) by (auto simp: erased_ok_def)
  from pop_snoc [OF this] show ?thesis
    using assms by (auto simp: erased_ok_def is_allocated_def)
qed

text \<open>A vector of type \<open>L\<close> can be popped at any type with the same metadata, and is a stack at its
  own type.\<close>

interpretation fv: poppable "erased_ok L L' m ms" "pop_read L L'" for L L' m ms
proof
  show "pop_read L L' v = Inr (None, v)" if "erased_ok L L' m ms [] v" for v :: "('a, 'b) vec"
    using that pop_nil [of L m v L'] by (simp add: erased_ok_def pop_read_def)
  show "\<exists>v'. pop_read L L' v = Inr (Some x, v') \<and> erased_ok L L' m ms xs v'"
    if "erased_ok L L' m ms (xs @ [x]) v" for xs x and v :: "('a, 'b) vec"
    using pop_read_last [OF that] by (auto simp: pop_read_def)
qed

interpretation fvs: stack "erased_ok L L m ms" "pop_read L L" "push_fits L" "push L" alloc_error for L m ms
proof
  fix a x xs and v v' :: "('a, 'b) vec" and e
  assume v: "erased_ok L L m ms xs v" "push_fits L a x xs v"
  then have e: "case push L a x v of Inl e \<Rightarrow> a = None \<and> e = AllocError (cap_of v) \<and>
      cap_of v < length xs * elem_size L + space_size L + elem_size L
    | Inr v' \<Rightarrow> vec_ok L m (xs @ [x]) v' \<and> meta_dropped v' = meta_dropped v"
    by (intro push_effect) (simp_all add: erased_ok_def push_room_def)
  show "erased_ok L L m ms (xs @ [x]) v'" if "push L a x v = Inr v'"
    using e that v(1) by (simp add: erased_ok_def vec_ok_def)
  show "alloc_error e" if "push L a x v = Inl e"
    using e that by simp
qed

end
