(* ===== verification/Closure_Vec.thy ===== *)
theory Closure_Vec
  imports Free_Vec_Stack
begin

text \<open>
  \<^verbatim>\<open>ClosureVec<F>\<close> of \<^verbatim>\<open>vecs/src/closure_vec.rs\<close>: a \<^verbatim>\<open>FreestandingVec\<close> whose metadata is
  the function that reads a closure of the current type and runs or drops it.  What a closure does
  is the client's; the model records which closures were run and dropped, and lets each of them
  panic.
\<close>

section \<open>Definitions\<close>

text \<open>\<^verbatim>\<open>Metadata\<close>: the one field is the function \<^verbatim>\<open>call::<F>\<close>, which is determined by
  the type \<^verbatim>\<open>F\<close>, that is, by how it reads a closure.\<close>

record task =
  fn_size :: nat
  fn_align :: nat

definition INIT :: "layout \<Rightarrow> task" where
  "INIT L = \<lparr>fn_size = elem_size L, fn_align = elem_align L\<rparr>"

text \<open>A closure is its bytes.  What it does is up to the client: \<open>behaviour\<close> says whether running
  it, and whether dropping it without running it, panics.\<close>

record 'b behaviour =
  run_panics :: "'b list \<Rightarrow> bool"
  drop_panics :: "'b list \<Rightarrow> bool"

datatype 'b event = Ran "'b list" | Dropped "'b list"

record 'b closures =
  inner :: "(task, 'b) vec"
  events :: "'b event list"

type_synonym ('b, 'a) closures_result = "(vec_error, 'a outcome \<times> 'b closures) result"

definition call :: "'b behaviour \<Rightarrow> task \<Rightarrow> nat \<Rightarrow> bool \<Rightarrow> 'b closures \<Rightarrow> ('b, unit) closures_result" where
  "call beh task f just_drop c =
     and_then (read_elem (fn_align task) (fn_size task) f (inner c)) (\<lambda>f.
       if \<not> just_drop
       then Inr (if run_panics beh f then Unwound else Returned (), c\<lparr>events := events c @ [Ran f]\<rparr>)
       else Inr (if drop_panics beh f then Unwound else Returned (), c\<lparr>events := events c @ [Dropped f]\<rparr>))"

text \<open>The metadata is a function pointer: dropping it does nothing and cannot panic.\<close>

abbreviation no_panics :: "task \<Rightarrow> bool" where
  "no_panics \<equiv> \<lambda>_. False"

definition new_closures :: "layout \<Rightarrow> nat option \<Rightarrow> ('b, unit) closures_result" where
  "new_closures L answer =
     and_then (new L no_panics answer (INIT L)) (\<lambda>(out, v). Inr (out, \<lparr>inner = v, events = []\<rparr>))"

definition update_type :: "layout \<Rightarrow> nat option \<times> nat option \<Rightarrow> 'b closures \<Rightarrow> ('b, unit) closures_result" where
  "update_type L answers c =
     and_then (init L no_panics answers (INIT L) (inner c)) (\<lambda>(out, v). Inr (out, c\<lparr>inner := v\<rparr>))"

text \<open>\<^verbatim>\<open>pop_and_run_\<close> of the source.\<close>

definition pop_and_run_with :: "layout \<Rightarrow> 'b behaviour \<Rightarrow> bool \<Rightarrow> 'b closures \<Rightarrow> ('b, bool) closures_result" where
  "pop_and_run_with L beh just_drop c =
     and_then (pop L (inner c)) (\<lambda>(r, v). case r of
       None \<Rightarrow> Inr (Returned True, c\<lparr>inner := v\<rparr>)
     | Some (task, closure) \<Rightarrow>
         and_then (call beh task closure just_drop (c\<lparr>inner := v\<rparr>)) (\<lambda>(r, c).
           Inr (case r of Returned _ \<Rightarrow> Returned False | Unwound \<Rightarrow> Unwound, c)))"

definition pop_and_run :: "layout \<Rightarrow> 'b behaviour \<Rightarrow> 'b closures \<Rightarrow> ('b, bool) closures_result" where
  "pop_and_run L beh c = pop_and_run_with L beh False c"

partial_function (option) clear :: "layout \<Rightarrow> 'b behaviour \<Rightarrow> 'b closures \<Rightarrow> ('b, unit) closures_result option" where
  "clear L beh c =
     (case pop_and_run_with L beh True c of
        Inl e \<Rightarrow> Some (Inl e)
      | Inr (Unwound, c) \<Rightarrow> Some (Inr (Unwound, c))
      | Inr (Returned none, c) \<Rightarrow> if none then Some (Inr (Returned (), c)) else clear L beh c)"

definition push_closure :: "layout \<Rightarrow> nat option \<Rightarrow> 'b list \<Rightarrow> 'b closures \<Rightarrow> (vec_error, 'b closures) result" where
  "push_closure L answer f c = and_then (push L answer f (inner c)) (\<lambda>v. Inr (c\<lparr>inner := v\<rparr>))"

definition closures_is_empty :: "layout \<Rightarrow> 'b closures \<Rightarrow> (vec_error, bool) result" where
  "closures_is_empty L c = is_empty L (inner c)"

text \<open>The vector's own pointer, in and out of the typed wrapper.\<close>

definition closures_into_raw :: "'b closures \<Rightarrow> nat" where
  "closures_into_raw c = into_raw (inner c)"

definition closures_from_raw :: "nat \<Rightarrow> 'b closures \<Rightarrow> 'b closures" where
  "closures_from_raw ptr c = c\<lparr>inner := from_raw ptr (inner c)\<rparr>"

text \<open>A destructor that panics while the thread unwinds already, be it by a failed assertion, ends the
  process.\<close>

fun while_unwinding :: "(vec_error, unit outcome \<times> 'v) result \<Rightarrow> (vec_error, unit outcome \<times> 'v) result" where
  "while_unwinding (Inl DebugAssert) = Inl DoublePanic"
| "while_unwinding (Inl (Panic msg)) = Inl DoublePanic"
| "while_unwinding (Inl e) = Inl e"
| "while_unwinding (Inr (Unwound, v)) = Inl DoublePanic"
| "while_unwinding (Inr (Returned u, v)) = Inr (Returned u, v)"

text \<open>\<^verbatim>\<open>Drop\<close>: after \<^verbatim>\<open>clear\<close>, even one that unwinds, the field is dropped.\<close>

definition drop_closures :: "layout \<Rightarrow> 'b behaviour \<Rightarrow> 'b closures \<Rightarrow> ('b, unit) closures_result option" where
  "drop_closures L beh c =
     map_option (\<lambda>r. and_then r (\<lambda>(out, c).
       case out of
         Returned _ \<Rightarrow> and_then (drop_vec L no_panics (inner c)) (\<lambda>(out, v). Inr (out, c\<lparr>inner := v\<rparr>))
       | Unwound \<Rightarrow> and_then (while_unwinding (drop_vec L no_panics (inner c)))
           (\<lambda>(_, v). Inr (Unwound, c\<lparr>inner := v\<rparr>)))) (clear L beh c)"

lemma closures_raw [simp]: "closures_from_raw (closures_into_raw c) c = c"
  by (simp add: closures_from_raw_def closures_into_raw_def from_raw_def into_raw_def)

section \<open>The invariant\<close>

definition closures_ok :: "layout \<Rightarrow> layout \<Rightarrow> 'b list list \<Rightarrow> 'b closures \<Rightarrow> bool" where
  "closures_ok L L' xs c \<longleftrightarrow> erased_ok L L' (INIT L) (meta_dropped (inner c)) xs (inner c)"

lemma pop_and_run_empty:
  assumes "closures_ok L L' [] c"
  shows "pop_and_run_with L' beh just_drop c = Inr (Returned True, c)"
proof -
  have "pop L' (inner c) = Inr (None, inner c)"
    using assms pop_nil [of L "INIT L" "inner c" L'] by (simp add: closures_ok_def erased_ok_def)
  then show ?thesis by (simp add: pop_and_run_with_def)
qed

lemma pop_and_run_last:
  assumes "closures_ok L L' (xs @ [x]) c"
  shows "\<exists>c'. pop_and_run_with L' beh just_drop c =
      Inr (if (if just_drop then drop_panics beh x else run_panics beh x) then Unwound else Returned False, c') \<and>
    closures_ok L L' xs c' \<and> events c' = events c @ [(if just_drop then Dropped x else Ran x)] \<and>
    data (inner c') = data (inner c) \<and> meta_dropped (inner c') = meta_dropped (inner c)"
proof -
  obtain off v where v: "pop L' (inner c) = Inr (Some (INIT L, off), v)"
    "read_elem (elem_align L) (elem_size L) off v = Inr x"
    "erased_ok L L' (INIT L) (meta_dropped (inner c)) xs v" "data v = data (inner c)"
    using pop_read_last [OF assms [unfolded closures_ok_def]] by blast
  then have "meta_dropped v = meta_dropped (inner c)" by (simp add: erased_ok_def)
  with v show ?thesis by (simp add: pop_and_run_with_def call_def INIT_def closures_ok_def)
qed

section \<open>clear\<close>

text \<open>The closures that \<^verbatim>\<open>clear\<close> drops, last pushed first, up to and including the first whose
  drop panics; what is left stays in the vector.\<close>

fun split_panic :: "('x \<Rightarrow> bool) \<Rightarrow> 'x list \<Rightarrow> 'x list \<times> 'x list" where
  "split_panic P [] = ([], [])"
| "split_panic P (x # xs) = (if P x then ([x], xs) else map_prod (Cons x) id (split_panic P xs))"

lemma split_panic_append: "fst (split_panic P xs) @ snd (split_panic P xs) = xs"
  by (induction xs) auto

lemma split_panic_none: "(\<forall>x\<in>set xs. \<not> P x) \<Longrightarrow> split_panic P xs = (xs, [])"
  by (induction xs) auto

lemma split_panic_first:
  "(\<forall>x\<in>set xs. \<not> P x) \<Longrightarrow> P p \<Longrightarrow> split_panic P (xs @ p # ys) = (xs @ [p], ys)"
  by (induction xs) auto

lemma clear_effect:
  assumes "closures_ok L L' xs c"
  shows "\<exists>c'. clear L' beh c =
      Some (Inr (if \<exists>x\<in>set xs. drop_panics beh x then Unwound else Returned (), c')) \<and>
    closures_ok L L' (rev (snd (split_panic (drop_panics beh) (rev xs)))) c' \<and>
    events c' = events c @ map Dropped (fst (split_panic (drop_panics beh) (rev xs))) \<and>
    data (inner c') = data (inner c) \<and> meta_dropped (inner c') = meta_dropped (inner c)"
  using assms
proof (induction xs arbitrary: c rule: rev_induct)
  case Nil
  then show ?case by (subst clear.simps) (simp add: pop_and_run_empty)
next
  case (snoc x xs)
  obtain c' where c': "pop_and_run_with L' beh True c = Inr (if drop_panics beh x then Unwound else Returned False, c')"
    "closures_ok L L' xs c'" "events c' = events c @ [Dropped x]"
    "data (inner c') = data (inner c)" "meta_dropped (inner c') = meta_dropped (inner c)"
    using pop_and_run_last [OF snoc.prems, of beh True] by auto
  show ?case
  proof (cases "drop_panics beh x")
    case True
    then show ?thesis using c' by (subst clear.simps) simp
  next
    case False
    then have "clear L' beh c = clear L' beh c'" using c' by (subst clear.simps) simp
    then show ?thesis using snoc.IH [OF c'(2)] c'(3-5) False by auto
  qed
qed

section \<open>push, update_type and drop\<close>

lemma push_closure_effect:
  assumes "closures_ok L L xs c" "push_fits L answer f xs (inner c)"
  shows "case push_closure L answer f c of Inl e \<Rightarrow> alloc_error e
    | Inr c' \<Rightarrow> closures_ok L L (xs @ [f]) c' \<and> events c' = events c"
proof (cases "push L answer f (inner c)")
  case (Inl e)
  then show ?thesis
    using fvs.push_error [OF assms(1) [unfolded closures_ok_def] assms(2)] by (simp add: push_closure_def)
next
  case (Inr v)
  have v: "erased_ok L L (INIT L) (meta_dropped (inner c)) (xs @ [f]) v"
    using fvs.push_ok [OF assms(1) [unfolded closures_ok_def] assms(2) Inr] .
  then have "meta_dropped v = meta_dropped (inner c)" by (simp add: erased_ok_def)
  then show ?thesis using v Inr by (simp add: push_closure_def closures_ok_def)
qed

lemma new_closures_effect:
  assumes "sized L" "alloc_ok L answer (\<lparr>data = dangling L, heap = (\<lambda>_. None), meta_dropped = []\<rparr> :: (task, 'b) vec)"
  shows "case (new_closures L answer :: ('b, unit) closures_result) of
     Inl e \<Rightarrow> alloc_error e
   | Inr (out, c) \<Rightarrow> out = Returned () \<and> closures_ok L L [] c \<and> events c = []"
  using new_effect [OF assms, where panics = no_panics and m = "INIT L"] assms(1)
  by (auto simp: new_closures_def closures_ok_def erased_ok_def vec_ok_def split: sum.splits)

lemma update_type_effect:
  assumes "closures_ok L0 L [] c" "sized L"
    and "alloc_ok L (fst answers) (inner c)" "alloc_ok L (snd answers) (inner c)"
    and "room L 0 (MIN_NON_ZERO_CAP L - cap_of (inner c)) (inner c)"
  shows "case update_type L answers c of
     Inl e \<Rightarrow> alloc_error e
   | Inr (out, c') \<Rightarrow> out = Returned () \<and> closures_ok L L [] c' \<and> events c' = events c \<and>
       meta_dropped (inner c') = meta_dropped (inner c) @ [INIT L0]"
proof -
  have c: "vec_ok L0 (INIT L0) [] (inner c)" "same_header L0 L" "is_allocated L (inner c)"
    using assms(1) by (simp_all add: closures_ok_def erased_ok_def)
  from init_effect [OF c(1) assms(2) c(2,3) assms(3,4,5), where panics = no_panics and m = "INIT L"] assms(2)
  show ?thesis
    by (auto simp: update_type_def closures_ok_def erased_ok_def vec_ok_def split: sum.splits)
qed

text \<open>The end of a vector none of whose closures panics when dropped: every closure is dropped
  once, last one first, then the block is freed and the metadata dropped.\<close>

lemma drop_closures_effect:
  assumes "closures_ok L L' xs c" "\<forall>x\<in>set xs. \<not> drop_panics beh x"
  shows "\<exists>c'. drop_closures L' beh c = Some (Inr (Returned (), c')) \<and>
    events c' = events c @ map Dropped (rev xs) \<and> heap (inner c') (data (inner c)) = None \<and>
    meta_dropped (inner c') = meta_dropped (inner c) @ [INIT L] \<and> \<not> is_allocated L' (inner c')"
proof -
  obtain d where d: "clear L' beh c = Some (Inr (Returned (), d))" "closures_ok L L' [] d"
    "events d = events c @ map Dropped (rev xs)" "data (inner d) = data (inner c)"
    "meta_dropped (inner d) = meta_dropped (inner c)"
    using clear_effect [OF assms(1), of beh] assms(2) split_panic_none [of "rev xs" "drop_panics beh"] by auto
  have "vec_ok L (INIT L) [] (inner d)" "is_allocated L' (inner d)"
    using d(2) by (simp_all add: closures_ok_def erased_ok_def)
  from drop_vec_ok [OF this] show ?thesis
    using d by (simp add: drop_closures_def is_allocated_def)
qed

text \<open>A closure that panics when it is dropped and is not the oldest one: the remaining closures
  are still in the vector when its field is dropped, whose assertion then fails while the thread
  is unwinding, which ends the process.\<close>

lemma drop_closures_abort:
  assumes "closures_ok L L' (ys @ p # zs) c" "drop_panics beh p" "\<forall>x\<in>set zs. \<not> drop_panics beh x"
    and "ys \<noteq> []"
  shows "drop_closures L' beh c = Some (Inl DoublePanic)"
proof -
  have "split_panic (drop_panics beh) (rev (ys @ p # zs)) = (rev zs @ [p], rev ys)"
    using split_panic_first [of "rev zs" "drop_panics beh" p "rev ys"] assms(2,3) by simp
  then obtain d where d: "clear L' beh c = Some (Inr (Unwound, d))" "closures_ok L L' ys d"
    using clear_effect [OF assms(1), of beh] assms(2) by auto
  have "vec_ok L (INIT L) ys (inner d)" "is_allocated L' (inner d)"
    using d(2) by (simp_all add: closures_ok_def erased_ok_def)
  then show ?thesis
    using d assms(4) by (simp add: drop_closures_def drop_vec_def is_empty_ok)
qed

section \<open>Every closure is consumed once\<close>

datatype 'b closures_cmd = Add "nat option" "'b list" | Run_Last | Clear_All

text \<open>A client that catches panics and goes on.\<close>

fun closures_exec :: "layout \<Rightarrow> 'b behaviour \<Rightarrow> 'b closures_cmd \<Rightarrow> 'b closures \<Rightarrow> (vec_error, 'b closures) result option" where
  "closures_exec L beh (Add answer f) c = Some (push_closure L answer f c)"
| "closures_exec L beh Run_Last c = Some (and_then (pop_and_run L beh c) (\<lambda>(r, c). Inr c))"
| "closures_exec L beh Clear_All c = map_option (\<lambda>r. and_then r (\<lambda>(r, c). Inr c)) (clear L beh c)"

fun consumed :: "'b event \<Rightarrow> 'b list" where
  "consumed (Ran f) = f"
| "consumed (Dropped f) = f"

definition closures_account :: "'b closures \<Rightarrow> 'b list list \<Rightarrow> 'b list multiset" where
  "closures_account c xs = mset (map consumed (events c)) + mset xs"

definition vec_len :: "('m, 'b) vec \<Rightarrow> nat" where
  "vec_len v = (case Option.bind (heap v (data v)) hdr of None \<Rightarrow> 0 | Some h \<Rightarrow> len h)"

lemma vec_len_ok: "closures_ok L L' xs c \<Longrightarrow> vec_len (inner c) = length xs"
  by (auto simp: closures_ok_def erased_ok_def vec_ok_def stores_def vec_len_def)

fun cmd_fits :: "layout \<Rightarrow> 'b closures_cmd \<Rightarrow> 'b closures \<Rightarrow> bool" where
  "cmd_fits L (Add answer f) c = push_room L answer f (vec_len (inner c)) (inner c)"
| "cmd_fits L cmd c = True"

fun cmd_adds :: "'b closures_cmd \<Rightarrow> 'b list multiset" where
  "cmd_adds (Add answer f) = {#f#}"
| "cmd_adds cmd = {#}"

lemma closures_exec_effect:
  assumes "closures_ok L L xs c" "cmd_fits L cmd c"
  shows "\<exists>r. closures_exec L beh cmd c = Some r \<and> (case r of Inl e \<Rightarrow> alloc_error e
    | Inr c' \<Rightarrow> \<exists>xs'. closures_ok L L xs' c' \<and> closures_account c' xs' = closures_account c xs + cmd_adds cmd)"
proof (cases cmd)
  case (Add answer f)
  then show ?thesis
    using push_closure_effect [OF assms(1), of answer f] assms(2) vec_len_ok [OF assms(1)]
    by (auto simp: closures_account_def split: sum.splits intro!: exI [of _ "xs @ [f]"])
next
  case Run_Last
  show ?thesis
  proof (cases xs rule: rev_cases)
    case Nil
    then show ?thesis
      using pop_and_run_empty [of L L c beh False] assms(1) Run_Last by (auto simp: pop_and_run_def)
  next
    case (snoc ys y)
    then obtain out c' where "pop_and_run L beh c = Inr (out, c')" "closures_ok L L ys c'"
      "events c' = events c @ [Ran y]"
      using pop_and_run_last [of L L ys y c beh False] assms(1) by (auto simp: pop_and_run_def)
    then show ?thesis using Run_Last snoc by (auto simp: closures_account_def)
  qed
next
  case Clear_All
  let ?s = "split_panic (drop_panics beh) (rev xs)"
  obtain out c' where c': "clear L beh c = Some (Inr (out, c'))" "closures_ok L L (rev (snd ?s)) c'"
    "events c' = events c @ map Dropped (fst ?s)"
    using clear_effect [OF assms(1), of beh] by blast
  have "mset (fst ?s) + mset (snd ?s) = mset xs"
    by (metis mset_append mset_rev split_panic_append)
  then have "closures_account c' (rev (snd ?s)) = closures_account c xs"
    using c'(3) by (simp add: closures_account_def comp_def)
  then show ?thesis using c'(1,2) Clear_All by auto
qed

text \<open>Runs of commands.  Each push has to fit where it happens.\<close>

fun closures_run :: "layout \<Rightarrow> 'b behaviour \<Rightarrow> 'b closures_cmd list \<Rightarrow> 'b closures \<Rightarrow> (vec_error, 'b closures) result option" where
  "closures_run L beh [] c = Some (Inr c)"
| "closures_run L beh (cmd # cmds) c =
     (case closures_exec L beh cmd c of
        None \<Rightarrow> None
      | Some (Inl e) \<Rightarrow> Some (Inl e)
      | Some (Inr c') \<Rightarrow> closures_run L beh cmds c')"

fun cmds_fit :: "layout \<Rightarrow> 'b behaviour \<Rightarrow> 'b closures_cmd list \<Rightarrow> 'b closures \<Rightarrow> bool" where
  "cmds_fit L beh [] c = True"
| "cmds_fit L beh (cmd # cmds) c = (cmd_fits L cmd c \<and>
     (case closures_exec L beh cmd c of Some (Inr c') \<Rightarrow> cmds_fit L beh cmds c' | _ \<Rightarrow> True))"

end
