(* ===== verification/Vec_Props.thy ===== *)
theory Vec_Props
  imports Closure_Vec
begin

text \<open>
  The properties of \<^verbatim>\<open>FreestandingVec\<close> and \<^verbatim>\<open>ClosureVec\<close>, each with an application to a concrete
  vector.
\<close>

section \<open>FreestandingVec\<close>

text \<open>\<^verbatim>\<open>new\<close> gives an empty vector of the minimal capacity and drops no metadata; its only
  other outcome is the allocation error, when the allocator fails.\<close>

theorem new_gives_empty_vec:
  fixes m :: 'm
  assumes "sized L" "alloc_ok L answer (\<lparr>data = dangling L, heap = (\<lambda>_. None), meta_dropped = []\<rparr> :: ('m, 'b) vec)"
  shows "case (new L panics answer m :: (vec_error, unit outcome \<times> ('m, 'b) vec) result) of
     Inl e \<Rightarrow> answer = None \<and> e = AllocError (MIN_NON_ZERO_CAP L)
   | Inr (out, v) \<Rightarrow> out = Returned () \<and> vec_ok L m [] v \<and> cap_of v = MIN_NON_ZERO_CAP L \<and> meta_dropped v = []"
  using assms by (rule new_effect)

text \<open>Concrete vectors for the witnesses: two-byte elements behind a header of 32 bytes.\<close>

definition pair_layout :: layout where
  "pair_layout = \<lparr>header_size = 32, header_align = 8, elem_size = 2, elem_align = 2\<rparr>"

definition page_layout :: layout where
  "page_layout = pair_layout\<lparr>elem_size := 16, elem_align := 16\<rparr>"

definition pair_vec :: "(nat, nat) vec" where
  "pair_vec = \<lparr>data = 4096, heap = [4096 \<mapsto> \<lparr>blk_size = 40, blk_align = 8,
     hdr = Some \<lparr>metadata = 7, value_size = 2, alignment = 8, len = 0, capacity = 40\<rparr>, bytes = (\<lambda>_. None)\<rparr>],
     meta_dropped = []\<rparr>"

lemmas layout_eval = pair_layout_def page_layout_def sized_def layout_ok_def space_align_def space_size_def
  next_multiple_of_def valid_layout_def MIN_NON_ZERO_CAP_def isize_max_def usize_max_def min_space_def
  dangling_def is_allocated_def unit_layout_def HEADER_ALIGNMENT_def ELEM_SIZE_def as_u32_def

lemma sized_pair: "sized pair_layout" "sized page_layout" "same_header pair_layout page_layout"
  by (simp_all add: layout_eval same_header_def)

lemma pair_vec_ok: "vec_ok pair_layout 7 [] pair_vec"
  by (simp add: vec_ok_def stores_def pair_vec_def layout_eval)

theorem new_gives_empty_vec_witness:
  "case (new pair_layout (\<lambda>m. m = 7) (Some 4096) (7 :: nat) :: (vec_error, unit outcome \<times> (nat, nat) vec) result) of
     Inl e \<Rightarrow> Some (4096 :: nat) = None \<and> e = AllocError (MIN_NON_ZERO_CAP pair_layout)
   | Inr (out, v) \<Rightarrow> out = Returned () \<and> vec_ok pair_layout 7 [] v \<and> cap_of v = MIN_NON_ZERO_CAP pair_layout \<and> meta_dropped v = []"
  by (rule new_gives_empty_vec [OF sized_pair(1)]) (simp add: alloc_ok_def layout_eval)

text \<open>C19: \<^verbatim>\<open>push\<close> adds its element behind the others, growing the block when it is full: no
  element is lost or overwritten, whatever address the block moves to, and no step is undefined.
  It fails only when the block is full and the allocator cannot grow it.\<close>

theorem push_appends:
  assumes "vec_ok L m xs v" "sized L" "alloc_ok L answer v" "room L (length xs) (elem_size L) v"
    and "length x = elem_size L" "Suc (length xs) \<le> usize_max"
  shows "case push L answer x v of
     Inl e \<Rightarrow> answer = None \<and> e = AllocError (cap_of v) \<and>
       cap_of v < length xs * elem_size L + space_size L + elem_size L
   | Inr v' \<Rightarrow> vec_ok L m (xs @ [x]) v' \<and> meta_dropped v' = meta_dropped v"
  using assms by (rule push_effect)

theorem push_appends_witness:
  "case push pair_layout None [1, 2] pair_vec of
     Inl e \<Rightarrow> None = (None :: nat option) \<and> e = AllocError (cap_of pair_vec) \<and>
       cap_of pair_vec < length ([] :: nat list list) * elem_size pair_layout + space_size pair_layout + elem_size pair_layout
   | Inr v' \<Rightarrow> vec_ok pair_layout 7 ([] @ [[1, 2]]) v' \<and> meta_dropped v' = meta_dropped pair_vec"
  by (rule push_appends [OF pair_vec_ok sized_pair(1)])
    (simp_all add: alloc_ok_def room_def grown_def saturating_mul_def cap_of_def pair_vec_def layout_eval)

text \<open>C12: \<^verbatim>\<open>pop\<close> finds the last element at any type the vector is cast to: from the header alone
  it computes the address the element was written to, its callback reads back the bytes that
  were pushed, and the other elements stay.\<close>

theorem pop_finds_last_at_any_type:
  assumes "vec_ok L m (xs @ [x]) v" "sized L" "same_header L L'" "is_allocated L' v"
  shows "\<exists>off v'. pop L' v = Inr (Some (m, off), v') \<and>
     read_elem (elem_align L) (elem_size L) off v' = Inr x \<and> vec_ok L m xs v' \<and> meta_dropped v' = meta_dropped v"
  using pop_snoc [OF assms(1) sizedD(1) [OF assms(2)] assms(3,4)] by blast

definition pair_vec1 :: "(nat, nat) vec" where
  "pair_vec1 = \<lparr>data = 4096, heap = [4096 \<mapsto> \<lparr>blk_size = 40, blk_align = 8,
     hdr = Some \<lparr>metadata = 7, value_size = 2, alignment = 8, len = 1, capacity = 40\<rparr>,
     bytes = [32 \<mapsto> 1, 33 \<mapsto> 2]\<rparr>], meta_dropped = []\<rparr>"

lemma pair_vec1_ok: "vec_ok pair_layout 7 ([] @ [[1, 2]]) pair_vec1"
  by (simp add: vec_ok_def stores_def pair_vec1_def layout_eval read_bytes_def upt_rec)

theorem pop_finds_last_at_any_type_witness:
  "\<exists>off v'. pop page_layout pair_vec1 = Inr (Some (7, off), v') \<and>
     read_elem (elem_align pair_layout) (elem_size pair_layout) off v' = Inr [1, 2] \<and>
     vec_ok pair_layout 7 [] v' \<and> meta_dropped v' = meta_dropped pair_vec1"
  by (rule pop_finds_last_at_any_type [OF pair_vec1_ok sized_pair(1,3)]) (simp add: pair_vec1_def layout_eval)

text \<open>C11: any sequence of pushes and pops gives the results the same sequence gives on a list,
  unless a push runs out of memory; at the end the vector holds the list's elements.\<close>

theorem vec_simulates_list:
  assumes "vec_ok L m xs v" "sized L" "fits_run (push_fits L) (push L) (pop_read L L) cs xs v"
  shows "case stack_run (push L) (pop_read L L) cs v of
     Inl e \<Rightarrow> alloc_error e
   | Inr (rs, v') \<Rightarrow> rs = fst (list_run cs xs) \<and> vec_ok L m (snd (list_run cs xs)) v' \<and>
       meta_dropped v' = meta_dropped v"
proof -
  have "erased_ok L L m (meta_dropped v) xs v"
    using assms(1,2) by (simp add: erased_ok_def vec_ok_def)
  from fvs.run_simulates [OF this assms(3)] show ?thesis
    by (auto simp: erased_ok_def split: sum.splits prod.splits)
qed

theorem vec_simulates_list_witness:
  "case stack_run (push pair_layout) (pop_read pair_layout pair_layout) [Push None [1, 2], Pop, Pop] pair_vec of
     Inl e \<Rightarrow> alloc_error e
   | Inr (rs, v') \<Rightarrow> rs = fst (list_run [Push (None :: nat option) [1, 2], Pop, Pop] []) \<and>
       vec_ok pair_layout 7 (snd (list_run [Push (None :: nat option) [1, 2], Pop, Pop] [])) v' \<and>
       meta_dropped v' = meta_dropped pair_vec"
proof (rule vec_simulates_list [OF pair_vec_ok sized_pair(1)])
  have "push_fits pair_layout None [1, 2] [] pair_vec"
    by (simp add: push_room_def alloc_ok_def room_def grown_def saturating_mul_def cap_of_def pair_vec_def layout_eval)
  then show "fits_run (push_fits pair_layout) (push pair_layout) (pop_read pair_layout pair_layout)
      [Push None [1, 2], Pop, Pop] [] pair_vec"
    by (simp split: sum.splits)
qed

text \<open>C18: \<^verbatim>\<open>init\<close> turns an empty vector of one element type into an empty vector of another,
  reusing, growing or replacing the block as the alignments and sizes ask; the old metadata is
  dropped exactly once on every path.  When that drop panics the call unwinds, and the vector is
  either complete or, if its block had the wrong alignment, without a block and ready to be
  dropped.  Nothing else can go wrong but the allocation, and a second panic while unwinding.\<close>

theorem init_changes_type:
  fixes m :: 'm and v :: "('m, 'b) vec"
  assumes "vec_ok L0 m0 [] v" "sized L" "same_header L0 L" "is_allocated L v"
    and "alloc_ok L (fst answers) v" "alloc_ok L (snd answers) v"
    and "room L 0 (MIN_NON_ZERO_CAP L - cap_of v) v"
  shows "case init L panics answers m v of
     Inl e \<Rightarrow> (fst answers = None \<and> e = AllocError (cap_of v)) \<or>
       (snd answers = None \<and> e = AllocError (MIN_NON_ZERO_CAP L)) \<or>
       (panics m0 \<and> panics m \<and> e = DoublePanic)
   | Inr (out, v') \<Rightarrow> out = (if panics m0 then Unwound else Returned ()) \<and>
       (if panics m0 \<and> space_align L0 \<noteq> space_align L
        then \<not> is_allocated L v' \<and> heap v' = (heap v)(data v := None) \<and> meta_dropped v' = meta_dropped v @ [m0, m]
        else vec_ok L m [] v' \<and> meta_dropped v' = meta_dropped v @ [m0])"
  using assms by (rule init_effect)

theorem init_changes_type_witness:
  "case init page_layout (\<lambda>m. m = 7) (None, Some 4096) 9 pair_vec of
     Inl e \<Rightarrow> (fst (None :: nat option, Some (4096 :: nat)) = None \<and> e = AllocError (cap_of pair_vec)) \<or>
       (snd (None :: nat option, Some (4096 :: nat)) = None \<and> e = AllocError (MIN_NON_ZERO_CAP page_layout)) \<or>
       (7 = (7 :: nat) \<and> 9 = (7 :: nat) \<and> e = DoublePanic)
   | Inr (out, v') \<Rightarrow> out = (if 7 = (7 :: nat) then Unwound else Returned ()) \<and>
       (if 7 = (7 :: nat) \<and> space_align pair_layout \<noteq> space_align page_layout
        then \<not> is_allocated page_layout v' \<and> heap v' = (heap pair_vec)(data pair_vec := None) \<and>
          meta_dropped v' = meta_dropped pair_vec @ [7, 9]
        else vec_ok page_layout 9 [] v' \<and> meta_dropped v' = meta_dropped pair_vec @ [7])"
  by (rule init_changes_type [OF pair_vec_ok sized_pair(2,3)])
    (simp_all add: alloc_ok_def room_def grown_def saturating_mul_def cap_of_def pair_vec_def layout_eval)

text \<open>C36: dropping an empty vector, at any type, frees its block and drops its metadata once, and
  leaves the rest of the heap alone.\<close>

theorem drop_frees_once:
  assumes "vec_ok L m [] v" "is_allocated L' v"
  shows "\<exists>v'. drop_vec L' panics v = Inr (if panics m then Unwound else Returned (), v') \<and> heap v' = (heap v)(data v := None) \<and>
     meta_dropped v' = meta_dropped v @ [m] \<and> \<not> is_allocated L' v'"
  using drop_vec_ok [OF assms, of panics] by (simp add: is_allocated_def)

theorem drop_frees_once_witness:
  "\<exists>v'. drop_vec page_layout (\<lambda>m. m = 7) pair_vec = Inr (if 7 = (7 :: nat) then Unwound else Returned (), v') \<and> heap v' = (heap pair_vec)(data pair_vec := None) \<and>
     meta_dropped v' = meta_dropped pair_vec @ [7] \<and> \<not> is_allocated page_layout v'"
  by (rule drop_frees_once [OF pair_vec_ok]) (simp add: pair_vec_def layout_eval)

text \<open>C35: the address \<^verbatim>\<open>NonNull::dangling()\<close>, which is the alignment, doubles as the mark of a
  vector without a block.  An allocator may return that address; the vector then counts as
  unallocated although its block is live: a push, like every use of the header, stops at an
  assertion (in a build with debug assertions), whatever the allocator answers, and dropping the vector frees
  nothing.\<close>

theorem block_at_dangling_address:
  assumes "sized L"
  shows "\<exists>v :: ('m, 'b) vec. new L panics (Some (space_align L)) m = Inr (Returned (), v) \<and> \<not> is_allocated L v \<and>
     heap v (space_align L) \<noteq> None \<and> drop_vec L panics v = Inr (Returned (), v) \<and> is_empty L v = Inl DebugAssert \<and>
     (\<forall>answer x. push L answer x v = Inl DebugAssert)"
  using sizedD(6) [OF assms]
  by (simp add: new_def init_def init_dealloc_def init_reserve_def init_write_def allocate_def is_allocated_def
      dangling_def set_header_def drop_vec_def deallocate_def is_empty_def push_def reserve_def header_ref_def Let_def)

theorem block_at_dangling_address_witness:
  "\<exists>v :: (nat, nat) vec. new pair_layout (\<lambda>_. False) (Some (space_align pair_layout)) 7 = Inr (Returned (), v) \<and>
     \<not> is_allocated pair_layout v \<and> heap v (space_align pair_layout) \<noteq> None \<and>
     drop_vec pair_layout (\<lambda>_. False) v = Inr (Returned (), v) \<and> is_empty pair_layout v = Inl DebugAssert \<and>
     (\<forall>answer x. push pair_layout answer x v = Inl DebugAssert)"
  by (rule block_at_dangling_address [OF sized_pair(1)])

section \<open>ClosureVec\<close>

text \<open>C27: \<^verbatim>\<open>pop_and_run\<close> runs the closure pushed last, exactly once, at whatever type the vector
  is cast to, and returns true only on an empty vector; when the closure panics the vector has
  already forgotten it and still holds the others.\<close>

theorem pop_and_run_lifo:
  assumes "closures_ok L L' xs c"
  shows "case rev xs of
     [] \<Rightarrow> pop_and_run L' beh c = Inr (Returned True, c)
   | x # ys \<Rightarrow> (\<exists>c'. pop_and_run L' beh c = Inr (if run_panics beh x then Unwound else Returned False, c') \<and>
       closures_ok L L' (rev ys) c' \<and> events c' = events c @ [Ran x])"
proof (cases xs rule: rev_cases)
  case Nil
  then show ?thesis using pop_and_run_empty [of L L' c beh False] assms by (simp add: pop_and_run_def)
next
  case (snoc ys y)
  then show ?thesis using pop_and_run_last [of L L' ys y c beh False] assms by (auto simp: pop_and_run_def)
qed

definition pair_closures :: "nat closures" where
  "pair_closures = \<lparr>inner = \<lparr>data = 4096, heap = [4096 \<mapsto> \<lparr>blk_size = 40, blk_align = 8,
     hdr = Some \<lparr>metadata = INIT pair_layout, value_size = 2, alignment = 8, len = 2, capacity = 40\<rparr>,
     bytes = [32 \<mapsto> 1, 33 \<mapsto> 2, 34 \<mapsto> 3, 35 \<mapsto> 4]\<rparr>], meta_dropped = []\<rparr>, events = []\<rparr>"

definition empty_closures :: "nat closures" where
  "empty_closures = pair_closures\<lparr>inner := (inner pair_closures)\<lparr>heap := [4096 \<mapsto> \<lparr>blk_size = 40, blk_align = 8,
     hdr = Some \<lparr>metadata = INIT pair_layout, value_size = 2, alignment = 8, len = 0, capacity = 40\<rparr>,
     bytes = (\<lambda>_. None)\<rparr>]\<rparr>\<rparr>"

definition calm :: "nat behaviour" where
  "calm = \<lparr>run_panics = (\<lambda>_. False), drop_panics = (\<lambda>_. False)\<rparr>"

definition brittle :: "nat behaviour" where
  "brittle = calm\<lparr>drop_panics := (\<lambda>f. f = [3, 4])\<rparr>"

lemma pair_closures_ok: "closures_ok pair_layout page_layout [[1, 2], [3, 4]] pair_closures"
proof -
  have "read_bytes [32 \<mapsto> 1, 33 \<mapsto> 2, 34 \<mapsto> 3, 35 \<mapsto> 4] 32 2 = Some [1, 2 :: nat]"
    "read_bytes [32 \<mapsto> 1, 33 \<mapsto> 2, 34 \<mapsto> 3, 35 \<mapsto> 4] 34 2 = Some [3, 4 :: nat]"
    by (simp_all add: read_bytes_def upt_rec)
  then show ?thesis
    using sized_pair
    by (simp add: closures_ok_def erased_ok_def vec_ok_def stores_def pair_closures_def layout_eval
        All_less_Suc)
qed

lemma empty_closures_ok: "closures_ok pair_layout page_layout [] empty_closures"
  "closures_ok pair_layout pair_layout [] empty_closures"
  using sized_pair
  by (simp_all add: closures_ok_def erased_ok_def vec_ok_def stores_def empty_closures_def pair_closures_def layout_eval)

theorem pop_and_run_lifo_witness:
  "case rev [[1, 2], [3, 4]] of
     [] \<Rightarrow> pop_and_run page_layout calm pair_closures = Inr (Returned True, pair_closures)
   | x # ys \<Rightarrow> (\<exists>c'. pop_and_run page_layout calm pair_closures =
         Inr (if run_panics calm x then Unwound else Returned False, c') \<and>
       closures_ok pair_layout page_layout (rev ys) c' \<and> events c' = events pair_closures @ [Ran x])"
  by (rule pop_and_run_lifo [OF pair_closures_ok])

text \<open>C26: \<^verbatim>\<open>clear\<close> always terminates and drops the closures last one first; a closure that
  panics ends it, and the closures below it are all still in the vector.\<close>

theorem clear_terminates:
  assumes "closures_ok L L' xs c"
  shows "\<exists>c'. clear L' beh c =
      Some (Inr (if \<exists>x\<in>set xs. drop_panics beh x then Unwound else Returned (), c')) \<and>
    closures_ok L L' (rev (snd (split_panic (drop_panics beh) (rev xs)))) c' \<and>
    events c' = events c @ map Dropped (fst (split_panic (drop_panics beh) (rev xs)))"
  using clear_effect [OF assms, of beh] by blast

theorem clear_terminates_witness:
  "\<exists>c'. clear page_layout brittle pair_closures =
      Some (Inr (if \<exists>x\<in>set [[1, 2], [3, 4]]. drop_panics brittle x then Unwound else Returned (), c')) \<and>
    closures_ok pair_layout page_layout (rev (snd (split_panic (drop_panics brittle) (rev [[1, 2], [3, 4]])))) c' \<and>
    events c' = events pair_closures @ map Dropped (fst (split_panic (drop_panics brittle) (rev [[1, 2], [3, 4]])))"
  by (rule clear_terminates [OF pair_closures_ok])

text \<open>C28: dropping a closure vector none of whose closures panics when it is dropped drops every one
  of them exactly once, the last pushed first, frees the block and drops the metadata once.\<close>

theorem drop_closures_drops_all:
  assumes "closures_ok L L' xs c" "\<forall>x\<in>set xs. \<not> drop_panics beh x"
  shows "\<exists>c'. drop_closures L' beh c = Some (Inr (Returned (), c')) \<and>
    events c' = events c @ map Dropped (rev xs) \<and> heap (inner c') (data (inner c)) = None \<and>
    meta_dropped (inner c') = meta_dropped (inner c) @ [INIT L] \<and> \<not> is_allocated L' (inner c')"
  using assms by (rule drop_closures_effect)

theorem drop_closures_drops_all_witness:
  "\<exists>c'. drop_closures page_layout calm pair_closures = Some (Inr (Returned (), c')) \<and>
    events c' = events pair_closures @ map Dropped (rev [[1, 2], [3, 4]]) \<and>
    heap (inner c') (data (inner pair_closures)) = None \<and>
    meta_dropped (inner c') = meta_dropped (inner pair_closures) @ [INIT pair_layout] \<and>
    \<not> is_allocated page_layout (inner c')"
  by (rule drop_closures_drops_all [OF pair_closures_ok]) (simp add: calm_def)

text \<open>C34: in a build with debug assertions, when a closure that is not the oldest panics while the
  vector is dropped (and those pushed after it do not), the vector's field is dropped during the unwinding
  with closures left in it, and its assertion fails: a panic while unwinding, which ends the process.\<close>

theorem drop_panic_aborts:
  assumes "closures_ok L L' (ys @ p # zs) c" "drop_panics beh p" "\<forall>x\<in>set zs. \<not> drop_panics beh x"
    and "ys \<noteq> []"
  shows "drop_closures L' beh c = Some (Inl DoublePanic)"
  using assms by (rule drop_closures_abort)

theorem drop_panic_aborts_witness:
  "drop_closures page_layout brittle pair_closures = Some (Inl DoublePanic)"
  using drop_panic_aborts [of pair_layout page_layout "[[1, 2]]" "[3, 4]" "[]" pair_closures brittle] pair_closures_ok
  by (simp add: brittle_def)

text \<open>C16: over any sequence of pushes, runs and clears, panics included, every closure is run or
  dropped or still in the vector, and exactly one of the three; a run only ends early for want
  of memory.\<close>

theorem closures_consumed_once:
  assumes "closures_ok L L xs c" "cmds_fit L beh cmds c"
  shows "\<exists>r. closures_run L beh cmds c = Some r \<and> (case r of Inl e \<Rightarrow> alloc_error e
    | Inr c' \<Rightarrow> \<exists>xs'. closures_ok L L xs' c' \<and>
        closures_account c' xs' = closures_account c xs + sum_list (map cmd_adds cmds))"
  using assms
proof (induction cmds arbitrary: xs c)
  case Nil
  then show ?case by auto
next
  case (Cons cmd cmds)
  obtain r where r: "closures_exec L beh cmd c = Some r" "case r of Inl e \<Rightarrow> alloc_error e
    | Inr c' \<Rightarrow> \<exists>xs'. closures_ok L L xs' c' \<and> closures_account c' xs' = closures_account c xs + cmd_adds cmd"
    using closures_exec_effect [OF Cons.prems(1), of cmd beh] Cons.prems(2) by auto
  show ?case
  proof (cases r)
    case (Inl e)
    then show ?thesis using r by simp
  next
    case (Inr c')
    then obtain xs' where xs': "closures_ok L L xs' c'"
      "closures_account c' xs' = closures_account c xs + cmd_adds cmd" using r by auto
    have "cmds_fit L beh cmds c'" using Cons.prems(2) r(1) Inr by simp
    from Cons.IH [OF xs'(1) this] obtain r' where "closures_run L beh cmds c' = Some r'"
      "case r' of Inl e \<Rightarrow> alloc_error e | Inr d \<Rightarrow> \<exists>ys. closures_ok L L ys d \<and>
        closures_account d ys = closures_account c' xs' + sum_list (map cmd_adds cmds)" by auto
    then show ?thesis using r(1) Inr xs'(2) by (auto simp: ac_simps split: sum.splits)
  qed
qed

theorem closures_consumed_once_witness:
  "\<exists>r. closures_run pair_layout brittle [Add None [1, 2], Run_Last] empty_closures = Some r \<and>
    (case r of Inl e \<Rightarrow> alloc_error e
    | Inr c' \<Rightarrow> \<exists>xs'. closures_ok pair_layout pair_layout xs' c' \<and>
        closures_account c' xs' = closures_account empty_closures [] +
          sum_list (map cmd_adds [Add None [1, 2], Run_Last]))"
proof (rule closures_consumed_once [OF empty_closures_ok(2)])
  have "push_fits pair_layout None [1, 2] [] (inner empty_closures)"
    by (simp add: push_room_def alloc_ok_def room_def grown_def saturating_mul_def cap_of_def
        empty_closures_def pair_closures_def layout_eval)
  then show "cmds_fit pair_layout brittle [Add None [1, 2], Run_Last] empty_closures"
    using vec_len_ok [OF empty_closures_ok(2)] by (auto split: sum.splits)
qed

end
