(* ===== verification/Executor.thy ===== *)
theory Executor
  imports Prelude
begin

text \<open>
  The parts of the executor crate that compute something: the default number of threads
  (\<^verbatim>\<open>default_max_threads\<close> of \<^verbatim>\<open>executor/src/lib.rs\<close>) and how a task's panic is
  printed (\<^verbatim>\<open>executor/src/error.rs\<close>).  The process environment, the number of cores and
  the sink a formatter writes to are parameters.
\<close>

section \<open>\<^verbatim>\<open>str::parse::<isize>\<close>\<close>

definition digit_val :: "char \<Rightarrow> nat option" where
  "digit_val c = (if of_char c \<ge> (48 :: nat) \<and> of_char c \<le> (57 :: nat) then Some (of_char c - 48) else None)"

fun parse_digits :: "nat \<Rightarrow> string \<Rightarrow> nat option" where
  "parse_digits n [] = Some n"
| "parse_digits n (c # cs) = (case digit_val c of None \<Rightarrow> None | Some d \<Rightarrow> parse_digits (10 * n + d) cs)"

text \<open>An optional sign, then at least one digit and nothing else; the value must fit the type.\<close>

definition parse_isize :: "string \<Rightarrow> int option" where
  "parse_isize s =
     (let (neg, digits) = (case s of
            [] \<Rightarrow> (False, [])
          | c # cs \<Rightarrow> if c = CHR ''-'' then (True, cs) else if c = CHR ''+'' then (False, cs) else (False, s))
      in if digits = [] then None
         else case parse_digits 0 digits of
           None \<Rightarrow> None
         | Some n \<Rightarrow> let i = (if neg then - int n else int n) in
             if - (2 ^ 63) \<le> i \<and> i < 2 ^ 63 then Some i else None)"

section \<open>\<^verbatim>\<open>default_max_threads\<close>\<close>

text \<open>An environment variable as \<^verbatim>\<open>var_os\<close> gives it: \<^verbatim>\<open>to_str\<close> fails when it is not
  UTF-8.\<close>

datatype os_string = Utf8 string | Not_Utf8

fun to_str :: "os_string \<Rightarrow> string option" where
  "to_str (Utf8 s) = Some s"
| "to_str Not_Utf8 = None"

definition try_usize :: "int \<Rightarrow> (string, nat) result" where
  "try_usize i = (if 0 \<le> i \<and> i < 2 ^ 64 then Inr (nat i) else Inl ''out of range integral type conversion attempted'')"

text \<open>\<^verbatim>\<open>NonZeroUsize::new(n).unwrap()\<close>.\<close>

definition non_zero :: "nat \<Rightarrow> (string, nat) result" where
  "non_zero n = (if n = 0 then Inl ''called `Option::unwrap()` on a `None` value'' else Inr n)"

definition bind_result :: "('e, 'a) result \<Rightarrow> ('a \<Rightarrow> ('e, 'b) result) \<Rightarrow> ('e, 'b) result" where
  "bind_result r f = (case r of Inl e \<Rightarrow> Inl e | Inr x \<Rightarrow> f x)"

definition env_num_threads :: "os_string option \<Rightarrow> (string, nat option) result" where
  "env_num_threads var = (case var of
     None \<Rightarrow> Inr None
   | Some s \<Rightarrow>
       (let num_threads = (case Option.bind (to_str s) parse_isize of None \<Rightarrow> -1 | Some i \<Rightarrow> i) in
        if num_threads < 1 then Inr None
        else bind_result (try_usize num_threads) (\<lambda>n. bind_result (non_zero n) (\<lambda>n. Inr (Some n)))))"

text \<open>The static \<^verbatim>\<open>OnceLock\<close> is the extra argument and result: what the first call found in
  the environment stays.  \<open>cores\<close> is the answer of \<^verbatim>\<open>available_parallelism\<close>, a
  \<^verbatim>\<open>NonZeroUsize\<close> or an error.\<close>

definition default_max_threads :: "os_string option \<Rightarrow> nat option \<Rightarrow> nat option option \<Rightarrow>
    (string, nat \<times> nat option option) result" where
  "default_max_threads var cores once =
     bind_result (case once of Some x \<Rightarrow> Inr x | None \<Rightarrow> env_num_threads var) (\<lambda>env.
     bind_result (case env of
        Some n \<Rightarrow> Inr n
      | None \<Rightarrow> (case cores of Some n \<Rightarrow> Inr n | None \<Rightarrow> non_zero 1)) (\<lambda>n.
     Inr (n, Some env)))"

section \<open>Errors of tasks\<close>

text \<open>A panic payload is a \<^verbatim>\<open>Box<dyn Any>\<close>: a \<^verbatim>\<open>String\<close>, a \<^verbatim>\<open>&'static str\<close> or
  something else.\<close>

datatype 'p payload = String string | Str string | Other 'p

datatype 'p join_error = JoinError "'p payload"

definition from_join_error :: "'p payload \<Rightarrow> 'p join_error" where
  "from_join_error p = JoinError p"

fun join_error_into_inner :: "'p join_error \<Rightarrow> 'p payload" where
  "join_error_into_inner (JoinError p) = p"

text \<open>A formatter is a sink: writing a piece of text gives the next sink, or fails.\<close>

type_synonym 's sink = "'s \<Rightarrow> string \<Rightarrow> 's option"

fun write_all :: "'s sink \<Rightarrow> string list \<Rightarrow> 's \<Rightarrow> 's option" where
  "write_all w [] s = Some s"
| "write_all w (p # ps) s = Option.bind (w s p) (write_all w ps)"

definition dump_panic_payload :: "'s sink \<Rightarrow> 'p payload \<Rightarrow> 's \<Rightarrow> 's option" where
  "dump_panic_payload w payload s = (case payload of
     String m \<Rightarrow> write_all w [''task panic: '', m] s
   | Str m \<Rightarrow> write_all w [''task panic: '', m] s
   | Other p \<Rightarrow> write_all w [''task panic with unknown payload''] s)"

fun display :: "'s sink \<Rightarrow> 'p join_error \<Rightarrow> 's \<Rightarrow> 's option" where
  "display w (JoinError p) s = dump_panic_payload w p s"

fun debug :: "'s sink \<Rightarrow> 'p join_error \<Rightarrow> 's \<Rightarrow> 's option" where
  "debug w (JoinError p) s =
     Option.bind (write_all w [''JoinError(''] s) (\<lambda>s.
     Option.bind (dump_panic_payload w p s) (\<lambda>s.
     Option.bind (write_all w ['')''] s) Some))"

text \<open>The sink that collects the text.\<close>

definition to_string :: "string sink" where
  "to_string s p = Some (s @ p)"

section \<open>Lemmas\<close>

text \<open>Decimal notation, for the value of the environment variable.\<close>

fun decimal :: "nat \<Rightarrow> string" where
  "decimal n = (if n < 10 then [char_of (48 + n)] else decimal (n div 10) @ [char_of (48 + n mod 10)])"

declare decimal.simps [simp del]

lemma digit_val_digit: "d < 10 \<Longrightarrow> digit_val (char_of (48 + d)) = Some d"
  by (simp add: digit_val_def of_char_of)

lemma parse_digits_append:
  "parse_digits n (xs @ ys) = Option.bind (parse_digits n xs) (\<lambda>m. parse_digits m ys)"
  by (induction xs arbitrary: n) (simp_all split: option.splits)

lemma parse_decimal: "parse_digits 0 (decimal n) = Some n"
proof (induction n rule: decimal.induct)
  case (1 n)
  show ?case
  proof (cases "n < 10")
    case True
    then show ?thesis by (subst decimal.simps) (simp add: digit_val_digit)
  next
    case False
    then show ?thesis using 1 by (subst decimal.simps) (simp add: parse_digits_append digit_val_digit)
  qed
qed

lemma decimal_head: "\<exists>d<10 :: nat. \<exists>cs. decimal n = char_of (48 + d) # cs"
proof (induction n rule: decimal.induct)
  case (1 n)
  show ?case
  proof (cases "n < 10")
    case True
    then show ?thesis by (subst decimal.simps) auto
  next
    case False
    then obtain d :: nat and cs where "d < 10" "decimal (n div 10) = char_of (48 + d) # cs" using 1 by auto
    then show ?thesis using False by (subst decimal.simps) auto
  qed
qed

lemma digit_not_sign:
  fixes d :: nat
  assumes "d < 10"
  shows "char_of (48 + d) \<noteq> CHR ''-''" "char_of (48 + d) \<noteq> CHR ''+''"
proof -
  have "digit_val (char_of (48 + d)) = Some d" using assms by (rule digit_val_digit)
  moreover have "digit_val (CHR ''-'') = None" "digit_val (CHR ''+'') = None" by (simp_all add: digit_val_def)
  ultimately show "char_of (48 + d) \<noteq> CHR ''-''" "char_of (48 + d) \<noteq> CHR ''+''" by auto
qed

lemma parse_isize_decimal: "n < 2 ^ 63 \<Longrightarrow> parse_isize (decimal n) = Some (int n)"
proof -
  assume n: "n < 2 ^ 63"
  obtain d :: nat and cs where d: "d < 10" "decimal n = char_of (48 + d) # cs" using decimal_head by blast
  then have "parse_digits 0 (char_of (48 + d) # cs) = Some n" using parse_decimal [of n] by simp
  moreover have "int n < 2 ^ 63" using n by (metis of_nat_less_iff of_nat_numeral of_nat_power)
  ultimately show ?thesis using d digit_not_sign [OF d(1)] by (simp add: parse_isize_def)
qed

lemma env_num_threads_ok: "\<exists>r. env_num_threads var = Inr r \<and> r \<noteq> Some 0"
proof -
  have bound: "i < 2 ^ 63" if "parse_isize s = Some i" for s i
    using that by (auto simp: parse_isize_def Let_def split: list.splits if_splits option.splits prod.splits)
  show ?thesis
  proof (cases "Option.bind (Option.bind var to_str) parse_isize")
    case None
    then show ?thesis by (auto simp: env_num_threads_def split: option.splits)
  next
    case (Some i)
    then have "i < 2 ^ 63" using bound by (auto simp: bind_eq_Some_conv)
    then show ?thesis using Some
      by (auto simp: env_num_threads_def bind_eq_Some_conv try_usize_def non_zero_def bind_result_def Let_def)
  qed
qed

section \<open>Properties\<close>

text \<open>C40: the default number of threads is at least one, whatever the environment variable holds,
  when the parallelism the system reports (if any) is not zero, and no conversion on the way panics.
  The variable is read by the first call only: a later call returns the same number if the first one
  found a number in the variable, or if the system still reports the same parallelism.  A
  decimal number \<open>n\<close> with \<open>1 \<le> n < 2 ^ 63\<close> in the variable is taken as it is.\<close>

theorem default_max_threads_positive:
  assumes "cores \<noteq> Some 0" "n \<noteq> 0" "n < 2 ^ 63"
  shows "(\<exists>k once. default_max_threads var cores None = Inr (k, once) \<and> 1 \<le> k \<and>
       (\<exists>k'. default_max_threads var' cores' once = Inr (k', once) \<and>
         (cores' = cores \<or> env_num_threads var \<noteq> Inr None \<longrightarrow> k' = k))) \<and>
    (\<exists>once. default_max_threads (Some (Utf8 (decimal n))) cores None = Inr (n, once))"
proof
  obtain r where r: "env_num_threads var = Inr r" "r \<noteq> Some 0" using env_num_threads_ok by blast
  show "\<exists>k once. default_max_threads var cores None = Inr (k, once) \<and> 1 \<le> k \<and>
       (\<exists>k'. default_max_threads var' cores' once = Inr (k', once) \<and>
         (cores' = cores \<or> env_num_threads var \<noteq> Inr None \<longrightarrow> k' = k))"
    using r assms(1)
    by (cases r; cases cores; cases cores') (auto simp: default_max_threads_def bind_result_def non_zero_def)
  have "int n < 2 ^ 64" using assms(3) by (simp add: less_imp_of_nat_less)
  then show "\<exists>once. default_max_threads (Some (Utf8 (decimal n))) cores None = Inr (n, once)"
    using assms parse_isize_decimal [OF assms(3)]
    by (simp add: default_max_threads_def env_num_threads_def try_usize_def non_zero_def bind_result_def)
qed

theorem default_max_threads_positive_witness:
  "(\<exists>k once. default_max_threads (Some (Utf8 ''-3'')) (Some 8) None = Inr (k, once) \<and> 1 \<le> k \<and>
       (\<exists>k'. default_max_threads None (Some 8) once = Inr (k', once) \<and>
         (Some 8 = Some (8 :: nat) \<or> env_num_threads (Some (Utf8 ''-3'')) \<noteq> Inr None \<longrightarrow> k' = k))) \<and>
    (\<exists>once. default_max_threads (Some (Utf8 (decimal 12))) (Some 8) None = Inr (12, once))"
  by (rule default_max_threads_positive) simp_all

text \<open>The debug form of a task's panic is its display form in \<^verbatim>\<open>JoinError(...)\<close>, on any
  sink: the text is the same, and when a write fails, so does the whole.\<close>

theorem debug_wraps_display:
  "debug w e s = Option.bind (w s ''JoinError('') (\<lambda>s. Option.bind (display w e s) (\<lambda>s. w s '')''))"
  by (cases e) (simp add: bind_eq_Some_conv split: bind_splits)

end
