(* ===== verification/Slot.thy ===== *)
theory Slot
  imports Memory Futex
begin

text \<open>
  The multi-producer single-consumer slot of \<^verbatim>\<open>bags/src/slot.rs\<close> as a transition system: one
  cell, a word the senders reserve it with and a word the receiver learns of a committed value
  from.  The word \<^verbatim>\<open>send\<close> is 64 bits wide on x86-64, where a reservation is an addition, and 32
  bits wide elsewhere, where it is a bitwise or; its width is the type parameter of the model.

  Any number of threads send; the receiver is a single agent, because \<^verbatim>\<open>Receiver\<close> is not
  \<^verbatim>\<open>Sync\<close> and moving it to another thread orders its uses.  One step is one atomic operation,
  one access of the cell, one fence or one futex call.
\<close>

section \<open>Status words\<close>

text \<open>\<^verbatim>\<open>SendStatus\<close>: two flags at the top, the reservations in every other bit.\<close>

definition RECEIVER_DEAD :: "'w::len word" where
  "RECEIVER_DEAD = push_bit (LENGTH('w) - 1) 1"

definition SEND_SLEEPING :: "'w::len word" where
  "SEND_SLEEPING = push_bit (LENGTH('w) - 2) 1"

definition send_flags :: "'w::len word" where
  "send_flags = RECEIVER_DEAD OR SEND_SLEEPING"

definition reservations :: "'w::len word \<Rightarrow> 'w word" where
  "reservations w = w AND NOT send_flags"

definition ABORT :: "'w::len word" where
  "ABORT = drop_bit 1 (send_flags AND (NOT send_flags + 1))"

definition is_x86_64 :: "'w::len itself \<Rightarrow> bool" where
  "is_x86_64 _ \<longleftrightarrow> LENGTH('w) = 64"

text \<open>\<^verbatim>\<open>RecvStatus\<close>.\<close>

definition COMMIT :: u32 where
  "COMMIT = push_bit 0 1"

definition RECV_SLEEPING :: u32 where
  "RECV_SLEEPING = push_bit 1 1"

definition SENDER_DEAD :: u32 where
  "SENDER_DEAD = push_bit 2 1"

section \<open>State\<close>

datatype 'a slot_send_result = SlotSent | SlotDisconnected 'a | SlotFull 'a

datatype 'a slot_recv_result = SlotGot 'a | SlotClosed | SlotEmpty

text \<open>A sending thread: the handle its call borrows, whether the call is \<^verbatim>\<open>send\<close> or
  \<^verbatim>\<open>try_send\<close>, and the value it still has.\<close>

datatype ('w, 'a) sender_pc =
    SIdle
  | SRet "'a slot_send_result"
  | SReserve nat bool 'a
  | SFence nat bool 'a
  | SWrite nat bool 'a
  | SCommit nat bool
  | SWakeReceiver nat bool
  | SSpin nat nat 'a
  | SSleep nat "'w" 'a
  | SAsleep nat 'a
  | STorch nat 'a
  | SDead
  | SDeadWake

text \<open>The receiver; the number is \<^verbatim>\<open>i\<close> of \<^verbatim>\<open>recv\<close>, and \<^const>\<open>None\<close> marks a
  \<^verbatim>\<open>try_recv\<close>.\<close>

datatype 'a receiver_pc =
    RIdle
  | RRet "'a slot_recv_result"
  | RLoad "nat option"
  | RClear "nat option"
  | RRead "nat option"
  | RFence "nat option" 'a
  | RPublish "nat option" 'a
  | RWakeSender "nat option" 'a
  | RAnnounce
  | RSleep
  | RAsleep
  | RDead
  | RDeadWake
  | RGone

record ('w, 'a) slot_inner =
  s_send :: "'w"
  s_recv :: u32
  s_num_senders :: u32
  s_slot :: "'a option"

text \<open>\<open>s_window\<close> holds the values of \<^verbatim>\<open>recv\<close> that the receiver's next load may return, newest
  first, each with the view that was released with it: the receiver sees its own operations and
  never goes back behind a value it has seen.\<close>

record ('w, 'a) slot_sys = "('w, 'a) slot_inner" +
  s_handles :: "nat set"
  s_threads :: "nat \<Rightarrow> ('w, 'a) sender_pc"
  s_receiver :: "'a receiver_pc"
  s_n :: nat
  s_seen :: "'w list"
  s_window :: "(u32 \<times> (nat \<Rightarrow> nat)) list"
  s_mem :: views
  s_sent :: "'a list"
  s_received :: "'a list"
  s_dropped :: "'a list option"

text \<open>\<^verbatim>\<open>mpsc()\<close>.\<close>

definition mpsc :: "nat \<Rightarrow> ('w::len word, 'a) slot_sys" where
  "mpsc n = \<lparr>s_send = 0, s_recv = 0, s_num_senders = 1, s_slot = None, s_handles = {0},
     s_threads = (\<lambda>_. SIdle), s_receiver = RIdle, s_n = n, s_seen = [0], s_window = [(0, \<lambda>_. 0)],
     s_mem = init_views, s_sent = [], s_received = [], s_dropped = None\<rparr>"

datatype slot_fault = SlotDataRace | SlotUninit | SlotLeak | SlotSpinUnderflow

datatype ('w, 'a) slot_outcome = SNext "('w, 'a) slot_sys" | SFault slot_fault | SAborted string | SDisabled

datatype 'a slot_call = CTrySend nat 'a | CSend nat 'a | CCloneSender nat nat | CDropSender nat

datatype 'a slot_recv_call = CTryRecv | CRecv | CDropReceiver

datatype ('w, 'a) slot_action =
    SStart nat "'a slot_call"
  | SStep nat
  | SLoad nat "'w"
  | SWoken nat bool
  | SInterrupt nat
  | RStart "'a slot_recv_call"
  | RStep
  | RLoaded nat
  | RWoken "nat list"
  | RInterrupt
  | DropSlot

section \<open>State updates\<close>

text \<open>The receiver's memory views are those of an agent that is no sender.\<close>

definition s_goto :: "nat \<Rightarrow> ('w, 'a) sender_pc \<Rightarrow> ('w, 'a) slot_sys \<Rightarrow> ('w, 'a) slot_sys" where
  "s_goto t p s = s\<lparr>s_threads := (s_threads s)(t := p)\<rparr>"

definition r_goto :: "'a receiver_pc \<Rightarrow> ('w, 'a) slot_sys \<Rightarrow> ('w, 'a) slot_sys" where
  "r_goto p s = s\<lparr>s_receiver := p\<rparr>"

definition receiver_agent :: nat where
  "receiver_agent = 0"

definition sender_agent :: "nat \<Rightarrow> nat" where
  "sender_agent t = Suc t"

definition s_rmw_send :: "nat \<Rightarrow> 'w \<Rightarrow> ('w, 'a) slot_sys \<Rightarrow> ('w, 'a) slot_sys" where
  "s_rmw_send agent w s = s\<lparr>s_send := w, s_seen := w # s_seen s, s_mem := rmw Relaxed agent SendWord (s_mem s)\<rparr>"

text \<open>A read-modify-write of \<^verbatim>\<open>recv\<close>: by a sender it adds to what the receiver may load, by the
  receiver it is all the receiver may load.\<close>

definition s_rmw_recv :: "ordering \<Rightarrow> nat \<Rightarrow> u32 \<Rightarrow> ('w, 'a) slot_sys \<Rightarrow> ('w, 'a) slot_sys" where
  "s_rmw_recv ord agent w s =
     (let m = rmw ord agent RecvWord (s_mem s);
          entry = (w, v_msg m RecvWord)
      in s\<lparr>s_recv := w, s_mem := m,
           s_window := (if agent = receiver_agent then [entry] else entry # s_window s)\<rparr>)"

definition load_view :: "nat \<Rightarrow> (nat \<Rightarrow> nat) \<Rightarrow> views \<Rightarrow> views" where
  "load_view t f v = v\<lparr>v_cur := (v_cur v)(t := join (v_cur v t) f)\<rparr>"

section \<open>Sender::try\_send\<close>

datatype slot_reserve = SlotAbort | SlotDead | SlotBusy | SlotReserved

definition slot_try_reserve :: "'w::len word \<Rightarrow> slot_reserve" where
  "slot_try_reserve prev =
     (let reservations = reservations prev in
      if is_x86_64 TYPE('w) \<and> reservations > ABORT then SlotAbort
      else if contains prev RECEIVER_DEAD then SlotDead
      else if reservations > 0 then SlotBusy
      else SlotReserved)"

definition slot_reserve_word :: "'w::len word \<Rightarrow> 'w word" where
  "slot_reserve_word prev = (if is_x86_64 TYPE('w) then prev + 1 else prev OR 1)"

definition slot_reserve_step :: "nat \<Rightarrow> nat \<Rightarrow> bool \<Rightarrow> 'a \<Rightarrow> ('w::len word, 'a) slot_sys \<Rightarrow> ('w word, 'a) slot_outcome" where
  "slot_reserve_step t h blocking data s =
     (let prev = s_send s;
          s = s_rmw_send (sender_agent t) (slot_reserve_word prev) s
      in case slot_try_reserve prev of
           SlotAbort \<Rightarrow> SAborted ''Slot attempted to send a value unsuccessfully too many times, aborting.''
         | SlotDead \<Rightarrow> SNext (s_goto t (SRet (SlotDisconnected data)) s)
         | SlotBusy \<Rightarrow> SNext (s_goto t (if blocking then SSpin h 32 data else SRet (SlotFull data)) s)
         | SlotReserved \<Rightarrow> SNext (s_goto t (SFence h blocking data) s))"

definition slot_fence_step :: "nat \<Rightarrow> nat \<Rightarrow> bool \<Rightarrow> 'a \<Rightarrow> ('w, 'a) slot_sys \<Rightarrow> ('w, 'a) slot_outcome" where
  "slot_fence_step t h blocking data s =
     SNext (s_goto t (SWrite h blocking data) (s\<lparr>s_mem := fence_acquire (sender_agent t) (s_mem s)\<rparr>))"

definition slot_write_step :: "nat \<Rightarrow> nat \<Rightarrow> bool \<Rightarrow> 'a \<Rightarrow> ('w, 'a) slot_sys \<Rightarrow> ('w, 'a) slot_outcome" where
  "slot_write_step t h blocking data s =
     (if \<not> race_free (sender_agent t) 0 (s_mem s) then SFault SlotDataRace
      else if s_slot s \<noteq> None then SFault SlotLeak
      else SNext (s_goto t (SCommit h blocking)
        (s\<lparr>s_slot := Some data, s_mem := access (sender_agent t) 0 (s_mem s), s_sent := s_sent s @ [data]\<rparr>)))"

definition slot_commit_step :: "nat \<Rightarrow> nat \<Rightarrow> bool \<Rightarrow> ('w, 'a) slot_sys \<Rightarrow> ('w, 'a) slot_outcome" where
  "slot_commit_step t h blocking s =
     (let receiver_sleeping = contains (s_recv s) RECV_SLEEPING;
          s = s_rmw_recv Release (sender_agent t) COMMIT s
      in SNext (s_goto t (if receiver_sleeping then SWakeReceiver h blocking else SRet SlotSent) s))"

text \<open>The wake calls.  Only the receiver can sleep on \<^verbatim>\<open>recv\<close>, so what a wake call on it
  wakes is the receiver or nobody.\<close>

definition receiver_asleep :: "'a receiver_pc \<Rightarrow> bool" where
  "receiver_asleep p \<longleftrightarrow> (case p of RAsleep \<Rightarrow> True | _ \<Rightarrow> False)"

definition wake_receiver :: "bool \<Rightarrow> ('w, 'a) slot_sys \<Rightarrow> ('w, 'a) slot_sys" where
  "wake_receiver woken s = (if woken then s\<lparr>s_receiver := RLoad (Some 0)\<rparr> else s)"

definition wake_receiver_step :: "nat \<Rightarrow> u32 \<Rightarrow> ('w, 'a) sender_pc \<Rightarrow> bool \<Rightarrow> ('w, 'a) slot_sys \<Rightarrow> ('w, 'a) slot_outcome" where
  "wake_receiver_step t waiters p woken s =
     (if wake_allowed 1 (\<lambda>_. receiver_asleep (s_receiver s)) waiters (if woken then [0] else [])
      then SNext (s_goto t p (wake_receiver woken s)) else SDisabled)"

section \<open>Sender::send\<close>

datatype slot_spin = SpinRetry | SpinDisconnected | SpinToSleep | SpinOn

definition slot_spin_check :: "'w::len word \<Rightarrow> slot_spin" where
  "slot_spin_check status =
     (if reservations status = 0 then SpinRetry
      else if contains status RECEIVER_DEAD then SpinDisconnected
      else if contains status SEND_SLEEPING then SpinToSleep
      else SpinOn)"

definition slot_spin_goto :: "nat \<Rightarrow> nat \<Rightarrow> nat \<Rightarrow> 'a \<Rightarrow> 'w::len word \<Rightarrow> ('w word, 'a) slot_sys \<Rightarrow> ('w word, 'a) slot_outcome" where
  "slot_spin_goto t h spin data w s =
     (case slot_spin_check w of
        SpinRetry \<Rightarrow> SNext (s_goto t (SReserve h True data) s)
      | SpinDisconnected \<Rightarrow> SNext (s_goto t (SRet (SlotDisconnected data)) s)
      | SpinToSleep \<Rightarrow> SNext (s_goto t (SSleep h w data) s)
      | SpinOn \<Rightarrow> if spin = 0 then SFault SlotSpinUnderflow
                 else SNext (s_goto t (SSpin h (spin - 1) data) s))"

definition slot_spin_rmw :: "nat \<Rightarrow> nat \<Rightarrow> nat \<Rightarrow> 'a \<Rightarrow> ('w::len word, 'a) slot_sys \<Rightarrow> ('w word, 'a) slot_outcome" where
  "slot_spin_rmw t h spin data s =
     (if spin = 0
      then let w = s_send s OR SEND_SLEEPING
           in slot_spin_goto t h spin data w (s_rmw_send (sender_agent t) w s)
      else SDisabled)"

definition slot_spin_load :: "nat \<Rightarrow> nat \<Rightarrow> nat \<Rightarrow> 'a \<Rightarrow> 'w::len word \<Rightarrow> ('w word, 'a) slot_sys \<Rightarrow> ('w word, 'a) slot_outcome" where
  "slot_spin_load t h spin data w s =
     (if spin \<noteq> 0 \<and> w \<in> set (s_seen s) then slot_spin_goto t h spin data w s else SDisabled)"

text \<open>The 32 bits of the word that the futex call looks at.\<close>

definition futex_half :: "'w::len word \<Rightarrow> u32" where
  "futex_half w = (if is_x86_64 TYPE('w) then ucast (drop_bit 32 w) else ucast w)"

definition slot_sleep_step :: "nat \<Rightarrow> nat \<Rightarrow> 'w::len word \<Rightarrow> 'a \<Rightarrow> ('w word, 'a) slot_sys \<Rightarrow> ('w word, 'a) slot_outcome" where
  "slot_sleep_step t h expected data s =
     SNext (s_goto t (if wait_blocks (futex_half (s_send s)) (futex_half expected)
                      then SAsleep h data else STorch h data) s)"

definition slot_torch_step :: "nat \<Rightarrow> nat \<Rightarrow> 'a \<Rightarrow> ('w::len word, 'a) slot_sys \<Rightarrow> ('w word, 'a) slot_outcome" where
  "slot_torch_step t h data s =
     SNext (s_goto t (SReserve h True data) (s_rmw_send (sender_agent t) (s_send s OR SEND_SLEEPING) s))"

section \<open>Sender: Clone and Drop\<close>

fun s_handle :: "('w, 'a) sender_pc \<Rightarrow> nat option" where
  "s_handle (SReserve h b d) = Some h"
| "s_handle (SFence h b d) = Some h"
| "s_handle (SWrite h b d) = Some h"
| "s_handle (SCommit h b) = Some h"
| "s_handle (SWakeReceiver h b) = Some h"
| "s_handle (SSpin h n d) = Some h"
| "s_handle (SSleep h w d) = Some h"
| "s_handle (SAsleep h d) = Some h"
| "s_handle (STorch h d) = Some h"
| "s_handle _ = None"

definition s_borrowed :: "('w, 'a) slot_sys \<Rightarrow> nat \<Rightarrow> bool" where
  "s_borrowed s h \<longleftrightarrow> (\<exists>u\<in>set [0..<s_n s]. s_handle (s_threads s u) = Some h)"

definition slot_clone_sender :: "nat \<Rightarrow> nat \<Rightarrow> nat \<Rightarrow> ('w, 'a) slot_sys \<Rightarrow> ('w, 'a) slot_outcome" where
  "slot_clone_sender t h h' s =
     (if h \<notin> s_handles s \<or> h' \<in> s_handles s then SDisabled
      else if s_num_senders s > u32_max div 2 then SAborted ''Too many senders, aborting.''
      else SNext (s_goto t SIdle
        (s\<lparr>s_num_senders := s_num_senders s + 1, s_handles := insert h' (s_handles s)\<rparr>)))"

definition slot_drop_sender :: "nat \<Rightarrow> nat \<Rightarrow> ('w, 'a) slot_sys \<Rightarrow> ('w, 'a) slot_outcome" where
  "slot_drop_sender t h s =
     (if h \<notin> s_handles s \<or> s_borrowed s h then SDisabled
      else let prev = s_num_senders s in
        SNext (s_goto t (if prev > 1 then SIdle else SDead)
          (s\<lparr>s_num_senders := prev - 1, s_handles := s_handles s - {h}\<rparr>)))"

definition slot_sender_dead_step :: "nat \<Rightarrow> ('w, 'a) slot_sys \<Rightarrow> ('w, 'a) slot_outcome" where
  "slot_sender_dead_step t s =
     (let prev = s_recv s;
          receiver_sleeping = contains prev RECV_SLEEPING;
          s = s_rmw_recv Relaxed (sender_agent t) (prev OR SENDER_DEAD) s
      in SNext (s_goto t (if receiver_sleeping then SDeadWake else SIdle) s))"

section \<open>Receiver::try\_recv\<close>

text \<open>The acquire load of \<^verbatim>\<open>recv\<close> returns the \<open>k\<close>-th newest value it can see.\<close>

definition slot_load_step :: "nat option \<Rightarrow> nat \<Rightarrow> ('w, 'a) slot_sys \<Rightarrow> ('w, 'a) slot_outcome" where
  "slot_load_step c k s =
     (if k \<ge> length (s_window s) then SDisabled
      else let (w, f) = s_window s ! k;
               s = s\<lparr>s_window := take (Suc k) (s_window s), s_mem := load_view receiver_agent f (s_mem s)\<rparr>
           in SNext (r_goto
             (if contains w COMMIT then RClear c
              else if contains w SENDER_DEAD then RRet SlotClosed
              else case c of
                None \<Rightarrow> RRet SlotEmpty
              | Some i \<Rightarrow> if i < 32 then RLoad (Some (i + 1)) else RAnnounce) s))"

definition slot_clear_step :: "nat option \<Rightarrow> ('w, 'a) slot_sys \<Rightarrow> ('w, 'a) slot_outcome" where
  "slot_clear_step c s = SNext (r_goto (RRead c) (s_rmw_recv Relaxed receiver_agent (s_recv s AND SENDER_DEAD) s))"

definition slot_read_step :: "nat option \<Rightarrow> ('w, 'a) slot_sys \<Rightarrow> ('w, 'a) slot_outcome" where
  "slot_read_step c s =
     (if \<not> race_free receiver_agent 0 (s_mem s) then SFault SlotDataRace
      else case s_slot s of
        None \<Rightarrow> SFault SlotUninit
      | Some value \<Rightarrow> SNext (r_goto (RFence c value)
          (s\<lparr>s_slot := None, s_mem := access receiver_agent 0 (s_mem s), s_received := s_received s @ [value]\<rparr>)))"

definition slot_release_step :: "nat option \<Rightarrow> 'a \<Rightarrow> ('w, 'a) slot_sys \<Rightarrow> ('w, 'a) slot_outcome" where
  "slot_release_step c value s =
     SNext (r_goto (RPublish c value) (s\<lparr>s_mem := fence_release receiver_agent (s_mem s)\<rparr>))"

definition slot_publish_step :: "nat option \<Rightarrow> 'a \<Rightarrow> ('w::len word, 'a) slot_sys \<Rightarrow> ('w word, 'a) slot_outcome" where
  "slot_publish_step c value s =
     (let sender_sleeping = contains (s_send s) SEND_SLEEPING;
          s = s_rmw_send receiver_agent 0 s
      in SNext (r_goto (if sender_sleeping then RWakeSender c value else RRet (SlotGot value)) s))"

fun sender_asleep :: "('w, 'a) sender_pc \<Rightarrow> bool" where
  "sender_asleep (SAsleep h d) = True"
| "sender_asleep _ = False"

fun wake_sender_pc :: "('w, 'a) sender_pc \<Rightarrow> ('w, 'a) sender_pc" where
  "wake_sender_pc (SAsleep h d) = STorch h d"
| "wake_sender_pc p = p"

definition wake_senders :: "nat list \<Rightarrow> ('w, 'a) slot_sys \<Rightarrow> ('w, 'a) slot_sys" where
  "wake_senders W s = s\<lparr>s_threads := (\<lambda>t. if t \<in> set W then wake_sender_pc (s_threads s t) else s_threads s t)\<rparr>"

definition wake_senders_step :: "u32 \<Rightarrow> 'a receiver_pc \<Rightarrow> nat list \<Rightarrow> ('w, 'a) slot_sys \<Rightarrow> ('w, 'a) slot_outcome" where
  "wake_senders_step waiters p W s =
     (if wake_allowed (s_n s) (\<lambda>t. sender_asleep (s_threads s t)) waiters W
      then SNext (r_goto p (wake_senders W s)) else SDisabled)"

section \<open>Receiver::recv\<close>

definition slot_announce_step :: "('w, 'a) slot_sys \<Rightarrow> ('w, 'a) slot_outcome" where
  "slot_announce_step s =
     (let prev = s_recv s;
          s = s_rmw_recv Relaxed receiver_agent (prev OR RECV_SLEEPING) s
      in SNext (r_goto (if prev \<noteq> 0 then RLoad (Some 0) else RSleep) s))"

definition slot_recv_sleep_step :: "('w, 'a) slot_sys \<Rightarrow> ('w, 'a) slot_outcome" where
  "slot_recv_sleep_step s =
     SNext (r_goto (if wait_blocks (s_recv s) RECV_SLEEPING then RAsleep else RLoad (Some 0)) s)"

section \<open>Drop for Receiver and Inner\<close>

definition slot_receiver_dead_step :: "('w::len word, 'a) slot_sys \<Rightarrow> ('w word, 'a) slot_outcome" where
  "slot_receiver_dead_step s =
     (let sender_sleeping = contains (s_send s) SEND_SLEEPING;
          s = s_rmw_send receiver_agent RECEIVER_DEAD s
      in SNext (r_goto (if sender_sleeping then RDeadWake else RGone) s))"

fun s_ready :: "('w, 'a) sender_pc \<Rightarrow> bool" where
  "s_ready SIdle = True"
| "s_ready (SRet r) = True"
| "s_ready _ = False"

fun r_ready :: "'a receiver_pc \<Rightarrow> bool" where
  "r_ready RIdle = True"
| "r_ready (RRet r) = True"
| "r_ready _ = False"

text \<open>\<^verbatim>\<open>Drop for Inner\<close> runs in whichever thread drops the last handle; the reference count of
  the \<^verbatim>\<open>Arc\<close> orders it after everything else, so its load returns the latest value.\<close>

definition drop_slot_inner :: "('w, 'a) slot_sys \<Rightarrow> ('w, 'a) slot_outcome" where
  "drop_slot_inner s =
     (if \<not> (s_handles s = {} \<and> s_receiver s = RGone \<and> s_dropped s = None \<and>
          (\<forall>u\<in>set [0..<s_n s]. s_ready (s_threads s u))) then SDisabled
      else let m = load_acquire receiver_agent RecvWord (s_mem s) in
        if contains (s_recv s) COMMIT
        then if \<not> race_free receiver_agent 0 m then SFault SlotDataRace
             else (case s_slot s of
               None \<Rightarrow> SFault SlotUninit
             | Some x \<Rightarrow> SNext (s\<lparr>s_slot := None, s_mem := access receiver_agent 0 m, s_dropped := Some [x]\<rparr>))
        else SNext (s\<lparr>s_mem := m, s_dropped := Some []\<rparr>))"

section \<open>The transition system\<close>

definition slot_start :: "nat \<Rightarrow> 'a slot_call \<Rightarrow> ('w, 'a) slot_sys \<Rightarrow> ('w, 'a) slot_outcome" where
  "slot_start t call s =
     (case call of
        CTrySend h data \<Rightarrow> if h \<in> s_handles s then SNext (s_goto t (SReserve h False data) s) else SDisabled
      | CSend h data \<Rightarrow> if h \<in> s_handles s then SNext (s_goto t (SReserve h True data) s) else SDisabled
      | CCloneSender h h' \<Rightarrow> slot_clone_sender t h h' s
      | CDropSender h \<Rightarrow> slot_drop_sender t h s)"

fun sender_step :: "nat \<Rightarrow> ('w::len word, 'a) slot_sys \<Rightarrow> ('w word, 'a) sender_pc \<Rightarrow> ('w word, 'a) slot_outcome" where
  "sender_step t s (SReserve h b d) = slot_reserve_step t h b d s"
| "sender_step t s (SFence h b d) = slot_fence_step t h b d s"
| "sender_step t s (SWrite h b d) = slot_write_step t h b d s"
| "sender_step t s (SCommit h b) = slot_commit_step t h b s"
| "sender_step t s (SSpin h n d) = slot_spin_rmw t h n d s"
| "sender_step t s (SSleep h w d) = slot_sleep_step t h w d s"
| "sender_step t s (STorch h d) = slot_torch_step t h d s"
| "sender_step t s SDead = slot_sender_dead_step t s"
| "sender_step t s _ = SDisabled"

fun receiver_step :: "('w::len word, 'a) slot_sys \<Rightarrow> 'a receiver_pc \<Rightarrow> ('w word, 'a) slot_outcome" where
  "receiver_step s (RClear c) = slot_clear_step c s"
| "receiver_step s (RRead c) = slot_read_step c s"
| "receiver_step s (RFence c v) = slot_release_step c v s"
| "receiver_step s (RPublish c v) = slot_publish_step c v s"
| "receiver_step s RAnnounce = slot_announce_step s"
| "receiver_step s RSleep = slot_recv_sleep_step s"
| "receiver_step s RDead = slot_receiver_dead_step s"
| "receiver_step s _ = SDisabled"

definition slot_step :: "('w::len word, 'a) slot_action \<Rightarrow> ('w word, 'a) slot_sys \<Rightarrow> ('w word, 'a) slot_outcome" where
  "slot_step a s = (case a of
      SStart t call \<Rightarrow> if t < s_n s \<and> s_ready (s_threads s t) then slot_start t call s else SDisabled
    | SStep t \<Rightarrow> if t < s_n s then sender_step t s (s_threads s t) else SDisabled
    | SLoad t w \<Rightarrow> if t < s_n s then (case s_threads s t of
          SSpin h n d \<Rightarrow> slot_spin_load t h n d w s | _ \<Rightarrow> SDisabled) else SDisabled
    | SWoken t woken \<Rightarrow> if t < s_n s then (case s_threads s t of
          SWakeReceiver h b \<Rightarrow> wake_receiver_step t 1 (SRet SlotSent) woken s
        | SDeadWake \<Rightarrow> wake_receiver_step t u32_max SIdle woken s
        | _ \<Rightarrow> SDisabled) else SDisabled
    | SInterrupt t \<Rightarrow> if t < s_n s then (case s_threads s t of
          SAsleep h d \<Rightarrow> SNext (s_goto t (STorch h d) s) | _ \<Rightarrow> SDisabled) else SDisabled
    | RStart call \<Rightarrow> if r_ready (s_receiver s) then (case call of
          CTryRecv \<Rightarrow> SNext (r_goto (RLoad None) s)
        | CRecv \<Rightarrow> SNext (r_goto (RLoad (Some 0)) s)
        | CDropReceiver \<Rightarrow> SNext (r_goto RDead s)) else SDisabled
    | RStep \<Rightarrow> receiver_step s (s_receiver s)
    | RLoaded k \<Rightarrow> (case s_receiver s of RLoad c \<Rightarrow> slot_load_step c k s | _ \<Rightarrow> SDisabled)
    | RWoken W \<Rightarrow> (case s_receiver s of
          RWakeSender c v \<Rightarrow> wake_senders_step 1 (RRet (SlotGot v)) W s
        | RDeadWake \<Rightarrow> wake_senders_step u32_max RGone W s
        | _ \<Rightarrow> SDisabled)
    | RInterrupt \<Rightarrow> (case s_receiver s of RAsleep \<Rightarrow> SNext (r_goto (RLoad (Some 0)) s) | _ \<Rightarrow> SDisabled)
    | DropSlot \<Rightarrow> drop_slot_inner s)"

inductive slot_reachable :: "('w::len word, 'a) slot_sys \<Rightarrow> bool" where
  slot_init: "slot_reachable (mpsc n)"
| slot_next: "slot_reachable s \<Longrightarrow> slot_step a s = SNext s' \<Longrightarrow> slot_reachable s'"

fun slot_exec :: "('w::len word, 'a) slot_action list \<Rightarrow> ('w word, 'a) slot_sys \<Rightarrow> ('w word, 'a) slot_outcome" where
  "slot_exec [] s = SNext s"
| "slot_exec (a # as) s = (case slot_step a s of SNext s' \<Rightarrow> slot_exec as s' | r \<Rightarrow> r)"

lemma slot_reachable_exec: "slot_reachable s \<Longrightarrow> slot_exec as s = SNext s' \<Longrightarrow> slot_reachable s'"
  by (induction as arbitrary: s) (auto split: slot_outcome.splits intro: slot_next)

end
