(* ===== verification/Slot_Words.thy ===== *)
theory Slot_Words
  imports Slot
begin

text \<open>
  The status words of the slot by their flags: what each update of a word does to its reservation and to
  each flag.  A word is \<open>supported\<close> when it has one of the two widths the source builds with.
\<close>

section \<open>The width of the word\<close>

definition supported :: "'w::len itself \<Rightarrow> bool" where
  "supported _ \<longleftrightarrow> LENGTH('w) = 64 \<or> LENGTH('w) = 32"

definition reserved :: "'w::len word \<Rightarrow> bool" where
  "reserved w \<longleftrightarrow> reservations w \<noteq> 0"

definition send_dead :: "'w::len word \<Rightarrow> bool" where
  "send_dead w \<longleftrightarrow> contains w RECEIVER_DEAD"

definition send_sleeping :: "'w::len word \<Rightarrow> bool" where
  "send_sleeping w \<longleftrightarrow> contains w SEND_SLEEPING"

lemma contains_exp:
  assumes "k < LENGTH('w)"
  shows "contains (w :: 'w::len word) (2 ^ k) \<longleftrightarrow> bit w k"
  unfolding contains_def word_eq_bits using assms by (auto simp: bit_simps)

lemma supported_length: "supported TYPE('w::len) \<Longrightarrow> 3 < LENGTH('w)"
  by (auto simp: supported_def)

lemma send_dead_bit: "supported TYPE('w::len) \<Longrightarrow> send_dead (w :: 'w word) \<longleftrightarrow> bit w (LENGTH('w) - 1)"
  using supported_length [where 'w = 'w] by (simp add: send_dead_def RECEIVER_DEAD_def contains_exp)

lemma send_sleeping_bit: "supported TYPE('w::len) \<Longrightarrow> send_sleeping (w :: 'w word) \<longleftrightarrow> bit w (LENGTH('w) - 2)"
  using supported_length [where 'w = 'w] by (simp add: send_sleeping_def SEND_SLEEPING_def contains_exp)

lemma reservations_take_bit:
  assumes "supported TYPE('w::len)"
  shows "reservations (w :: 'w word) = take_bit (LENGTH('w) - 2) w"
proof (rule bit_word_eqI)
  fix j assume j: "j < LENGTH('w)"
  have "j < LENGTH('w) - 2 \<longleftrightarrow> j \<noteq> LENGTH('w) - 1 \<and> j \<noteq> LENGTH('w) - 2"
    using j supported_length [OF assms] by linarith
  then show "bit (reservations w) j \<longleftrightarrow> bit (take_bit (LENGTH('w) - 2) w) j"
    using j supported_length [OF assms]
    by (auto simp: reservations_def send_flags_def RECEIVER_DEAD_def SEND_SLEEPING_def bit_simps)
qed

lemma reserved_bits:
  assumes "supported TYPE('w::len)"
  shows "reserved (w :: 'w word) \<longleftrightarrow> (\<exists>j<LENGTH('w) - 2. bit w j)"
proof -
  have "reservations w = 0 \<longleftrightarrow> (\<forall>j. \<not> bit (take_bit (LENGTH('w) - 2) w) j)"
    unfolding reservations_take_bit [OF assms] by (auto intro: bit_eqI)
  then show ?thesis by (auto simp: reserved_def bit_take_bit_iff)
qed

lemma send_words [simp]:
  fixes w :: "'w::len word"
  assumes "supported TYPE('w)"
  shows "\<not> reserved (0 :: 'w word)" "\<not> send_dead (0 :: 'w word)" "\<not> send_sleeping (0 :: 'w word)"
    "\<not> reserved (RECEIVER_DEAD :: 'w word)" "send_dead (RECEIVER_DEAD :: 'w word)" "\<not> send_sleeping (RECEIVER_DEAD :: 'w word)"
    "reserved (w OR SEND_SLEEPING) = reserved w" "send_dead (w OR SEND_SLEEPING) = send_dead w"
    "send_sleeping (w OR SEND_SLEEPING)"
  using supported_length [OF assms]
  by (auto simp: reserved_bits send_dead_bit send_sleeping_bit assms RECEIVER_DEAD_def SEND_SLEEPING_def bit_simps)

text \<open>A reservation by addition carries into the flags only past the point where the code aborts.\<close>

lemma ABORT_64: "LENGTH('w::len) = 64 \<Longrightarrow> unat (ABORT :: 'w word) = 2 ^ 61"
proof -
  assume n: "LENGTH('w) = 64"
  have f: "uint (send_flags :: 'w word) = 2 ^ 63 + 2 ^ 62"
    by (simp add: send_flags_def RECEIVER_DEAD_def SEND_SLEEPING_def n unsigned_or_eq unsigned_push_bit_eq take_bit_eq_mod push_bit_eq_mult)
  have "NOT (send_flags :: 'w word) + 1 = - send_flags" by (simp add: minus_eq_not_plus_1)
  then have "uint (NOT (send_flags :: 'w word) + 1) = 2 ^ 62"
    by (simp add: uint_word_ariths(4) f n)
  then have "uint (send_flags AND (NOT send_flags + 1 :: 'w word)) = 2 ^ 62"
    by (simp only: unsigned_and_eq f) (simp add: and.commute)
  then have "uint (ABORT :: 'w word) = 2 ^ 61"
    unfolding ABORT_def unsigned_drop_bit_eq by (simp add: n drop_bit_eq_div take_bit_eq_mod)
  then show ?thesis by (metis unat_eq_nat_uint nat_numeral nat_power_eq zero_le_numeral)
qed

lemma div_no_carry:
  fixes u :: nat
  assumes "u mod 2 ^ k + 1 < 2 ^ k" "k \<le> j"
  shows "(u + 1) div 2 ^ j = u div 2 ^ j"
proof -
  have "(u + 1) div 2 ^ k = u div 2 ^ k"
  proof -
    have "u + 1 = (u mod 2 ^ k + 1) + 2 ^ k * (u div 2 ^ k)" by simp
    then have "(u + 1) div 2 ^ k = (u mod 2 ^ k + 1) div 2 ^ k + u div 2 ^ k"
      by (metis div_mult_self2 power_not_zero zero_neq_numeral add.commute)
    then show ?thesis using assms(1) by simp
  qed
  then have "(u + 1) div 2 ^ k div 2 ^ (j - k) = u div 2 ^ k div 2 ^ (j - k)" by simp
  then show ?thesis using assms(2) by (simp add: div_mult2_eq [symmetric] power_add [symmetric])
qed

lemma add_one_flags:
  fixes w :: "'w::len word"
  assumes "LENGTH('w) = 64" "\<not> ABORT < reservations w"
  shows "reserved (w + 1)" "send_dead (w + 1) = send_dead w" "send_sleeping (w + 1) = send_sleeping w"
proof -
  have sup: "supported TYPE('w)" using assms(1) by (simp add: supported_def)
  have "unat (reservations w) \<le> 2 ^ 61"
    using assms by (simp add: word_less_nat_alt ABORT_64 not_less)
  then have r: "unat w mod 2 ^ 62 \<le> 2 ^ 61"
    unfolding reservations_take_bit [OF sup] assms(1) by (simp add: unsigned_take_bit_eq del: take_bit_of_exp) (simp add: take_bit_eq_mod)
  have small: "unat w + 1 < 2 ^ 64"
  proof (rule ccontr)
    assume "\<not> ?thesis"
    moreover have "unat w < 2 ^ 64" using unsigned_less [of w] assms(1) by simp
    ultimately have "unat w = 2 ^ 64 - 1" by linarith
    then show False using r by simp
  qed
  then have suc: "unat (w + 1) = unat w + 1" using assms(1) by (simp add: unat_word_ariths)
  have bit: "bit (w + 1) j = bit w j" if "62 \<le> j" for j
  proof -
    have "(unat w + 1) div 2 ^ j = unat w div 2 ^ j"
      by (rule div_no_carry [of _ 62]) (use r that in simp_all)
    then have "bit (unat (w + 1)) j = bit (unat w) j" by (simp add: bit_iff_odd suc)
    then show ?thesis by (simp add: bit_unsigned_iff)
  qed
  show "send_dead (w + 1) = send_dead w" "send_sleeping (w + 1) = send_sleeping w"
    using bit by (simp_all add: send_dead_bit send_sleeping_bit sup assms(1))
  have "unat (take_bit 62 (w + 1)) = unat w mod 2 ^ 62 + 1"
    unfolding unsigned_take_bit_eq [of 62 "w + 1"] suc using r by (simp add: take_bit_eq_mod mod_Suc)
  then show "reserved (w + 1)" by (auto simp: reserved_def reservations_take_bit [OF sup] assms(1))
qed

lemma slot_try_reserve_cases:
  fixes w :: "'w::len word"
  assumes "supported TYPE('w)" "slot_try_reserve w \<noteq> SlotAbort"
  shows "reserved (slot_reserve_word w)" "send_dead (slot_reserve_word w) = send_dead w"
    "send_sleeping (slot_reserve_word w) = send_sleeping w"
    "slot_try_reserve w = (if send_dead w then SlotDead else if reserved w then SlotBusy else SlotReserved)"
proof -
  have n: "is_x86_64 TYPE('w) \<Longrightarrow> \<not> ABORT < reservations w"
    using assms(2) by (auto simp: slot_try_reserve_def)
  show "slot_try_reserve w = (if send_dead w then SlotDead else if reserved w then SlotBusy else SlotReserved)"
    using n by (auto simp: slot_try_reserve_def send_dead_def reserved_def Let_def word_gt_0)
  show "reserved (slot_reserve_word w)" "send_dead (slot_reserve_word w) = send_dead w"
    "send_sleeping (slot_reserve_word w) = send_sleeping w"
    using n add_one_flags [of w] supported_length [OF assms(1)]
    by (auto simp: slot_reserve_word_def is_x86_64_def reserved_bits send_dead_bit send_sleeping_bit assms(1) bit_simps
        intro!: exI [of _ 0])
qed

lemma slot_spin_check_cases:
  "slot_spin_check w = (if \<not> reserved w then SpinRetry else if send_dead w then SpinDisconnected
     else if send_sleeping w then SpinToSleep else SpinOn)"
  by (simp add: slot_spin_check_def reserved_def send_dead_def send_sleeping_def)

section \<open>The receiver's word\<close>

definition committed :: "u32 \<Rightarrow> bool" where
  "committed w \<longleftrightarrow> contains w COMMIT"

definition recv_dead :: "u32 \<Rightarrow> bool" where
  "recv_dead w \<longleftrightarrow> contains w SENDER_DEAD"

definition recv_sleeping :: "u32 \<Rightarrow> bool" where
  "recv_sleeping w \<longleftrightarrow> contains w RECV_SLEEPING"

lemma recv_flag_bits: "committed w = bit w 0" "recv_sleeping w = bit w 1" "recv_dead w = bit w 2"
  using contains_exp [of 0 w] contains_exp [of 1 w] contains_exp [of 2 w]
  by (simp_all add: committed_def recv_sleeping_def recv_dead_def COMMIT_def RECV_SLEEPING_def SENDER_DEAD_def)

lemma recv_words [simp]:
  "\<not> committed 0" "\<not> recv_dead 0" "\<not> recv_sleeping 0"
  "committed COMMIT" "\<not> recv_dead COMMIT" "\<not> recv_sleeping COMMIT"
  "\<not> committed (w AND SENDER_DEAD)" "recv_dead (w AND SENDER_DEAD) = recv_dead w" "\<not> recv_sleeping (w AND SENDER_DEAD)"
  "committed (w OR SENDER_DEAD) = committed w" "recv_dead (w OR SENDER_DEAD)" "recv_sleeping (w OR SENDER_DEAD) = recv_sleeping w"
  "committed (w OR RECV_SLEEPING) = committed w" "recv_dead (w OR RECV_SLEEPING) = recv_dead w" "recv_sleeping (w OR RECV_SLEEPING)"
  "\<not> committed RECV_SLEEPING" "\<not> recv_dead RECV_SLEEPING" "recv_sleeping RECV_SLEEPING"
  by (auto simp: recv_flag_bits COMMIT_def RECV_SLEEPING_def SENDER_DEAD_def bit_simps)

end
