(* ===== verification/Slot_Effect.thy ===== *)
theory Slot_Effect
  imports Slot_Words
begin

text \<open>
  The cases of a step of the slot: \<open>slot_effect\<close> lists, with the state after it, every way a step can end, and
  \<open>slot_step_effect\<close> says there are no others.
\<close>

text \<open>Calls of a sending thread, and its moves that carry a value: the reservation, the write and the commit.\<close>

inductive sender_move :: "('w::len word, 'a) slot_sys \<Rightarrow> ('w word, 'a) slot_sys \<Rightarrow> bool" where
  e_call: "s_threads s t = p \<Longrightarrow> s_ready p \<Longrightarrow> t < s_n s \<Longrightarrow> h \<in> s_handles s \<Longrightarrow>
     sender_move s (s_goto t (SReserve h b d) s)"
| e_clone: "s_threads s t = p \<Longrightarrow> s_ready p \<Longrightarrow> t < s_n s \<Longrightarrow> h \<in> s_handles s \<Longrightarrow> h' \<notin> s_handles s \<Longrightarrow>
     s_num_senders s \<le> u32_max div 2 \<Longrightarrow>
     sender_move s (s_goto t SIdle (s\<lparr>s_num_senders := s_num_senders s + 1, s_handles := insert h' (s_handles s)\<rparr>))"
| e_drop: "s_threads s t = p \<Longrightarrow> s_ready p \<Longrightarrow> t < s_n s \<Longrightarrow> h \<in> s_handles s \<Longrightarrow> \<not> s_borrowed s h \<Longrightarrow>
     sender_move s (s_goto t (if s_num_senders s > 1 then SIdle else SDead)
       (s\<lparr>s_num_senders := s_num_senders s - 1, s_handles := s_handles s - {h}\<rparr>))"
| e_refused: "s_threads s t = SReserve h b d \<Longrightarrow> t < s_n s \<Longrightarrow> slot_try_reserve (s_send s) \<noteq> SlotAbort \<Longrightarrow>
     send_dead (s_send s) \<Longrightarrow>
     sender_move s (s_goto t (SRet (SlotDisconnected d)) (s_rmw_send (sender_agent t) (slot_reserve_word (s_send s)) s))"
| e_busy: "s_threads s t = SReserve h b d \<Longrightarrow> t < s_n s \<Longrightarrow> slot_try_reserve (s_send s) \<noteq> SlotAbort \<Longrightarrow>
     \<not> send_dead (s_send s) \<Longrightarrow> reserved (s_send s) \<Longrightarrow>
     sender_move s (s_goto t (if b then SSpin h 32 d else SRet (SlotFull d))
       (s_rmw_send (sender_agent t) (slot_reserve_word (s_send s)) s))"
| e_reserve: "s_threads s t = SReserve h b d \<Longrightarrow> t < s_n s \<Longrightarrow> slot_try_reserve (s_send s) \<noteq> SlotAbort \<Longrightarrow>
     \<not> send_dead (s_send s) \<Longrightarrow> \<not> reserved (s_send s) \<Longrightarrow>
     sender_move s (s_goto t (SFence h b d) (s_rmw_send (sender_agent t) (slot_reserve_word (s_send s)) s))"
| e_fence: "s_threads s t = SFence h b d \<Longrightarrow> t < s_n s \<Longrightarrow>
     sender_move s (s_goto t (SWrite h b d) (s\<lparr>s_mem := fence_acquire (sender_agent t) (s_mem s)\<rparr>))"
| e_write: "s_threads s t = SWrite h b d \<Longrightarrow> t < s_n s \<Longrightarrow> race_free (sender_agent t) 0 (s_mem s) \<Longrightarrow> s_slot s = None \<Longrightarrow>
     sender_move s (s_goto t (SCommit h b)
       (s\<lparr>s_slot := Some d, s_mem := access (sender_agent t) 0 (s_mem s), s_sent := s_sent s @ [d]\<rparr>))"
| e_commit: "s_threads s t = SCommit h b \<Longrightarrow> t < s_n s \<Longrightarrow>
     sender_move s (s_goto t (if recv_sleeping (s_recv s) then SWakeReceiver h b else SRet SlotSent)
       (s_rmw_recv Release (sender_agent t) COMMIT s))"

text \<open>A sending thread waking the receiver, spinning, sleeping, and announcing that the last sender is gone.\<close>

inductive sender_wait :: "('w::len word, 'a) slot_sys \<Rightarrow> ('w word, 'a) slot_sys \<Rightarrow> bool" where
  e_wake_receiver: "s_threads s t = p \<Longrightarrow> (p = SWakeReceiver h b \<and> q = SRet SlotSent) \<or> (p = SDeadWake \<and> q = SIdle) \<Longrightarrow>
     t < s_n s \<Longrightarrow> woken = receiver_asleep (s_receiver s) \<Longrightarrow>
     sender_wait s (s_goto t q (wake_receiver woken s))"
| e_spin: "s_threads s t = SSpin h n d \<Longrightarrow> t < s_n s \<Longrightarrow>
     s' = s \<or> n = 0 \<and> s' = s_rmw_send (sender_agent t) (s_send s OR SEND_SLEEPING) s \<Longrightarrow>
     q = SReserve h True d \<or> (q = SSleep h w d \<and> send_sleeping w \<and> (s' = s \<or> reserved (s_send s))) \<or>
       q = SSpin h n' d \<and> n' < n \<Longrightarrow>
     sender_wait s (s_goto t q s')"
| e_spin_dead: "s_threads s t = SSpin h n d \<Longrightarrow> t < s_n s \<Longrightarrow>
     s' = s \<and> w \<in> set (s_seen s) \<or> n = 0 \<and> w = s_send s OR SEND_SLEEPING \<and> s' = s_rmw_send (sender_agent t) w s \<Longrightarrow>
     send_dead w \<Longrightarrow>
     sender_wait s (s_goto t (SRet (SlotDisconnected d)) s')"
| e_sleep: "s_threads s t = SSleep h w d \<Longrightarrow> t < s_n s \<Longrightarrow> futex_half (s_send s) = futex_half w \<Longrightarrow>
     sender_wait s (s_goto t (SAsleep h d) s)"
| e_no_sleep: "s_threads s t = SSleep h w d \<Longrightarrow> t < s_n s \<Longrightarrow> futex_half (s_send s) \<noteq> futex_half w \<Longrightarrow>
     sender_wait s (s_goto t (STorch h d) s)"
| e_interrupt: "s_threads s t = SAsleep h d \<Longrightarrow> t < s_n s \<Longrightarrow> sender_wait s (s_goto t (STorch h d) s)"
| e_torch: "s_threads s t = STorch h d \<Longrightarrow> t < s_n s \<Longrightarrow>
     sender_wait s (s_goto t (SReserve h True d) (s_rmw_send (sender_agent t) (s_send s OR SEND_SLEEPING) s))"
| e_dead: "s_threads s t = SDead \<Longrightarrow> t < s_n s \<Longrightarrow>
     sender_wait s (s_goto t (if recv_sleeping (s_recv s) then SDeadWake else SIdle)
       (s_rmw_recv Relaxed (sender_agent t) (s_recv s OR SENDER_DEAD) s))"

text \<open>The receiver's calls, and its moves towards a value: loading the word, taking the value, freeing the cell.\<close>

inductive receiver_move :: "('w::len word, 'a) slot_sys \<Rightarrow> ('w word, 'a) slot_sys \<Rightarrow> bool" where
  e_recv_call: "r_ready (s_receiver s) \<Longrightarrow> q = RLoad None \<or> q = RLoad (Some 0) \<or> q = RDead \<Longrightarrow>
     receiver_move s (r_goto q s)"
| e_load: "s_receiver s = RLoad c \<Longrightarrow> k < length (s_window s) \<Longrightarrow> s_window s ! k = (w, f) \<Longrightarrow>
     s' = s\<lparr>s_window := take (Suc k) (s_window s), s_mem := load_view receiver_agent f (s_mem s)\<rparr> \<Longrightarrow>
     q = (if committed w then RClear c else if recv_dead w then RRet SlotClosed
          else case c of None \<Rightarrow> RRet SlotEmpty | Some i \<Rightarrow> if i < 32 then RLoad (Some (i + 1)) else RAnnounce) \<Longrightarrow>
     receiver_move s (r_goto q s')"
| e_clear: "s_receiver s = RClear c \<Longrightarrow>
     receiver_move s (r_goto (RRead c) (s_rmw_recv Relaxed receiver_agent (s_recv s AND SENDER_DEAD) s))"
| e_read: "s_receiver s = RRead c \<Longrightarrow> race_free receiver_agent 0 (s_mem s) \<Longrightarrow> s_slot s = Some x \<Longrightarrow>
     receiver_move s (r_goto (RFence c x)
       (s\<lparr>s_slot := None, s_mem := access receiver_agent 0 (s_mem s), s_received := s_received s @ [x]\<rparr>))"
| e_release: "s_receiver s = RFence c x \<Longrightarrow>
     receiver_move s (r_goto (RPublish c x) (s\<lparr>s_mem := fence_release receiver_agent (s_mem s)\<rparr>))"
| e_publish: "s_receiver s = RPublish c x \<Longrightarrow>
     receiver_move s (r_goto (if send_sleeping (s_send s) then RWakeSender c x else RRet (SlotGot x)) (s_rmw_send receiver_agent 0 s))"

text \<open>The receiver waking senders, sleeping, and announcing that it is gone.\<close>

inductive receiver_wait :: "('w::len word, 'a) slot_sys \<Rightarrow> ('w word, 'a) slot_sys \<Rightarrow> bool" where
  e_wake_senders: "s_receiver s = r \<Longrightarrow>
     (r = RWakeSender c x \<and> q = RRet (SlotGot x) \<and> k = 1) \<or> (r = RDeadWake \<and> q = RGone \<and> k = u32_max) \<Longrightarrow>
     wake_allowed (s_n s) (\<lambda>t. sender_asleep (s_threads s t)) k W \<Longrightarrow>
     receiver_wait s (r_goto q (wake_senders W s))"
| e_announce: "s_receiver s = RAnnounce \<Longrightarrow>
     receiver_wait s (r_goto (if s_recv s \<noteq> 0 then RLoad (Some 0) else RSleep)
       (s_rmw_recv Relaxed receiver_agent (s_recv s OR RECV_SLEEPING) s))"
| e_recv_sleep: "s_receiver s = RSleep \<Longrightarrow>
     receiver_wait s (r_goto (if s_recv s = RECV_SLEEPING then RAsleep else RLoad (Some 0)) s)"
| e_recv_interrupt: "s_receiver s = RAsleep \<Longrightarrow> receiver_wait s (r_goto (RLoad (Some 0)) s)"
| e_recv_dead: "s_receiver s = RDead \<Longrightarrow>
     receiver_wait s (r_goto (if send_sleeping (s_send s) then RDeadWake else RGone) (s_rmw_send receiver_agent RECEIVER_DEAD s))"

text \<open>The last handle gone: the storage is dropped.\<close>

inductive slot_end :: "('w::len word, 'a) slot_sys \<Rightarrow> ('w word, 'a) slot_sys \<Rightarrow> bool" where
  e_drop_slot: "s_handles s = {} \<Longrightarrow> s_receiver s = RGone \<Longrightarrow> s_dropped s = None \<Longrightarrow>
     (\<forall>u < s_n s. s_ready (s_threads s u)) \<Longrightarrow> committed (s_recv s) \<Longrightarrow> s_slot s = Some x \<Longrightarrow>
     slot_end s (s\<lparr>s_slot := None, s_mem := access receiver_agent 0 (load_acquire receiver_agent RecvWord (s_mem s)),
       s_dropped := Some [x]\<rparr>)"
| e_drop_empty: "s_handles s = {} \<Longrightarrow> s_receiver s = RGone \<Longrightarrow> s_dropped s = None \<Longrightarrow>
     (\<forall>u < s_n s. s_ready (s_threads s u)) \<Longrightarrow> \<not> committed (s_recv s) \<Longrightarrow>
     slot_end s (s\<lparr>s_mem := load_acquire receiver_agent RecvWord (s_mem s), s_dropped := Some []\<rparr>)"

text \<open>A step is one of these.\<close>

inductive slot_effect :: "('w::len word, 'a) slot_sys \<Rightarrow> ('w word, 'a) slot_sys \<Rightarrow> bool" where
  sender_moves: "sender_move s s' \<Longrightarrow> slot_effect s s'"
| sender_waits: "sender_wait s s' \<Longrightarrow> slot_effect s s'"
| receiver_moves: "receiver_move s s' \<Longrightarrow> slot_effect s s'"
| receiver_waits: "receiver_wait s s' \<Longrightarrow> slot_effect s s'"
| slot_ends: "slot_end s s' \<Longrightarrow> slot_effect s s'"

section \<open>Every step is one of them\<close>

lemma spin_effect:
  fixes s :: "('w::len word, 'a) slot_sys"
  assumes "slot_spin_goto t h n d w s' = SNext s''" "s_threads s t = SSpin h n d" "t < s_n s"
    and "s' = s \<and> w \<in> set (s_seen s) \<or> n = 0 \<and> w = s_send s OR SEND_SLEEPING \<and> s' = s_rmw_send (sender_agent t) w s"
    and sup: "supported TYPE('w)"
  shows "slot_effect s s''"
proof (cases "slot_spin_check w")
  case SpinDisconnected
  then have "s'' = s_goto t (SRet (SlotDisconnected d)) s'" "send_dead w"
    using assms(1) by (auto simp: slot_spin_goto_def slot_spin_check_cases split: if_splits)
  then show ?thesis using sender_waits [OF e_spin_dead [OF assms(2,3,4)]] by simp
next
  case SpinRetry
  then have "s'' = s_goto t (SReserve h True d) s'" using assms(1) by (simp add: slot_spin_goto_def)
  then show ?thesis using sender_waits [OF e_spin [OF assms(2,3)]] assms(4) by blast
next
  case SpinToSleep
  then have "s'' = s_goto t (SSleep h w d) s'" "send_sleeping w" "reserved w"
    using assms(1) by (auto simp: slot_spin_goto_def slot_spin_check_cases split: if_splits)
  moreover have "s' = s \<or> reserved (s_send s)" using assms(4) sup \<open>reserved w\<close> by auto
  ultimately show ?thesis using sender_waits [OF e_spin [OF assms(2,3)]] assms(4) by blast
next
  case SpinOn
  then have "s'' = s_goto t (SSpin h (n - 1) d) s'" "n - 1 < n"
    using assms(1) by (auto simp: slot_spin_goto_def split: if_splits)
  then show ?thesis using sender_waits [OF e_spin [OF assms(2,3)]] assms(4) by blast
qed

lemma sender_step_effect:
  fixes s :: "('w::len word, 'a) slot_sys"
  assumes "supported TYPE('w)" "sender_step t s (s_threads s t) = SNext s'" "t < s_n s"
  shows "slot_effect s s'"
proof (cases "s_threads s t")
  case (SReserve h b d)
  then have step: "slot_reserve_step t h b d s = SNext s'" using assms(2) by simp
  then have na: "slot_try_reserve (s_send s) \<noteq> SlotAbort" by (auto simp: slot_reserve_step_def)
  note c = slot_try_reserve_cases(4) [OF assms(1) na]
  show ?thesis
    using step sender_moves [OF e_refused [OF SReserve assms(3) na]] sender_moves [OF e_busy [OF SReserve assms(3) na]] sender_moves [OF e_reserve [OF SReserve assms(3) na]]
    by (auto simp: slot_reserve_step_def c Let_def split: if_splits)
next
  case (SFence h b d)
  then show ?thesis using assms(2) sender_moves [OF e_fence [OF SFence assms(3)]] by (simp add: slot_fence_step_def)
next
  case (SWrite h b d)
  then show ?thesis using assms(2) sender_moves [OF e_write [OF SWrite assms(3)]] by (auto simp: slot_write_step_def split: if_splits)
next
  case (SCommit h b)
  then show ?thesis
    using assms(2) sender_moves [OF e_commit [OF SCommit assms(3)]] by (auto simp: slot_commit_step_def recv_sleeping_def Let_def)
next
  case (SSpin h n d)
  then have "n = 0" "slot_spin_goto t h n d (s_send s OR SEND_SLEEPING) (s_rmw_send (sender_agent t) (s_send s OR SEND_SLEEPING) s) = SNext s'"
    using assms(2) by (auto simp: slot_spin_rmw_def Let_def split: if_splits)
  then show ?thesis using spin_effect [OF _ SSpin assms(3) _ assms(1)] by blast
next
  case (SSleep h w d)
  then show ?thesis
    using assms(2) sender_waits [OF e_sleep [OF SSleep assms(3)]] sender_waits [OF e_no_sleep [OF SSleep assms(3)]]
    by (auto simp: slot_sleep_step_def wait_blocks_def split: if_splits)
next
  case (STorch h d)
  then show ?thesis using assms(2) sender_waits [OF e_torch [OF STorch assms(3)]] by (simp add: slot_torch_step_def)
next
  case SDead
  then show ?thesis
    using assms(2) sender_waits [OF e_dead [OF SDead assms(3)]] by (auto simp: slot_sender_dead_step_def recv_sleeping_def Let_def)
qed (use assms in simp_all)

lemma receiver_step_effect:
  assumes "receiver_step s (s_receiver s) = SNext s'"
  shows "slot_effect s s'"
proof (cases "s_receiver s")
  case (RClear c)
  then show ?thesis using assms receiver_moves [OF e_clear [OF RClear]] by (simp add: slot_clear_step_def)
next
  case (RRead c)
  then show ?thesis using assms receiver_moves [OF e_read [OF RRead]] by (auto simp: slot_read_step_def split: if_splits option.splits)
next
  case (RFence c v)
  then show ?thesis using assms receiver_moves [OF e_release [OF RFence]] by (simp add: slot_release_step_def)
next
  case (RPublish c v)
  then show ?thesis using assms receiver_moves [OF e_publish [OF RPublish]] by (auto simp: slot_publish_step_def send_sleeping_def Let_def)
next
  case RAnnounce
  then show ?thesis using assms receiver_waits [OF e_announce [OF RAnnounce]] by (simp add: slot_announce_step_def Let_def)
next
  case RSleep
  then show ?thesis using assms receiver_waits [OF e_recv_sleep [OF RSleep]] by (simp add: slot_recv_sleep_step_def wait_blocks_def)
next
  case RDead
  then show ?thesis using assms receiver_waits [OF e_recv_dead [OF RDead]] by (auto simp: slot_receiver_dead_step_def send_sleeping_def Let_def)
qed (use assms in simp_all)

lemma wake_receiver_effect:
  assumes "wake_receiver_step t k q woken s = SNext s'" "s_threads s t = p" "t < s_n s" "k \<noteq> 0"
    and "(p = SWakeReceiver h b \<and> q = SRet SlotSent) \<or> (p = SDeadWake \<and> q = SIdle)"
  shows "slot_effect s s'"
proof -
  have al: "wake_allowed 1 (\<lambda>_. receiver_asleep (s_receiver s)) k (if woken then [0] else [])"
    and s': "s' = s_goto t q (wake_receiver woken s)"
    using assms(1) by (auto simp: wake_receiver_step_def split: if_splits)
  have "woken = receiver_asleep (s_receiver s)"
    using al wake_allowed_none [of 1 "\<lambda>_. receiver_asleep (s_receiver s)" k 0] assms(4)
    by (cases woken) (auto simp: wake_allowed_def)
  then show ?thesis using sender_waits [OF e_wake_receiver [OF assms(2,5,3)]] s' by blast
qed

lemma load_effect:
  assumes "slot_load_step c k s = SNext s'" "s_receiver s = RLoad c"
  shows "slot_effect s s'"
proof -
  obtain w f where w: "s_window s ! k = (w, f)" by (cases "s_window s ! k")
  then have "k < length (s_window s)" using assms(1) by (auto simp: slot_load_step_def split: if_splits)
  from receiver_moves [OF e_load [OF assms(2) this w refl refl]] show ?thesis
    using assms(1) w by (auto simp: slot_load_step_def committed_def recv_dead_def Let_def split: if_splits)
qed

lemma drop_slot_effect: "drop_slot_inner s = SNext s' \<Longrightarrow> slot_effect s s'"
  using slot_ends [OF e_drop_slot [of s]] slot_ends [OF e_drop_empty [of s]]
  by (auto simp: drop_slot_inner_def committed_def Let_def split: if_splits option.splits)

lemma start_effect_slot:
  assumes "slot_start t call s = SNext s'" "s_ready (s_threads s t)" "t < s_n s"
  shows "slot_effect s s'"
  using assms(1) sender_moves [OF e_call [OF refl assms(2,3)]] sender_moves [OF e_clone [OF refl assms(2,3)]] sender_moves [OF e_drop [OF refl assms(2,3)]]
  by (auto simp: slot_start_def slot_clone_sender_def slot_drop_sender_def Let_def not_less
      split: slot_call.splits if_splits)

theorem slot_step_effect:
  fixes s :: "('w::len word, 'a) slot_sys"
  assumes "supported TYPE('w)" "slot_step a s = SNext s'"
  shows "slot_effect s s'"
proof (cases a)
  case (SStart t call)
  then show ?thesis using assms(2) start_effect_slot by (auto simp: slot_step_def split: if_splits)
next
  case (SStep t)
  then show ?thesis using assms sender_step_effect by (auto simp: slot_step_def split: if_splits)
next
  case (SLoad t w)
  then obtain h n d where t: "t < s_n s" "s_threads s t = SSpin h n d" "slot_spin_load t h n d w s = SNext s'"
    using assms(2) by (auto simp: slot_step_def split: if_splits sender_pc.splits)
  then have "slot_spin_goto t h n d w s = SNext s'" "w \<in> set (s_seen s)"
    by (auto simp: slot_spin_load_def split: if_splits)
  then show ?thesis using spin_effect [OF _ t(2,1) _ assms(1)] by blast
next
  case (SWoken t woken)
  then obtain p q k h b where "t < s_n s" "s_threads s t = p" "wake_receiver_step t k q woken s = SNext s'" "k \<noteq> 0"
    "(p = SWakeReceiver h b \<and> q = SRet SlotSent) \<or> (p = SDeadWake \<and> q = SIdle)"
    using assms(2) u32_max_nonzero by (auto simp: slot_step_def split: if_splits sender_pc.splits)
  then show ?thesis using wake_receiver_effect by blast
next
  case (SInterrupt t)
  then show ?thesis using assms(2) sender_waits [OF e_interrupt] by (auto simp: slot_step_def split: if_splits sender_pc.splits)
next
  case (RStart call)
  then show ?thesis using assms(2) receiver_moves [OF e_recv_call [of s]]
    by (auto simp: slot_step_def split: if_splits slot_recv_call.splits)
next
  case RStep
  then show ?thesis using assms(2) receiver_step_effect by (simp add: slot_step_def)
next
  case (RLoaded k)
  then show ?thesis using assms(2) load_effect by (auto simp: slot_step_def split: receiver_pc.splits)
next
  case (RWoken W)
  then show ?thesis using assms(2) receiver_waits [OF e_wake_senders [of s]]
    by (auto simp: slot_step_def wake_senders_step_def split: receiver_pc.splits if_splits)
next
  case RInterrupt
  then show ?thesis using assms(2) receiver_waits [OF e_recv_interrupt] by (auto simp: slot_step_def split: receiver_pc.splits)
next
  case DropSlot
  then show ?thesis using assms(2) drop_slot_effect by (simp add: slot_step_def)
qed

end
