(* ===== verification/Slot_Handles.thy ===== *)
theory Slot_Handles
  imports Slot_Effect
begin

text \<open>
  The fields each update of the slot's state touches, and the invariant of the sender handles: their count,
  who borrows them, and that the sender side is only marked dead when none is left.
\<close>

section \<open>What the updates change\<close>

lemma s_goto_simps [simp]:
  "s_send (s_goto t p s) = s_send s" "s_recv (s_goto t p s) = s_recv s" "s_slot (s_goto t p s) = s_slot s"
  "s_num_senders (s_goto t p s) = s_num_senders s" "s_handles (s_goto t p s) = s_handles s"
  "s_threads (s_goto t p s) = (s_threads s)(t := p)" "s_receiver (s_goto t p s) = s_receiver s" "s_n (s_goto t p s) = s_n s"
  "s_seen (s_goto t p s) = s_seen s" "s_window (s_goto t p s) = s_window s" "s_mem (s_goto t p s) = s_mem s"
  "s_sent (s_goto t p s) = s_sent s" "s_received (s_goto t p s) = s_received s" "s_dropped (s_goto t p s) = s_dropped s"
  by (simp_all add: s_goto_def)

lemma r_goto_simps [simp]:
  "s_send (r_goto p s) = s_send s" "s_recv (r_goto p s) = s_recv s" "s_slot (r_goto p s) = s_slot s"
  "s_num_senders (r_goto p s) = s_num_senders s" "s_handles (r_goto p s) = s_handles s"
  "s_threads (r_goto p s) = s_threads s" "s_receiver (r_goto p s) = p" "s_n (r_goto p s) = s_n s"
  "s_seen (r_goto p s) = s_seen s" "s_window (r_goto p s) = s_window s" "s_mem (r_goto p s) = s_mem s"
  "s_sent (r_goto p s) = s_sent s" "s_received (r_goto p s) = s_received s" "s_dropped (r_goto p s) = s_dropped s"
  by (simp_all add: r_goto_def)

lemma s_rmw_send_simps [simp]:
  "s_send (s_rmw_send a w s) = w" "s_recv (s_rmw_send a w s) = s_recv s" "s_slot (s_rmw_send a w s) = s_slot s"
  "s_num_senders (s_rmw_send a w s) = s_num_senders s" "s_handles (s_rmw_send a w s) = s_handles s"
  "s_threads (s_rmw_send a w s) = s_threads s" "s_receiver (s_rmw_send a w s) = s_receiver s" "s_n (s_rmw_send a w s) = s_n s"
  "s_seen (s_rmw_send a w s) = w # s_seen s" "s_window (s_rmw_send a w s) = s_window s"
  "s_mem (s_rmw_send a w s) = rmw Relaxed a SendWord (s_mem s)"
  "s_sent (s_rmw_send a w s) = s_sent s" "s_received (s_rmw_send a w s) = s_received s" "s_dropped (s_rmw_send a w s) = s_dropped s"
  by (simp_all add: s_rmw_send_def)

lemma s_rmw_recv_simps [simp]:
  "s_send (s_rmw_recv ord a w s) = s_send s" "s_recv (s_rmw_recv ord a w s) = w" "s_slot (s_rmw_recv ord a w s) = s_slot s"
  "s_num_senders (s_rmw_recv ord a w s) = s_num_senders s" "s_handles (s_rmw_recv ord a w s) = s_handles s"
  "s_threads (s_rmw_recv ord a w s) = s_threads s" "s_receiver (s_rmw_recv ord a w s) = s_receiver s" "s_n (s_rmw_recv ord a w s) = s_n s"
  "s_seen (s_rmw_recv ord a w s) = s_seen s"
  "s_window (s_rmw_recv ord a w s) = (w, v_msg (rmw ord a RecvWord (s_mem s)) RecvWord) #
     (if a = receiver_agent then [] else s_window s)"
  "s_mem (s_rmw_recv ord a w s) = rmw ord a RecvWord (s_mem s)"
  "s_sent (s_rmw_recv ord a w s) = s_sent s" "s_received (s_rmw_recv ord a w s) = s_received s"
  "s_dropped (s_rmw_recv ord a w s) = s_dropped s"
  by (simp_all add: s_rmw_recv_def Let_def)

lemma wake_receiver_simps [simp]:
  "s_send (wake_receiver k s) = s_send s" "s_recv (wake_receiver k s) = s_recv s" "s_slot (wake_receiver k s) = s_slot s"
  "s_num_senders (wake_receiver k s) = s_num_senders s" "s_handles (wake_receiver k s) = s_handles s"
  "s_threads (wake_receiver k s) = s_threads s" "s_n (wake_receiver k s) = s_n s"
  "s_receiver (wake_receiver k s) = (if k then RLoad (Some 0) else s_receiver s)"
  "s_seen (wake_receiver k s) = s_seen s" "s_window (wake_receiver k s) = s_window s" "s_mem (wake_receiver k s) = s_mem s"
  "s_sent (wake_receiver k s) = s_sent s" "s_received (wake_receiver k s) = s_received s"
  "s_dropped (wake_receiver k s) = s_dropped s"
  by (simp_all add: wake_receiver_def)

lemma wake_senders_simps [simp]:
  "s_send (wake_senders W s) = s_send s" "s_recv (wake_senders W s) = s_recv s" "s_slot (wake_senders W s) = s_slot s"
  "s_num_senders (wake_senders W s) = s_num_senders s" "s_handles (wake_senders W s) = s_handles s"
  "s_threads (wake_senders W s) = (\<lambda>t. if t \<in> set W then wake_sender_pc (s_threads s t) else s_threads s t)"
  "s_receiver (wake_senders W s) = s_receiver s" "s_n (wake_senders W s) = s_n s"
  "s_seen (wake_senders W s) = s_seen s" "s_window (wake_senders W s) = s_window s" "s_mem (wake_senders W s) = s_mem s"
  "s_sent (wake_senders W s) = s_sent s" "s_received (wake_senders W s) = s_received s"
  "s_dropped (wake_senders W s) = s_dropped s"
  by (simp_all add: wake_senders_def)

lemma sender_agent_not_receiver [simp]: "sender_agent t \<noteq> receiver_agent" "receiver_agent \<noteq> sender_agent t"
  by (simp_all add: sender_agent_def receiver_agent_def)

lemma sender_agent_inject [simp]: "sender_agent t = sender_agent u \<longleftrightarrow> t = u"
  by (simp add: sender_agent_def)

section \<open>Handles\<close>

definition slot_handles :: "('w, 'a) slot_sys \<Rightarrow> bool" where
  "slot_handles s \<longleftrightarrow> finite (s_handles s) \<and> s_num_senders s = of_nat (card (s_handles s)) \<and>
     card (s_handles s) \<le> 2 ^ 31 \<and>
     (\<forall>t h. s_handle (s_threads s t) = Some h \<longrightarrow> h \<in> s_handles s) \<and>
     (\<forall>t\<ge>s_n s. s_threads s t = SIdle) \<and>
     (\<forall>t. s_threads s t = SDead \<or> s_threads s t = SDeadWake \<longrightarrow> s_handles s = {}) \<and>
     (recv_dead (s_recv s) \<longrightarrow> s_handles s = {})"

lemma s_ready_handle: "s_ready p \<Longrightarrow> s_handle p = None \<and> p \<noteq> SDead \<and> p \<noteq> SDeadWake"
  by (cases p) auto

lemma s_handle_wake [simp]: "s_handle (wake_sender_pc p) = s_handle p"
  "wake_sender_pc p = SIdle \<longleftrightarrow> p = SIdle" "wake_sender_pc p = SDead \<longleftrightarrow> p = SDead"
  "wake_sender_pc p = SDeadWake \<longleftrightarrow> p = SDeadWake"
  by (cases p; simp)+

text \<open>A thread of a call moves to a counter that borrows no other handle.\<close>

lemma handles_goto:
  assumes "slot_handles s" "t < s_n s" "s_handle q = None \<or> s_handle q = s_handle (s_threads s t)"
    and "q = SDead \<or> q = SDeadWake \<Longrightarrow> s_handles s = {}"
    and "s_handles s' = s_handles s" "s_num_senders s' = s_num_senders s" "s_n s' = s_n s"
    "s_threads s' = s_threads s" "recv_dead (s_recv s') \<Longrightarrow> s_handles s = {}"
  shows "slot_handles (s_goto t q s')"
  using assms unfolding slot_handles_def by (auto simp: fun_upd_apply)

lemma handles_receiver:
  assumes "slot_handles s" "s_handles s' = s_handles s" "s_num_senders s' = s_num_senders s" "s_n s' = s_n s"
    "s_threads s' = s_threads s" "recv_dead (s_recv s') \<Longrightarrow> recv_dead (s_recv s)"
  shows "slot_handles s'"
  using assms unfolding slot_handles_def by auto

lemma handles_count:
  assumes "slot_handles s"
  shows "s_num_senders s > 1 \<longleftrightarrow> card (s_handles s) > 1"
    "s_num_senders s \<le> u32_max div 2 \<Longrightarrow> card (s_handles s) < 2 ^ 31"
proof -
  let ?c = "card (s_handles s)"
  have c: "unat (s_num_senders s) = ?c"
    using assms by (simp add: slot_handles_def unsigned_of_nat take_bit_nat_eq_self)
  show "s_num_senders s > 1 \<longleftrightarrow> ?c > 1" by (simp add: word_less_nat_alt c)
  have "unat (u32_max div 2 :: u32) = 2 ^ 31 - 1" by (simp add: u32_max_def unat_div unsigned_minus_1_eq_mask mask_eq_exp_minus_1)
  then show "s_num_senders s \<le> u32_max div 2 \<Longrightarrow> ?c < 2 ^ 31" by (simp add: word_le_nat_alt c)
qed

lemma handles_dead: "slot_handles s \<Longrightarrow> recv_dead (s_recv s) \<Longrightarrow> s_handles s = {}"
  by (simp add: slot_handles_def)

lemma slot_handles_init: "slot_handles (mpsc n)"
  by (simp add: slot_handles_def mpsc_def)

lemma slot_handles_sender_move:
  assumes "sender_move s s'" "slot_handles s"
  shows "slot_handles s'"
  using assms(1)
proof cases
  case (e_call t p h b d)
  have "h \<in> s_handles s" "t < s_n s" by fact+
  then show ?thesis using assms(2) e_call(1) unfolding slot_handles_def by (auto simp: fun_upd_apply)
next
  case (e_clone t p h h')
  then show ?thesis
    using assms(2) handles_count(2) [OF assms(2)] s_ready_handle [of p]
    unfolding slot_handles_def by (auto simp: fun_upd_apply)
next
  case (e_drop t p h)
  have h: "h \<in> s_handles s" by fact
  have fin: "finite (s_handles s)" and num: "s_num_senders s = of_nat (card (s_handles s))" 
    using assms(2) by (simp_all add: slot_handles_def)
  have card: "card (s_handles s - {h}) = card (s_handles s) - 1" "card (s_handles s) > 0"
    using h fin by (auto simp: card_gt_0_iff)
  then have one: "of_nat (card (s_handles s)) - (1 :: u32) = of_nat (card (s_handles s - {h}))"
    by (simp add: of_nat_diff)
  have last: "\<not> card (s_handles s) > 1 \<Longrightarrow> s_handles s - {h} = {}"
    using card fin by (metis One_nat_def card_0_eq diff_is_0_eq' finite_Diff not_less)
  have nb: "s_handle (s_threads s u) \<noteq> Some h" for u
    using assms(2) \<open>\<not> s_borrowed s h\<close> by (cases "u < s_n s") (auto simp: slot_handles_def s_borrowed_def)
  show ?thesis
    unfolding e_drop(1) using assms(2) h card one last nb handles_count(1) [OF assms(2)] \<open>t < s_n s\<close>
    unfolding slot_handles_def by (auto simp: fun_upd_apply num)
next
  case (e_commit t h b)
  then show ?thesis by (auto intro!: handles_goto [OF assms(2)])
qed (use handles_dead [OF assms(2)] in \<open>auto intro!: handles_goto [OF assms(2)]\<close>)

lemma slot_handles_sender_wait:
  assumes "sender_wait s s'" "slot_handles s"
  shows "slot_handles s'"
  using assms(1)
proof cases
  case (e_wake_receiver t p h b q w)
  then show ?thesis unfolding e_wake_receiver(1)
    by (intro handles_goto [OF assms(2)]) (use assms(2) in \<open>auto simp: slot_handles_def\<close>)
next
  case (e_spin t h n d s1 q w n')
  then show ?thesis unfolding e_spin(1)
    by (intro handles_goto [OF assms(2)]) (use assms(2) in \<open>auto simp: slot_handles_def\<close>)
next
  case (e_spin_dead t h n d s1 w)
  then show ?thesis unfolding e_spin_dead(1)
    by (intro handles_goto [OF assms(2)]) (use assms(2) in \<open>auto simp: slot_handles_def\<close>)
next
  case (e_dead t)
  then have "s_handles s = {}" using assms(2) by (simp add: slot_handles_def)
  with e_dead show ?thesis by (auto intro!: handles_goto [OF assms(2)])
qed (use handles_dead [OF assms(2)] in \<open>auto intro!: handles_goto [OF assms(2)]\<close>)

lemma slot_handles_receiver_move:
  assumes "receiver_move s s'" "slot_handles s"
  shows "slot_handles s'"
  using assms(1) by cases (auto intro!: handles_receiver [OF assms(2)])

lemma slot_handles_receiver_wait:
  assumes "receiver_wait s s'" "slot_handles s"
  shows "slot_handles s'"
  using assms(1)
proof cases
  case (e_wake_senders r x q k W)
  then show ?thesis using assms(2) unfolding slot_handles_def by auto
qed (auto intro!: handles_receiver [OF assms(2)])

lemma slot_handles_slot_end:
  assumes "slot_end s s'" "slot_handles s"
  shows "slot_handles s'"
  using assms(1) by cases (auto intro!: handles_receiver [OF assms(2)])

lemma slot_handles_effect:
  assumes "slot_effect s s'" "slot_handles s"
  shows "slot_handles s'"
  using assms(1)
proof cases
  case sender_moves
  then show ?thesis by (rule slot_handles_sender_move [OF _ assms(2)])
next
  case sender_waits
  then show ?thesis by (rule slot_handles_sender_wait [OF _ assms(2)])
next
  case receiver_moves
  then show ?thesis by (rule slot_handles_receiver_move [OF _ assms(2)])
next
  case receiver_waits
  then show ?thesis by (rule slot_handles_receiver_wait [OF _ assms(2)])
next
  case slot_ends
  then show ?thesis by (rule slot_handles_slot_end [OF _ assms(2)])
qed

end
