(* ===== verification/Slot_Own.thy ===== *)
theory Slot_Own
  imports Slot_Handles
begin

text \<open>
  Ownership of the slot's cell: at any time it belongs to nobody, to one sender between its reservation and
  its commit, to the committed value, or to the receiver taking that value.
\<close>

section \<open>Who has the cell\<close>

text \<open>A sender between its reservation and its commit, and the receiver between clearing the commit
  flag and giving the reservation back.\<close>

fun holding :: "('w, 'a) sender_pc \<Rightarrow> bool" where
  "holding (SFence h b d) = True"
| "holding (SWrite h b d) = True"
| "holding (SCommit h b) = True"
| "holding _ = False"

fun written :: "('w, 'a) sender_pc \<Rightarrow> bool" where
  "written (SCommit h b) = True"
| "written _ = False"

fun taking :: "'a receiver_pc \<Rightarrow> bool" where
  "taking (RRead c) = True"
| "taking (RFence c x) = True"
| "taking (RPublish c x) = True"
| "taking _ = False"

fun unread :: "'a receiver_pc \<Rightarrow> bool" where
  "unread (RRead c) = True"
| "unread _ = False"

fun clearing :: "'a receiver_pc \<Rightarrow> bool" where
  "clearing (RClear c) = True"
| "clearing _ = False"

fun gone :: "'a receiver_pc \<Rightarrow> bool" where
  "gone RDeadWake = True"
| "gone RGone = True"
| "gone _ = False"

lemma written_holding: "written p \<Longrightarrow> holding p"
  by (cases p) auto

lemma unread_taking: "unread r \<Longrightarrow> taking r"
  by (cases r) auto

lemma ready_quiet: "s_ready p \<Longrightarrow> \<not> holding p" "r_ready r \<Longrightarrow> \<not> taking r \<and> \<not> clearing r \<and> \<not> gone r"
  by (cases p; simp) (cases r; simp)

definition held :: "('w::len word, 'a) slot_sys \<Rightarrow> bool" where
  "held s \<longleftrightarrow> reserved (s_send s) \<or> send_dead (s_send s)"

definition own_excl :: "('w::len word, 'a) slot_sys \<Rightarrow> bool" where
  "own_excl s \<longleftrightarrow>
     (\<forall>t u. holding (s_threads s t) \<and> holding (s_threads s u) \<longrightarrow> t = u) \<and>
     (\<forall>t. holding (s_threads s t) \<longrightarrow> \<not> committed (s_recv s) \<and> \<not> taking (s_receiver s) \<and> held s \<and>
        (s_slot s \<noteq> None \<longleftrightarrow> written (s_threads s t))) \<and>
     (committed (s_recv s) \<longrightarrow> s_slot s \<noteq> None \<and> \<not> taking (s_receiver s) \<and> held s) \<and>
     (clearing (s_receiver s) \<longrightarrow> committed (s_recv s)) \<and>
     (taking (s_receiver s) \<longrightarrow> reserved (s_send s) \<and> (s_slot s \<noteq> None \<longleftrightarrow> unread (s_receiver s))) \<and>
     (s_slot s \<noteq> None \<longrightarrow> committed (s_recv s) \<or> (\<exists>t. written (s_threads s t)) \<or> unread (s_receiver s)) \<and>
     (send_dead (s_send s) \<longleftrightarrow> gone (s_receiver s))"

lemma own_exclD:
  assumes "own_excl s"
  shows "holding (s_threads s t) \<Longrightarrow> holding (s_threads s u) \<Longrightarrow> t = u"
    "holding (s_threads s t) \<Longrightarrow> \<not> committed (s_recv s)" "holding (s_threads s t) \<Longrightarrow> \<not> taking (s_receiver s)"
    "holding (s_threads s t) \<Longrightarrow> held s"
    "holding (s_threads s t) \<Longrightarrow> s_slot s \<noteq> None \<longleftrightarrow> written (s_threads s t)"
    "committed (s_recv s) \<Longrightarrow> s_slot s \<noteq> None" "committed (s_recv s) \<Longrightarrow> \<not> taking (s_receiver s)" "committed (s_recv s) \<Longrightarrow> held s"
    "clearing (s_receiver s) \<Longrightarrow> committed (s_recv s)"
    "taking (s_receiver s) \<Longrightarrow> reserved (s_send s)"
    "taking (s_receiver s) \<Longrightarrow> s_slot s \<noteq> None \<longleftrightarrow> unread (s_receiver s)"
    "s_slot s \<noteq> None \<Longrightarrow> committed (s_recv s) \<or> (\<exists>t. written (s_threads s t)) \<or> unread (s_receiver s)"
    "send_dead (s_send s) \<longleftrightarrow> gone (s_receiver s)"
  using assms by (auto simp: own_excl_def)

text \<open>A step that moves no one into or out of the cell.\<close>

lemma own_excl_quiet:
  assumes "own_excl s"
    and "\<And>u. holding (s_threads s' u) = holding (s_threads s u)" "\<And>u. written (s_threads s' u) = written (s_threads s u)"
    and "s_recv s' = s_recv s \<or> committed (s_recv s') = committed (s_recv s)" "s_slot s' = s_slot s"
    and "reserved (s_send s) \<Longrightarrow> reserved (s_send s')" "send_dead (s_send s') = send_dead (s_send s)"
    and "taking (s_receiver s') = taking (s_receiver s)" "unread (s_receiver s') = unread (s_receiver s)"
    "clearing (s_receiver s') = clearing (s_receiver s) \<or> (clearing (s_receiver s') \<longrightarrow> committed (s_recv s))"
    "gone (s_receiver s') = gone (s_receiver s)"
  shows "own_excl s'"
proof -
  have h: "held s \<Longrightarrow> held s'" using assms(6,7) by (auto simp: held_def)
  have c: "committed (s_recv s') = committed (s_recv s)" using assms(4) by auto
  have "clearing (s_receiver s') \<Longrightarrow> committed (s_recv s)" using assms(10) own_exclD(9) [OF assms(1)] by auto
  then show ?thesis
    using assms(1) h assms(6) unfolding own_excl_def assms(2,3,5,7,8,9,11) c by blast
qed

lemma own_excl_goto:
  assumes "own_excl s" "\<not> holding (s_threads s t)" "\<not> holding q"
    and "s_threads s' = s_threads s" "s_recv s' = s_recv s \<or> committed (s_recv s') = committed (s_recv s)" "s_slot s' = s_slot s"
    and "reserved (s_send s) \<Longrightarrow> reserved (s_send s')" "send_dead (s_send s') = send_dead (s_send s)"
    and "taking (s_receiver s') = taking (s_receiver s)" "unread (s_receiver s') = unread (s_receiver s)"
    "clearing (s_receiver s') = clearing (s_receiver s)" "gone (s_receiver s') = gone (s_receiver s)"
  shows "own_excl (s_goto t q s')"
  by (rule own_excl_quiet [OF assms(1)])
    (use assms(2-) written_holding in \<open>auto simp: fun_upd_apply\<close>)

text \<open>An unreserved word means an empty cell nobody is at.\<close>

lemma own_excl_free:
  assumes "own_excl s" "\<not> reserved (s_send s)" "\<not> send_dead (s_send s)"
  shows "\<not> holding (s_threads s t)" "\<not> committed (s_recv s)" "\<not> taking (s_receiver s)" "s_slot s = None"
proof -
  show a: "\<not> holding (s_threads s t)" for t using own_exclD(4) [OF assms(1)] assms(2,3) by (auto simp: held_def)
  show b: "\<not> committed (s_recv s)" using own_exclD(8) [OF assms(1)] assms(2,3) by (auto simp: held_def)
  show c: "\<not> taking (s_receiver s)" using own_exclD(10) [OF assms(1)] assms(2) by auto
  show "s_slot s = None" using own_exclD(12) [OF assms(1)] a b c written_holding unread_taking by blast
qed

lemma holding_wake [simp]: "holding (wake_sender_pc p) = holding p" "written (wake_sender_pc p) = written p"
  by (cases p; simp)+

lemma own_excl_init: "supported TYPE('w::len) \<Longrightarrow> own_excl (mpsc n :: ('w word, 'a) slot_sys)"
  by (simp add: own_excl_def mpsc_def held_def)

lemma own_excl_reserve:
  assumes "own_excl s" "\<not> reserved (s_send s)" "\<not> send_dead (s_send s)"
    and "reserved w" "send_dead w = send_dead (s_send s)"
  shows "own_excl (s_goto t (SFence h b d) (s_rmw_send a w s))"
  using own_excl_free [OF assms(1-3)] own_exclD(9,13) [OF assms(1)] assms(4,5) written_holding
  unfolding own_excl_def by (auto simp: fun_upd_apply held_def)

lemma own_excl_fence:
  assumes "own_excl s" "s_threads s t = SFence h b d"
  shows "own_excl (s_goto t (SWrite h b d) (s\<lparr>s_mem := m\<rparr>))"
  by (rule own_excl_quiet [OF assms(1)]) (use assms(2) in \<open>simp_all add: fun_upd_apply\<close>)

lemma own_excl_write:
  assumes "own_excl s" "s_threads s t = SWrite h b d"
  shows "own_excl (s_goto t (SCommit h b) (s\<lparr>s_slot := Some d, s_mem := m, s_sent := l\<rparr>))"
proof -
  have t: "holding (s_threads s t)" using assms(2) by simp
  have u: "\<not> holding (s_threads s u)" if "u \<noteq> t" for u using own_exclD(1) [OF assms(1) t] that by blast
  show ?thesis
    using own_exclD(2-4) [OF assms(1) t] own_exclD(9,10,13) [OF assms(1)] u written_holding
    unfolding own_excl_def by (auto simp: fun_upd_apply held_def)
qed

lemma own_excl_commit:
  assumes "own_excl s" "s_threads s t = SCommit h b" "\<not> holding q"
  shows "own_excl (s_goto t q (s_rmw_recv ord a COMMIT s))"
proof -
  have t: "holding (s_threads s t)" "written (s_threads s t)" using assms(2) by simp_all
  have u: "\<not> holding (s_threads s u)" if "u \<noteq> t" for u using own_exclD(1) [OF assms(1) t(1)] that by blast
  show ?thesis
    using own_exclD(2-5) [OF assms(1) t(1)] own_exclD(9,13) [OF assms(1)] u t(2) assms(3) written_holding
    unfolding own_excl_def by (auto simp: fun_upd_apply held_def)
qed

lemma own_excl_clear:
  assumes "own_excl s" "s_receiver s = RClear c"
  shows "own_excl (r_goto (RRead c) (s_rmw_recv ord a (s_recv s AND SENDER_DEAD) s))"
proof -
  have "committed (s_recv s)" using own_exclD(9) [OF assms(1)] assms(2) by simp
  moreover have "\<not> send_dead (s_send s)" using own_exclD(13) [OF assms(1)] assms(2) by simp
  moreover have "\<not> holding (s_threads s t)" for t using own_exclD(2) [OF assms(1)] calculation(1) by blast
  ultimately show ?thesis
    using own_exclD(6,8) [OF assms(1)] written_holding unfolding own_excl_def by (auto simp: held_def)
qed

lemma own_excl_read:
  assumes "own_excl s" "s_receiver s = RRead c"
  shows "own_excl (r_goto (RFence c x) (s\<lparr>s_slot := None, s_mem := m, s_received := l\<rparr>))"
proof -
  have "taking (s_receiver s)" using assms(2) by simp
  then show ?thesis
    using own_exclD(3,7,10,13) [OF assms(1)] assms(2) unfolding own_excl_def by (auto simp: held_def)
qed

lemma own_excl_publish:
  fixes s :: "('w::len word, 'a) slot_sys"
  assumes "supported TYPE('w)" "own_excl s" "s_receiver s = RPublish c x" "\<not> taking q" "\<not> clearing q" "\<not> gone q"
  shows "own_excl (r_goto q (s_rmw_send a 0 s))"
proof -
  have t: "taking (s_receiver s)" "\<not> unread (s_receiver s)" using assms(3) by simp_all
  have "s_slot s = None" using own_exclD(11) [OF assms(2) t(1)] t(2) by auto
  moreover have "\<not> holding (s_threads s u)" "\<not> committed (s_recv s)" for u
    using own_exclD(3,7) [OF assms(2)] t(1) by blast+
  ultimately show ?thesis using assms(1,4-6) written_holding unfolding own_excl_def by auto
qed

lemma own_excl_dead:
  fixes s :: "('w::len word, 'a) slot_sys"
  assumes "supported TYPE('w)" "own_excl s" "s_receiver s = RDead" "gone q"
  shows "own_excl (r_goto q (s_rmw_send a RECEIVER_DEAD s))"
proof -
  have q: "\<not> taking q" "\<not> clearing q" "\<not> unread q" using assms(4) by (cases q; simp)+
  then show ?thesis
    using assms own_exclD(1,2,5,6,12) [OF assms(2)] unfolding own_excl_def by (auto simp: held_def)
qed

lemma own_excl_sender_move:
  fixes s :: "('w::len word, 'a) slot_sys"
  assumes "supported TYPE('w)" "sender_move s s'" "own_excl s" "s_dropped s' = None"
    and win: "\<And>w f. (w, f) \<in> set (s_window s) \<Longrightarrow> committed w \<Longrightarrow> committed (s_recv s)"
  shows "own_excl s'"
  using assms(2)
proof cases
  case (e_call t p h b d)
  then show ?thesis using ready_quiet(1) [of p] by (auto intro!: own_excl_goto [OF assms(3)])
next
  case (e_clone t p h h')
  then show ?thesis using ready_quiet(1) [of p] by (auto intro!: own_excl_goto [OF assms(3)])
next
  case (e_drop t p h)
  then show ?thesis using ready_quiet(1) [of p] by (auto intro!: own_excl_goto [OF assms(3)])
next
  case (e_refused t h b d)
  then show ?thesis using slot_try_reserve_cases [OF assms(1), of "s_send s"] by (auto intro!: own_excl_goto [OF assms(3)])
next
  case (e_busy t h b d)
  then show ?thesis using slot_try_reserve_cases [OF assms(1), of "s_send s"] by (auto intro!: own_excl_goto [OF assms(3)])
next
  case (e_reserve t h b d)
  then show ?thesis
    using slot_try_reserve_cases [OF assms(1), of "s_send s"] own_excl_reserve [OF assms(3)] by simp
next
  case (e_fence t h b d)
  then show ?thesis using own_excl_fence [OF assms(3)] by simp
next
  case (e_write t h b d)
  then show ?thesis using own_excl_write [OF assms(3)] by simp
next
  case (e_commit t h b)
  then show ?thesis using own_excl_commit [OF assms(3)] by simp
qed

lemma own_excl_sender_wait:
  fixes s :: "('w::len word, 'a) slot_sys"
  assumes "supported TYPE('w)" "sender_wait s s'" "own_excl s" "s_dropped s' = None"
    and win: "\<And>w f. (w, f) \<in> set (s_window s) \<Longrightarrow> committed w \<Longrightarrow> committed (s_recv s)"
  shows "own_excl s'"
  using assms(2)
proof cases
  case (e_wake_receiver t p h b q woken)
  then show ?thesis
    by (auto intro!: own_excl_goto [OF assms(3)] simp: receiver_asleep_def split: receiver_pc.splits)
next
  case (e_spin t h n d s1 q w n')
  then show ?thesis using assms(1) by (auto intro!: own_excl_goto [OF assms(3)])
next
  case (e_spin_dead t h n d s1 w)
  then show ?thesis using assms(1) by (auto intro!: own_excl_goto [OF assms(3)])
next
  case (e_torch t h d)
  then show ?thesis using assms(1) by (auto intro!: own_excl_goto [OF assms(3)])
qed (auto intro!: own_excl_goto [OF assms(3)])

lemma own_excl_receiver_move:
  fixes s :: "('w::len word, 'a) slot_sys"
  assumes "supported TYPE('w)" "receiver_move s s'" "own_excl s" "s_dropped s' = None"
    and win: "\<And>w f. (w, f) \<in> set (s_window s) \<Longrightarrow> committed w \<Longrightarrow> committed (s_recv s)"
  shows "own_excl s'"
  using assms(2)
proof cases
  case (e_recv_call q)
  then show ?thesis using ready_quiet(2) [of "s_receiver s"] unread_taking
    by (auto intro!: own_excl_quiet [OF assms(3)])
next
  case (e_load c k w f s1 q)
  have "(w, f) \<in> set (s_window s)" using e_load by (metis nth_mem)
  then show ?thesis using e_load win
    by (auto intro!: own_excl_quiet [OF assms(3)] split: option.splits)
next
  case (e_clear c)
  then show ?thesis using own_excl_clear [OF assms(3)] by simp
next
  case (e_read c x)
  then show ?thesis using own_excl_read [OF assms(3)] by simp
next
  case (e_publish c x)
  then show ?thesis using own_excl_publish [OF assms(1,3)] by simp
qed (auto intro!: own_excl_quiet [OF assms(3)])

lemma own_excl_receiver_wait:
  fixes s :: "('w::len word, 'a) slot_sys"
  assumes "supported TYPE('w)" "receiver_wait s s'" "own_excl s" "s_dropped s' = None"
    and win: "\<And>w f. (w, f) \<in> set (s_window s) \<Longrightarrow> committed w \<Longrightarrow> committed (s_recv s)"
  shows "own_excl s'"
  using assms(2)
proof cases
  case (e_wake_senders r c x q k W)
  then show ?thesis by (auto intro!: own_excl_quiet [OF assms(3)] split: if_splits)
next
  case e_recv_dead
  then show ?thesis using own_excl_dead [OF assms(1,3)] by simp
qed (auto intro!: own_excl_quiet [OF assms(3)])

lemma own_excl_slot_end:
  fixes s :: "('w::len word, 'a) slot_sys"
  assumes "supported TYPE('w)" "slot_end s s'" "own_excl s" "s_dropped s' = None"
    and win: "\<And>w f. (w, f) \<in> set (s_window s) \<Longrightarrow> committed w \<Longrightarrow> committed (s_recv s)"
  shows "own_excl s'"
  using assms(2) by cases (use assms(4) in simp_all)

lemma own_excl_effect:
  fixes s :: "('w::len word, 'a) slot_sys"
  assumes "supported TYPE('w)" "slot_effect s s'" "own_excl s" "s_dropped s' = None"
    and win: "\<And>w f. (w, f) \<in> set (s_window s) \<Longrightarrow> committed w \<Longrightarrow> committed (s_recv s)"
  shows "own_excl s'"
  using assms(2)
proof cases
  case sender_moves
  then show ?thesis by (rule own_excl_sender_move [OF assms(1) _ assms(3) assms(4) assms(5)])
next
  case sender_waits
  then show ?thesis by (rule own_excl_sender_wait [OF assms(1) _ assms(3) assms(4) assms(5)])
next
  case receiver_moves
  then show ?thesis by (rule own_excl_receiver_move [OF assms(1) _ assms(3) assms(4) assms(5)])
next
  case receiver_waits
  then show ?thesis by (rule own_excl_receiver_wait [OF assms(1) _ assms(3) assms(4) assms(5)])
next
  case slot_ends
  then show ?thesis by (rule own_excl_slot_end [OF assms(1) _ assms(3) assms(4) assms(5)])
qed

end
