(* ===== verification/Slot_Know.thy ===== *)
theory Slot_Know
  imports Slot_Own
begin

text \<open>
  Who knows the latest access of the cell, what the receiver may still load of its word, and what has
  been sent and received.
\<close>

section \<open>Who knows the cell's latest access\<close>

lemma v_epoch_simps [simp]:
  "v_epoch (rmw ord t l v) = v_epoch v" "v_epoch (fence_acquire t v) = v_epoch v"
  "v_epoch (fence_release t v) = v_epoch v" "v_epoch (load_view t f v) = v_epoch v"
  "v_epoch (load_acquire t l v) = v_epoch v"
  by (cases ord) (simp_all add: rmw.simps fence_acquire_def fence_release_def load_view_def load_acquire_def)

lemma load_view_simps [simp]:
  "v_cur (load_view t f v) = (v_cur v)(t := join (v_cur v t) f)" "v_msg (load_view t f v) = v_msg v"
  "v_acq (load_view t f v) = v_acq v" "v_rel (load_view t f v) = v_rel v"
  by (simp_all add: load_view_def)

lemma load_view_ok:
  assumes "views_ok v" "\<forall>i. f i \<le> v_epoch v i"
  shows "views_ok (load_view t f v)" "knows v h i \<Longrightarrow> knows (load_view t f v) h i"
    "f i = v_epoch v i \<Longrightarrow> knows (load_view t f v) (Cur t) i"
proof -
  show "views_ok (load_view t f v)" using assms by (auto simp: views_ok_def join_def)
  show "knows v h i \<Longrightarrow> knows (load_view t f v) h i"
    using assms by (cases h) (auto simp: views_ok_def join_def knows.simps max_def intro: antisym)
  show "f i = v_epoch v i \<Longrightarrow> knows (load_view t f v) (Cur t) i"
    using assms by (auto simp: views_ok_def join_def knows.simps max_def intro: antisym)
qed

fun s_holder :: "nat \<Rightarrow> ('w, 'a) sender_pc \<Rightarrow> holder option" where
  "s_holder a (SFence h b d) = Some (Acq a)"
| "s_holder a (SWrite h b d) = Some (Cur a)"
| "s_holder a (SCommit h b) = Some (Cur a)"
| "s_holder a _ = None"

fun r_holder :: "'a receiver_pc \<Rightarrow> holder option" where
  "r_holder (RClear c) = Some (Cur receiver_agent)"
| "r_holder (RRead c) = Some (Cur receiver_agent)"
| "r_holder (RFence c x) = Some (Cur receiver_agent)"
| "r_holder (RPublish c x) = Some (Rel receiver_agent)"
| "r_holder _ = None"

lemma s_holder_holding: "s_holder a p = Some k \<Longrightarrow> holding p"
  by (cases p) auto

lemma s_holder_none: "\<not> holding p \<Longrightarrow> s_holder a p = None"
  by (cases p) auto

lemma r_holder_taking: "r_holder r = Some k \<Longrightarrow> taking r \<or> clearing r"
  by (cases r) auto

lemma s_holder_wake [simp]: "s_holder a (wake_sender_pc p) = s_holder a p"
  by (cases p) auto

lemma r_holder_none: "\<not> taking r \<Longrightarrow> \<not> clearing r \<Longrightarrow> r_holder r = None"
  by (cases r) auto

definition own_know :: "('w::len word, 'a) slot_sys \<Rightarrow> bool" where
  "own_know s \<longleftrightarrow>
     (\<not> held s \<longrightarrow> knows (s_mem s) (Msg SendWord) 0) \<and>
     (\<forall>t k. s_holder (sender_agent t) (s_threads s t) = Some k \<longrightarrow> knows (s_mem s) k 0) \<and>
     (committed (s_recv s) \<longrightarrow> knows (s_mem s) (Msg RecvWord) 0) \<and>
     (\<forall>k. r_holder (s_receiver s) = Some k \<longrightarrow> knows (s_mem s) k 0)"

definition entry_ok :: "('w, 'a) slot_sys \<Rightarrow> u32 \<Rightarrow> (nat \<Rightarrow> nat) \<Rightarrow> bool" where
  "entry_ok s w f \<longleftrightarrow> (\<forall>i. f i \<le> v_epoch (s_mem s) i) \<and>
     (committed w \<longrightarrow> committed (s_recv s) \<and> f 0 = v_epoch (s_mem s) 0) \<and>
     (recv_dead w \<longrightarrow> recv_dead (s_recv s) \<and> (committed (s_recv s) \<longrightarrow> committed w))"

definition own_views :: "('w, 'a) slot_sys \<Rightarrow> bool" where
  "own_views s \<longleftrightarrow> views_ok (s_mem s) \<and> s_window s \<noteq> [] \<and>
     (\<forall>w f. (w, f) \<in> set (s_window s) \<longrightarrow> entry_ok s w f)"

lemma own_viewsD:
  "own_views s \<Longrightarrow> views_ok (s_mem s)"
  "own_views s \<Longrightarrow> (w, f) \<in> set (s_window s) \<Longrightarrow> entry_ok s w f"
  by (auto simp: own_views_def)

text \<open>Steps that lose no knowledge and ask for none.\<close>

lemma own_know_quiet:
  assumes "own_know s" "\<And>k. knows (s_mem s) k 0 \<Longrightarrow> knows (s_mem s') k 0"
    and "held s \<Longrightarrow> held s'" "committed (s_recv s') \<Longrightarrow> committed (s_recv s)"
    and "\<And>t k. s_holder (sender_agent t) (s_threads s' t) = Some k \<Longrightarrow> s_holder (sender_agent t) (s_threads s t) = Some k"
    and "\<And>k. r_holder (s_receiver s') = Some k \<Longrightarrow> r_holder (s_receiver s) = Some k"
  shows "own_know s'"
  using assms unfolding own_know_def by blast

lemma own_views_quiet:
  assumes "own_views s" "views_ok (s_mem s')" "v_epoch (s_mem s') = v_epoch (s_mem s)"
    and "s_window s' = s_window s" "s_recv s' = s_recv s"
  shows "own_views s'"
  using assms by (simp add: own_views_def entry_ok_def)

lemma held_or_sleeping: "supported TYPE('w) \<Longrightarrow> held s \<Longrightarrow> held (s_rmw_send a (s_send s OR SEND_SLEEPING) (s :: ('w::len word, 'a) slot_sys))"
  by (simp add: held_def)

lemma held_cong: "s_send s' = s_send s \<Longrightarrow> held s' = held s"
  by (simp add: held_def)

lemma own_know_goto:
  assumes "own_know s" "\<not> holding q" "s_threads s' = s_threads s" "s_receiver s' = s_receiver s \<or> r_holder (s_receiver s') = None"
    and "held s \<Longrightarrow> held s'" "committed (s_recv s') \<Longrightarrow> committed (s_recv s)"
    and "\<And>k. knows (s_mem s) k 0 \<Longrightarrow> knows (s_mem s') k 0"
  shows "own_know (s_goto t q s')"
proof (rule own_know_quiet [OF assms(1)])
  show "held s \<Longrightarrow> held (s_goto t q s')" using assms(5) by (simp add: held_def)
  show "s_holder (sender_agent u) (s_threads (s_goto t q s') u) = Some k \<Longrightarrow>
      s_holder (sender_agent u) (s_threads s u) = Some k" for u k
    using assms(2,3) s_holder_none [of q] by (simp split: if_splits)
qed (use assms(4,6,7) in auto)

text \<open>The two words' writes on the window.\<close>

lemma own_views_rmw_recv:
  assumes "own_views s" "\<And>w f. (w, f) \<in> set (s_window s) \<Longrightarrow> a \<noteq> receiver_agent \<Longrightarrow> committed w \<Longrightarrow> committed (s_recv s) \<Longrightarrow> committed w'"
    and "\<And>w f. (w, f) \<in> set (s_window s) \<Longrightarrow> a \<noteq> receiver_agent \<Longrightarrow> recv_dead w \<Longrightarrow> recv_dead w' \<and> (committed w' \<longrightarrow> committed w)"
    and "committed w' \<Longrightarrow> knows (rmw ord a RecvWord (s_mem s)) (Msg RecvWord) 0"
  shows "own_views (s_rmw_recv ord a w' s)"
proof -
  note ok = own_viewsD(1) [OF assms(1)]
  let ?s = "s_rmw_recv ord a w' s"
  have new: "entry_ok ?s w' (v_msg (rmw ord a RecvWord (s_mem s)) RecvWord)"
  proof -
    have "\<forall>i. v_msg (rmw ord a RecvWord (s_mem s)) RecvWord i \<le> v_epoch (s_mem s) i"
      using views_ok_rmw [OF ok, of ord a RecvWord] unfolding views_ok_def v_epoch_simps by blast
    then show ?thesis using assms(4) by (simp add: entry_ok_def knows.simps)
  qed
  have old: "entry_ok ?s w f" if "(w, f) \<in> set (s_window s)" "a \<noteq> receiver_agent" for w f
    using own_viewsD(2) [OF assms(1) that(1)] assms(2,3) [OF that] unfolding entry_ok_def s_rmw_recv_simps v_epoch_simps by blast
  show ?thesis unfolding own_views_def using new old views_ok_rmw [OF ok] by simp
qed

lemma own_views_access:
  assumes "own_views s" "\<not> committed (s_recv s)" "s_mem s' = access a 0 (s_mem s)" "s_window s' = s_window s" "s_recv s' = s_recv s"
  shows "own_views s'"
proof -
  have "entry_ok s' w f" if "(w, f) \<in> set (s_window s)" for w f
    using own_viewsD(2) [OF assms(1) that] assms(2,3,5)
    by (auto simp: entry_ok_def access_def intro: le_SucI)
  then show ?thesis using assms by (simp add: own_views_def)
qed

lemma rmw_keeps [simp]: "views_ok v \<Longrightarrow> knows v k 0 \<Longrightarrow> knows (rmw ord a l v) k 0"
  by (rule knows_rmw)

definition own_log :: "('w, 'a) slot_sys \<Rightarrow> bool" where
  "own_log s \<longleftrightarrow> s_sent s = s_received s @ (case s_slot s of None \<Rightarrow> [] | Some x \<Rightarrow> [x])"

end
