(* ===== verification/Slot_Views.thy ===== *)
theory Slot_Views
  imports Slot_Know
begin

text \<open>
  Every step keeps the views and the knowledge that the ownership of the cell asks for.
\<close>

section \<open>The views\<close>

lemma own_views_sender_move:
  fixes s :: "('w::len word, 'a) slot_sys"
  assumes "supported TYPE('w)" "sender_move s s'" "own_excl s" "own_views s" "own_know s" "slot_handles s"
    "s_dropped s' = None"
  shows "own_views s'"
  using assms(2)
proof cases
  case (e_write t h b d)
  have "holding (s_threads s t)" using e_write by simp
  then have "\<not> committed (s_recv s)" using own_exclD(2) [OF assms(3)] by blast
  then show ?thesis unfolding e_write(1) by (rule own_views_access [OF assms(4)]) simp_all
next
  case (e_commit t h b)
  have t: "holding (s_threads s t)" using e_commit by simp
  have "h \<in> s_handles s" using assms(6) e_commit(2) by (auto simp: slot_handles_def dest: spec [of _ t])
  then have nd: "\<not> recv_dead (s_recv s)" using assms(6) by (auto simp: slot_handles_def)
  have k: "knows (s_mem s) (Cur (sender_agent t)) 0"
    using assms(5) e_commit(2) by (auto simp: own_know_def dest: spec [of _ t])
  have "own_views (s_rmw_recv Release (sender_agent t) COMMIT s)"
  proof (rule own_views_rmw_recv [OF assms(4)])
    show "recv_dead COMMIT \<and> (committed COMMIT \<longrightarrow> committed w)" if "(w, f) \<in> set (s_window s)" "recv_dead w" for w f
      using own_viewsD(2) [OF assms(4) that(1)] that(2) nd by (simp add: entry_ok_def)
    show "knows (rmw Release (sender_agent t) RecvWord (s_mem s)) (Msg RecvWord) 0"
      using rmw_publishes(2) [OF own_viewsD(1) [OF assms(4)] k] by simp
  qed simp
  then show ?thesis unfolding e_commit(1) by (simp add: own_views_def entry_ok_def)
qed (use own_viewsD(1) [OF assms(4)] in \<open>auto intro!: own_views_quiet [OF assms(4)]\<close>)

lemma own_views_sender_wait:
  fixes s :: "('w::len word, 'a) slot_sys"
  assumes "supported TYPE('w)" "sender_wait s s'" "own_excl s" "own_views s" "own_know s" "slot_handles s"
    "s_dropped s' = None"
  shows "own_views s'"
  using assms(2)
proof cases
  case (e_dead t)
  have "own_views (s_rmw_recv Relaxed (sender_agent t) (s_recv s OR SENDER_DEAD) s)"
  proof (rule own_views_rmw_recv [OF assms(4)])
    show "recv_dead (s_recv s OR SENDER_DEAD) \<and> (committed (s_recv s OR SENDER_DEAD) \<longrightarrow> committed w)"
      if "(w, f) \<in> set (s_window s)" "recv_dead w" for w f
      using own_viewsD(2) [OF assms(4) that(1)] that(2) by (simp add: entry_ok_def)
    show "knows (rmw Relaxed (sender_agent t) RecvWord (s_mem s)) (Msg RecvWord) 0"
      if "committed (s_recv s OR SENDER_DEAD)"
      using that assms(5) own_viewsD(1) [OF assms(4)] by (simp add: own_know_def)
  qed simp
  then show ?thesis unfolding e_dead(1) by (simp add: own_views_def entry_ok_def)
qed (use own_viewsD(1) [OF assms(4)] in \<open>auto intro!: own_views_quiet [OF assms(4)]\<close>)

lemma own_views_receiver_move:
  fixes s :: "('w::len word, 'a) slot_sys"
  assumes "supported TYPE('w)" "receiver_move s s'" "own_excl s" "own_views s" "own_know s" "slot_handles s"
    "s_dropped s' = None"
  shows "own_views s'"
  using assms(2)
proof cases
  case (e_load c k w f s1 q)
  have "(w, f) \<in> set (s_window s)" using e_load by (metis nth_mem)
  then have "\<forall>i. f i \<le> v_epoch (s_mem s) i" using own_viewsD(2) [OF assms(4)] by (simp add: entry_ok_def)
  then have "views_ok (load_view receiver_agent f (s_mem s))"
    using load_view_ok(1) own_viewsD(1) [OF assms(4)] by blast
  then show ?thesis using e_load assms(4)
    by (auto simp: own_views_def entry_ok_def dest: in_set_takeD)
next
  case (e_clear c)
  have "own_views (s_rmw_recv Relaxed receiver_agent (s_recv s AND SENDER_DEAD) s)"
    by (rule own_views_rmw_recv [OF assms(4)]) simp_all
  then show ?thesis unfolding e_clear(1) by (simp add: own_views_def entry_ok_def)
next
  case (e_read c x)
  have "taking (s_receiver s)" using e_read by simp
  then have "\<not> committed (s_recv s)" using own_exclD(7) [OF assms(3)] by blast
  then show ?thesis unfolding e_read(1) by (rule own_views_access [OF assms(4)]) simp_all
qed (use own_viewsD(1) [OF assms(4)] in \<open>auto intro!: own_views_quiet [OF assms(4)]\<close>)

lemma own_views_receiver_wait:
  fixes s :: "('w::len word, 'a) slot_sys"
  assumes "supported TYPE('w)" "receiver_wait s s'" "own_excl s" "own_views s" "own_know s" "slot_handles s"
    "s_dropped s' = None"
  shows "own_views s'"
  using assms(2)
proof cases
  case e_announce
  have "own_views (s_rmw_recv Relaxed receiver_agent (s_recv s OR RECV_SLEEPING) s)"
    by (rule own_views_rmw_recv [OF assms(4)])
      (use assms(5) own_viewsD(1) [OF assms(4)] in \<open>simp_all add: own_know_def\<close>)
  then show ?thesis unfolding e_announce(1) by (simp add: own_views_def entry_ok_def)
qed (use own_viewsD(1) [OF assms(4)] in \<open>auto intro!: own_views_quiet [OF assms(4)]\<close>)

lemma own_views_slot_end:
  fixes s :: "('w::len word, 'a) slot_sys"
  assumes "supported TYPE('w)" "slot_end s s'" "own_excl s" "own_views s" "own_know s" "slot_handles s"
    "s_dropped s' = None"
  shows "own_views s'"
  using assms(2) by cases (use assms(7) in simp_all)

lemma own_views_effect:
  fixes s :: "('w::len word, 'a) slot_sys"
  assumes "supported TYPE('w)" "slot_effect s s'" "own_excl s" "own_views s" "own_know s" "slot_handles s"
    "s_dropped s' = None"
  shows "own_views s'"
  using assms(2)
proof cases
  case sender_moves
  then show ?thesis by (rule own_views_sender_move [OF assms(1) _ assms(3) assms(4) assms(5) assms(6) assms(7)])
next
  case sender_waits
  then show ?thesis by (rule own_views_sender_wait [OF assms(1) _ assms(3) assms(4) assms(5) assms(6) assms(7)])
next
  case receiver_moves
  then show ?thesis by (rule own_views_receiver_move [OF assms(1) _ assms(3) assms(4) assms(5) assms(6) assms(7)])
next
  case receiver_waits
  then show ?thesis by (rule own_views_receiver_wait [OF assms(1) _ assms(3) assms(4) assms(5) assms(6) assms(7)])
next
  case slot_ends
  then show ?thesis by (rule own_views_slot_end [OF assms(1) _ assms(3) assms(4) assms(5) assms(6) assms(7)])
qed

section \<open>The knowledge\<close>

lemma own_know_reserve:
  assumes "own_know s" "own_views s" "own_excl s" "\<not> reserved (s_send s)" "\<not> send_dead (s_send s)" "reserved w"
  shows "own_know (s_goto t (SFence h b d) (s_rmw_send (sender_agent t) w s))"
proof -
  note ok = own_viewsD(1) [OF assms(2)] and free = own_excl_free [OF assms(3-5)]
  have "\<not> held s" using assms(4,5) by (simp add: held_def)
  then have "knows (s_mem s) (Msg SendWord) 0" using assms(1) by (simp add: own_know_def)
  from rmw_reads(1) [OF ok this, of Relaxed "sender_agent t"] show ?thesis
    using free assms(6) own_exclD(9) [OF assms(3)]
    by (auto simp: own_know_def held_def dest: s_holder_holding r_holder_taking)
qed

lemma own_know_access:
  assumes "own_excl s" "holding (s_threads s t)" "\<not> committed w" "s_holder (sender_agent t) q = Some (Cur (sender_agent t))"
    and "s_threads s' = s_threads s" "s_receiver s' = s_receiver s" "s_send s' = s_send s" "s_recv s' = s_recv s"
    and "s_mem s' = access (sender_agent t) 0 m"
  shows "own_know (s_goto t q s')"
proof -
  have u: "\<not> holding (s_threads s u)" if "u \<noteq> t" for u using own_exclD(1) [OF assms(1,2)] that by blast
  have "\<not> taking (s_receiver s)" "\<not> committed (s_recv s)" "held s" using own_exclD(2-4) [OF assms(1,2)] by simp_all
  then have "r_holder (s_receiver s) = None" "\<not> committed (s_recv s)" "held s"
    using own_exclD(9) [OF assms(1)] r_holder_none by auto
  then show ?thesis using u assms(4-9) by (auto simp: own_know_def held_def dest: s_holder_holding)
qed

lemma own_know_sender_move:
  fixes s :: "('w::len word, 'a) slot_sys"
  assumes "supported TYPE('w)" "sender_move s s'" "own_excl s" "own_views s" "own_know s" "s_dropped s' = None"
  shows "own_know s'"
proof -
  note ok = own_viewsD(1) [OF assms(4)]
  from assms(2) show ?thesis
  proof cases
    case (e_refused t h b d)
    then show ?thesis using slot_try_reserve_cases [OF assms(1), of "s_send s"]
      by (auto intro!: own_know_goto [OF assms(5)] simp: ok held_def)
  next
    case (e_busy t h b d)
    then show ?thesis using slot_try_reserve_cases [OF assms(1), of "s_send s"]
      by (auto intro!: own_know_goto [OF assms(5)] simp: ok held_def)
  next
    case (e_reserve t h b d)
    then show ?thesis
      using slot_try_reserve_cases(1) [OF assms(1), of "s_send s"] own_know_reserve [OF assms(5,4,3)] by simp
  next
    case (e_fence t h b d)
    have "knows (s_mem s) (Acq (sender_agent t)) 0"
      using assms(5) e_fence(2) by (auto simp: own_know_def dest: spec [of _ t])
    then have "knows (fence_acquire (sender_agent t) (s_mem s)) (Cur (sender_agent t)) 0"
      by (rule fence_acquire_knows [OF ok])
    then show ?thesis using assms(5) e_fence ok by (auto simp: own_know_def held_def)
  next
    case (e_write t h b d)
    then show ?thesis
      using own_know_access [OF assms(3), of t "0" "SCommit h b"] by simp
  next
    case (e_commit t h b)
    have k: "knows (s_mem s) (Cur (sender_agent t)) 0"
      using assms(5) e_commit(2) by (auto simp: own_know_def dest: spec [of _ t])
    have "knows (rmw Release (sender_agent t) RecvWord (s_mem s)) (Msg RecvWord) 0"
      using rmw_publishes(2) [OF ok k] by simp
    then show ?thesis using assms(5) e_commit ok by (auto simp: own_know_def held_def)
  qed (auto intro!: own_know_goto [OF assms(5)] simp: ok held_def)
qed

lemma own_know_sender_wait:
  fixes s :: "('w::len word, 'a) slot_sys"
  assumes "supported TYPE('w)" "sender_wait s s'" "own_excl s" "own_views s" "own_know s" "s_dropped s' = None"
  shows "own_know s'"
proof -
  note ok = own_viewsD(1) [OF assms(4)]
  from assms(2) show ?thesis
  proof cases
    case (e_wake_receiver t p h b q woken)
    then show ?thesis
      by (auto intro!: own_know_goto [OF assms(5)] simp: held_def)
  next
    case (e_spin t h n d s1 q w n')
    then show ?thesis using held_or_sleeping [OF assms(1)] by (auto intro!: own_know_goto [OF assms(5)] simp: ok)
  next
    case (e_spin_dead t h n d s1 w)
    then show ?thesis using held_or_sleeping [OF assms(1)] by (auto intro!: own_know_goto [OF assms(5)] simp: ok)
  next
    case (e_sleep t h w d)
    then show ?thesis by (auto intro!: own_know_goto [OF assms(5)])
  next
    case (e_no_sleep t h w d)
    then show ?thesis by (auto intro!: own_know_goto [OF assms(5)])
  next
    case (e_interrupt t h d)
    then show ?thesis by (auto intro!: own_know_goto [OF assms(5)])
  next
    case (e_torch t h d)
    then show ?thesis using held_or_sleeping [OF assms(1)] by (auto intro!: own_know_goto [OF assms(5)] simp: ok)
  qed (auto intro!: own_know_goto [OF assms(5)] simp: ok held_def)
qed

lemma own_know_receiver_move:
  fixes s :: "('w::len word, 'a) slot_sys"
  assumes "supported TYPE('w)" "receiver_move s s'" "own_excl s" "own_views s" "own_know s" "s_dropped s' = None"
  shows "own_know s'"
proof -
  note ok = own_viewsD(1) [OF assms(4)]
  from assms(2) show ?thesis
  proof cases
    case (e_recv_call q)
    then show ?thesis using assms(5) by (auto simp: own_know_def held_def)
  next
    case (e_load c k w f s1 q)
    have "(w, f) \<in> set (s_window s)" using e_load by (metis nth_mem)
    then have f: "\<forall>i. f i \<le> v_epoch (s_mem s) i" "committed w \<Longrightarrow> f 0 = v_epoch (s_mem s) 0"
      using own_viewsD(2) [OF assms(4)] by (simp_all add: entry_ok_def)
    note l = load_view_ok [OF ok f(1)]
    show ?thesis using assms(5) e_load l f(2) by (auto simp: own_know_def held_def split: option.splits if_splits)
  next
    case (e_clear c)
    then show ?thesis using assms(5) ok by (auto simp: own_know_def held_def)
  next
    case (e_read c x)
    have t: "taking (s_receiver s)" using e_read by simp
    have "\<not> holding (s_threads s u)" "\<not> committed (s_recv s)" "held s" for u
      using own_exclD(3,7,10) [OF assms(3)] t by (auto simp: held_def)
    then show ?thesis using e_read by (auto simp: own_know_def held_def dest: s_holder_holding)
  next
    case (e_release c x)
    have "knows (s_mem s) (Cur receiver_agent) 0" using assms(5) e_release by (simp add: own_know_def)
    then have r: "knows (fence_release receiver_agent (s_mem s)) (Rel receiver_agent) 0" by (rule fence_release_knows)
    have keep: "knows (s_mem s) k 0 \<Longrightarrow> k \<noteq> Rel receiver_agent \<Longrightarrow> knows (fence_release receiver_agent (s_mem s)) k 0" for k
      using knows_fences(3) [OF ok] by blast
    have n: "k \<noteq> Rel receiver_agent" if "s_holder (sender_agent t) p = Some k" for t k and p :: "('w word, 'a) sender_pc"
      using that by (cases p) auto
    have "knows (fence_release receiver_agent (s_mem s)) k 0"
      if "s_holder (sender_agent t) (s_threads s t) = Some k" for t k
      using assms(5) keep n [OF that] that by (auto simp: own_know_def)
    then show ?thesis using assms(5) e_release r keep by (auto simp: own_know_def held_def)
  next
    case (e_publish c x)
    have t: "taking (s_receiver s)" using e_publish by simp
    have h: "\<not> holding (s_threads s u)" "\<not> committed (s_recv s)" for u
      using own_exclD(3,7) [OF assms(3)] t by auto
    have "knows (s_mem s) (Rel receiver_agent) 0" using assms(5) e_publish by (simp add: own_know_def)
    then have "knows (rmw Relaxed receiver_agent SendWord (s_mem s)) (Msg SendWord) 0"
      using rmw_publishes(1) [OF ok] by blast
    then show ?thesis using e_publish h by (auto simp: own_know_def dest: s_holder_holding)
  qed
qed

lemma own_know_receiver_wait:
  fixes s :: "('w::len word, 'a) slot_sys"
  assumes "supported TYPE('w)" "receiver_wait s s'" "own_excl s" "own_views s" "own_know s" "s_dropped s' = None"
  shows "own_know s'"
  using assms(2) by cases (use assms(1,5) own_viewsD(1) [OF assms(4)] in \<open>auto simp: own_know_def held_def\<close>)

lemma own_know_slot_end:
  fixes s :: "('w::len word, 'a) slot_sys"
  assumes "supported TYPE('w)" "slot_end s s'" "own_excl s" "own_views s" "own_know s" "s_dropped s' = None"
  shows "own_know s'"
  using assms(2) by cases (use assms(6) in simp_all)

lemma own_know_effect:
  fixes s :: "('w::len word, 'a) slot_sys"
  assumes "supported TYPE('w)" "slot_effect s s'" "own_excl s" "own_views s" "own_know s" "s_dropped s' = None"
  shows "own_know s'"
  using assms(2)
proof cases
  case sender_moves
  then show ?thesis by (rule own_know_sender_move [OF assms(1) _ assms(3) assms(4) assms(5) assms(6)])
next
  case sender_waits
  then show ?thesis by (rule own_know_sender_wait [OF assms(1) _ assms(3) assms(4) assms(5) assms(6)])
next
  case receiver_moves
  then show ?thesis by (rule own_know_receiver_move [OF assms(1) _ assms(3) assms(4) assms(5) assms(6)])
next
  case receiver_waits
  then show ?thesis by (rule own_know_receiver_wait [OF assms(1) _ assms(3) assms(4) assms(5) assms(6)])
next
  case slot_ends
  then show ?thesis by (rule own_know_slot_end [OF assms(1) _ assms(3) assms(4) assms(5) assms(6)])
qed

end
