(* ===== verification/Slot_Safe.thy ===== *)
theory Slot_Safe
  imports Slot_Views
begin

text \<open>
  The invariant of every run of the slot, what a disconnection means, and that no step faults.
\<close>

section \<open>Disconnection\<close>

definition own_closed :: "('w::len word, 'a) slot_sys \<Rightarrow> bool" where
  "own_closed s \<longleftrightarrow>
     (s_receiver s = RRet SlotClosed \<longrightarrow> s_handles s = {} \<and> \<not> committed (s_recv s) \<and> s_slot s = None) \<and>
     (\<forall>w\<in>set (s_seen s). send_dead w \<longrightarrow> send_dead (s_send s)) \<and>
     (\<forall>t d. s_threads s t = SRet (SlotDisconnected d) \<longrightarrow> gone (s_receiver s))"

definition slot_inv :: "('w::len word, 'a) slot_sys \<Rightarrow> bool" where
  "slot_inv s \<longleftrightarrow> slot_handles s \<and> own_closed s \<and>
     (s_dropped s = None \<longrightarrow> own_excl s \<and> own_views s \<and> own_know s \<and> own_log s) \<and>
     (\<forall>xs. s_dropped s = Some xs \<longrightarrow> s_handles s = {} \<and> s_receiver s = RGone \<and>
        (\<forall>t. s_ready (s_threads s t)) \<and> s_slot s = None \<and> s_sent s = s_received s @ xs)"

lemma slot_inv_init: "supported TYPE('w::len) \<Longrightarrow> slot_inv (mpsc n :: ('w word, 'a) slot_sys)"
  by (auto simp: slot_inv_def slot_handles_init own_excl_init own_closed_def)
    (simp_all add: own_views_def own_know_def own_log_def own_closed_def mpsc_def entry_ok_def)

text \<open>Nothing happens after \<^verbatim>\<open>Inner\<close> is dropped.\<close>

lemma dropped_stops:
  assumes "slot_inv s" "s_dropped s = Some xs" "slot_effect s s'"
  shows False
proof -
  have d: "s_handles s = {}" "s_receiver s = RGone" and r: "\<And>t p. s_threads s t = p \<Longrightarrow> s_ready p"
    using assms(1,2) by (auto simp: slot_inv_def)
  from assms(3) show False
    by (elim slot_effect.cases sender_move.cases sender_wait.cases receiver_move.cases receiver_wait.cases slot_end.cases)
      (use d assms(2) in \<open>auto dest: r\<close>)
qed

lemma handles_empty_idle:
  assumes "slot_handles s" "s_handles s = {}"
  shows "s_handle (s_threads s t) = None" "\<not> holding (s_threads s t)"
proof -
  show h: "s_handle (s_threads s t) = None"
    using assms by (auto simp: slot_handles_def)
  show "\<not> holding (s_threads s t)" using h by (cases "s_threads s t") auto
qed

text \<open>Only the end drops the storage.\<close>

lemma moves_dropped [simp]:
  "sender_move s s' \<Longrightarrow> s_dropped s' = s_dropped s" "sender_wait s s' \<Longrightarrow> s_dropped s' = s_dropped s"
  "receiver_move s s' \<Longrightarrow> s_dropped s' = s_dropped s" "receiver_wait s s' \<Longrightarrow> s_dropped s' = s_dropped s"
  by (auto elim!: sender_move.cases sender_wait.cases receiver_move.cases receiver_wait.cases)

lemma waits_log [simp]:
  "sender_wait s s' \<Longrightarrow> own_log s' = own_log s" "receiver_wait s s' \<Longrightarrow> own_log s' = own_log s"
  by (auto elim!: sender_wait.cases receiver_wait.cases simp: own_log_def)

lemma own_log_effect:
  assumes "slot_effect s s'" "own_log s" "own_excl s" "s_dropped s' = None"
  shows "own_log s'"
  using assms(1)
proof cases
  case sender_moves
  then show ?thesis by cases (use assms(2) in \<open>auto simp: own_log_def\<close>)
next
  case receiver_moves
  then show ?thesis by cases (use assms(2) in \<open>auto simp: own_log_def\<close>)
next
  case slot_ends
  then show ?thesis by cases (use assms(4) in simp_all)
qed (use assms(2) in simp_all)

lemma end_log:
  assumes "slot_end s s'" "own_log s" "own_excl s" "slot_handles s" "s_dropped s' = Some xs"
  shows "s_handles s' = {} \<and> s_receiver s' = RGone \<and> (\<forall>t. s_ready (s_threads s' t)) \<and> s_slot s' = None \<and>
     s_sent s' = s_received s' @ xs"
  using assms(1)
proof cases
  case (e_drop_slot x)
  have "s_ready (s_threads s t)" for t
    using assms(4) e_drop_slot(5) by (cases "t < s_n s") (auto simp: slot_handles_def)
  then show ?thesis using e_drop_slot assms(2,5) by (auto simp: own_log_def)
next
  case e_drop_empty
  have r: "s_ready (s_threads s t)" for t
    using assms(4) e_drop_empty(5) by (cases "t < s_n s") (auto simp: slot_handles_def)
  then have "\<not> written (s_threads s t)" for t using ready_quiet(1) written_holding by blast
  then have "s_slot s = None"
    using own_exclD(12) [OF assms(3)] e_drop_empty by (cases "s_slot s") auto
  then show ?thesis using e_drop_empty r assms(2,5) by (auto simp: own_log_def)
qed

lemma drop_log:
  assumes "slot_effect s s'" "own_log s" "own_excl s" "slot_handles s" "s_dropped s = None" "s_dropped s' = Some xs"
  shows "s_handles s' = {} \<and> s_receiver s' = RGone \<and> (\<forall>t. s_ready (s_threads s' t)) \<and> s_slot s' = None \<and>
     s_sent s' = s_received s' @ xs"
  using assms(1) by cases (use assms(5,6) end_log [OF _ assms(2-4,6)] in simp_all)

lemma own_closed_goto:
  assumes "own_closed s" "s_threads s' = s_threads s" "s_receiver s' = s_receiver s \<or> s_receiver s' = RLoad c \<and> \<not> gone (s_receiver s)"
    and "\<And>d. q = SRet (SlotDisconnected d) \<Longrightarrow> gone (s_receiver s)"
    and "s_handles s' \<subseteq> s_handles s \<or> s_handles s \<noteq> {}" "committed (s_recv s') \<Longrightarrow> committed (s_recv s) \<or> s_handles s \<noteq> {}"
    and "s_slot s' = s_slot s \<or> s_handles s \<noteq> {}"
    and "s_seen s' = s_seen s \<and> s_send s' = s_send s \<or> s_seen s' = s_send s' # s_seen s \<and> send_dead (s_send s') = send_dead (s_send s)"
  shows "own_closed (s_goto t q s')"
proof -
  have c: "s_receiver s = RRet SlotClosed \<Longrightarrow> s_handles s = {} \<and> \<not> committed (s_recv s) \<and> s_slot s = None"
    and seen: "\<And>w. w \<in> set (s_seen s) \<Longrightarrow> send_dead w \<Longrightarrow> send_dead (s_send s)"
    and g: "\<And>t d. s_threads s t = SRet (SlotDisconnected d) \<Longrightarrow> gone (s_receiver s)"
    using assms(1) unfolding own_closed_def by blast+
  have "s_handles s' = {} \<and> \<not> committed (s_recv s') \<and> s_slot s' = None" if "s_receiver s' = RRet SlotClosed"
    using c assms(3,5-7) that by auto
  moreover have "send_dead (s_send s')" if "w \<in> set (s_seen s')" "send_dead w" for w
    using assms(8) seen that by auto
  moreover have "gone (s_receiver s')" if "((s_threads s')(t := q)) u = SRet (SlotDisconnected d)" for u d
    using assms(2-4) g that by (auto split: if_splits)
  ultimately show ?thesis unfolding own_closed_def by simp
qed

lemma own_closed_receiver:
  assumes "own_closed s" "s_threads s' = s_threads s" "s_receiver s' \<noteq> RRet SlotClosed" "gone (s_receiver s) \<Longrightarrow> gone (s_receiver s')"
    and "s_seen s' = s_seen s \<and> s_send s' = s_send s \<or> s_seen s' = s_send s' # s_seen s \<and> (send_dead (s_send s) \<longrightarrow> send_dead (s_send s'))"
  shows "own_closed s'"
proof -
  have seen: "\<And>w. w \<in> set (s_seen s) \<Longrightarrow> send_dead w \<Longrightarrow> send_dead (s_send s)"
    and g: "\<And>t d. s_threads s t = SRet (SlotDisconnected d) \<Longrightarrow> gone (s_receiver s)"
    using assms(1) unfolding own_closed_def by blast+
  have "send_dead (s_send s')" if "w \<in> set (s_seen s')" "send_dead w" for w
    using assms(5) seen [of w] that by (metis set_ConsD)
  moreover have "gone (s_receiver s')" if "s_threads s' u = SRet (SlotDisconnected d)" for u d
    using assms(2,4) g that by simp
  ultimately show ?thesis unfolding own_closed_def using assms(3) by simp
qed

lemma own_closed_sender_move:
  fixes s :: "('w::len word, 'a) slot_sys"
  assumes "supported TYPE('w)" "sender_move s s'" "own_closed s" "own_excl s" "own_views s" "slot_handles s"
  shows "own_closed s'"
proof -
  note dead = own_exclD(13) [OF assms(4)]
  have busy: "s_handles s \<noteq> {}" if "s_handle (s_threads s t) \<noteq> None" for t
    using handles_empty_idle(1) [OF assms(6), of t] that by auto
  from assms(2) show ?thesis
  proof cases
    case (e_refused t h b d)
    then show ?thesis using slot_try_reserve_cases [OF assms(1), of "s_send s"] dead
      by (auto intro!: own_closed_goto [OF assms(3)])
  next
    case (e_busy t h b d)
    then show ?thesis using slot_try_reserve_cases [OF assms(1), of "s_send s"]
      by (auto intro!: own_closed_goto [OF assms(3)])
  next
    case (e_reserve t h b d)
    then show ?thesis using slot_try_reserve_cases [OF assms(1), of "s_send s"]
      by (auto intro!: own_closed_goto [OF assms(3)])
  next
    case (e_write t h b d)
    then have "s_handles s \<noteq> {}" using busy [of t] by simp
    with e_write show ?thesis by (auto intro!: own_closed_goto [OF assms(3)])
  next
    case (e_commit t h b)
    then have "s_handles s \<noteq> {}" using busy [of t] by simp
    with e_commit show ?thesis by (auto intro!: own_closed_goto [OF assms(3)])
  qed (auto intro!: own_closed_goto [OF assms(3)])
qed

lemma own_closed_sender_wait:
  fixes s :: "('w::len word, 'a) slot_sys"
  assumes "supported TYPE('w)" "sender_wait s s'" "own_closed s" "own_excl s" "own_views s" "slot_handles s"
  shows "own_closed s'"
proof -
  note dead = own_exclD(13) [OF assms(4)]
  from assms(2) show ?thesis
  proof cases
    case (e_wake_receiver t p h b q woken)
    then show ?thesis
      by (intro own_closed_goto [OF assms(3)] | simp add: receiver_asleep_def split: receiver_pc.splits)+
  next
    case (e_spin t h n d s1 q w n')
    then show ?thesis using assms(1) by (auto intro!: own_closed_goto [OF assms(3)])
  next
    case (e_spin_dead t h n d s1 w)
    have "send_dead (s_send s)" using e_spin_dead assms(1,3) by (auto simp: own_closed_def)
    then show ?thesis using e_spin_dead assms(1) dead by (auto intro!: own_closed_goto [OF assms(3)])
  next
    case (e_torch t h d)
    then show ?thesis using assms(1) by (auto intro!: own_closed_goto [OF assms(3)])
  qed (auto intro!: own_closed_goto [OF assms(3)])
qed

lemma own_closed_receiver_move:
  fixes s :: "('w::len word, 'a) slot_sys"
  assumes "supported TYPE('w)" "receiver_move s s'" "own_closed s" "own_excl s" "own_views s" "slot_handles s"
  shows "own_closed s'"
proof -
  note dead = own_exclD(13) [OF assms(4)]
  from assms(2) show ?thesis
  proof cases
    case (e_recv_call q)
    then show ?thesis using ready_quiet(2) [of "s_receiver s"] by (auto intro!: own_closed_receiver [OF assms(3)])
  next
    case (e_load c k w f s1 q)
    have "(w, f) \<in> set (s_window s)" using e_load by (metis nth_mem)
    then have e: "entry_ok s w f" using own_viewsD(2) [OF assms(5)] by blast
    show ?thesis
    proof (cases "recv_dead w \<and> \<not> committed w")
      case True
      then have "s_handles s = {}" "\<not> committed (s_recv s)"
        using e assms(6) by (auto simp: entry_ok_def slot_handles_def)
      moreover from this have "s_slot s = None"
        using own_exclD(12) [OF assms(4)] handles_empty_idle(2) [OF assms(6)] written_holding e_load(2) by fastforce
      ultimately show ?thesis using e_load assms(3) True by (auto simp: own_closed_def)
    next
      case False
      then show ?thesis using e_load by (auto intro!: own_closed_receiver [OF assms(3)] split: option.splits)
    qed
  next
    case (e_publish c x)
    then show ?thesis using dead by (auto intro!: own_closed_receiver [OF assms(3)])
  qed (auto intro!: own_closed_receiver [OF assms(3)])
qed

lemma own_closed_receiver_wait:
  fixes s :: "('w::len word, 'a) slot_sys"
  assumes "supported TYPE('w)" "receiver_wait s s'" "own_closed s" "own_excl s" "own_views s" "slot_handles s"
  shows "own_closed s'"
proof -
  note dead = own_exclD(13) [OF assms(4)]
  from assms(2) show ?thesis
  proof cases
    case (e_wake_senders r c x q k W)
    have "wake_sender_pc p = SRet r' \<longleftrightarrow> p = SRet r'" for p :: "('w word, 'a) sender_pc" and r'
      by (cases p) auto
    then show ?thesis using e_wake_senders assms(3) by (auto simp: own_closed_def split: if_splits)
  next
    case e_recv_dead
    then show ?thesis using assms(1) by (auto intro!: own_closed_receiver [OF assms(3)])
  qed (auto intro!: own_closed_receiver [OF assms(3)])
qed

lemma own_closed_slot_end:
  fixes s :: "('w::len word, 'a) slot_sys"
  assumes "supported TYPE('w)" "slot_end s s'" "own_closed s" "own_excl s" "own_views s" "slot_handles s"
  shows "own_closed s'"
  using assms(2) by cases (use assms(3) in \<open>auto simp: own_closed_def\<close>)

lemma own_closed_effect:
  fixes s :: "('w::len word, 'a) slot_sys"
  assumes "supported TYPE('w)" "slot_effect s s'" "own_closed s" "own_excl s" "own_views s" "slot_handles s"
  shows "own_closed s'"
  using assms(2)
proof cases
  case sender_moves
  then show ?thesis by (rule own_closed_sender_move [OF assms(1) _ assms(3) assms(4) assms(5) assms(6)])
next
  case sender_waits
  then show ?thesis by (rule own_closed_sender_wait [OF assms(1) _ assms(3) assms(4) assms(5) assms(6)])
next
  case receiver_moves
  then show ?thesis by (rule own_closed_receiver_move [OF assms(1) _ assms(3) assms(4) assms(5) assms(6)])
next
  case receiver_waits
  then show ?thesis by (rule own_closed_receiver_wait [OF assms(1) _ assms(3) assms(4) assms(5) assms(6)])
next
  case slot_ends
  then show ?thesis by (rule own_closed_slot_end [OF assms(1) _ assms(3) assms(4) assms(5) assms(6)])
qed

section \<open>The invariant of every run\<close>

lemma slot_inv_effect:
  fixes s :: "('w::len word, 'a) slot_sys"
  assumes "supported TYPE('w)" "slot_effect s s'" "slot_inv s"
  shows "slot_inv s'"
proof -
  have live: "s_dropped s = None" using dropped_stops [OF assms(3) _ assms(2)] by (cases "s_dropped s") auto
  then have i: "slot_handles s" "own_closed s" "own_excl s" "own_views s" "own_know s" "own_log s"
    using assms(3) by (simp_all add: slot_inv_def)
  have win: "committed w \<Longrightarrow> committed (s_recv s)" if "(w, f) \<in> set (s_window s)" for w f
    using own_viewsD(2) [OF i(4) that] by (simp add: entry_ok_def)
  have excl: "own_excl s'" if "s_dropped s' = None"
    by (rule own_excl_effect [OF assms(1,2) i(3) that win])
  have "own_excl s' \<and> own_views s' \<and> own_know s' \<and> own_log s'" if "s_dropped s' = None"
    using excl [OF that] own_views_effect [OF assms(1,2) i(3,4,5,1) that]
      own_know_effect [OF assms(1,2) i(3,4,5) that] own_log_effect [OF assms(2) i(6,3) that] by blast
  then show ?thesis
    using slot_handles_effect [OF assms(2) i(1)] own_closed_effect [OF assms(1,2) i(2,3,4,1)]
      drop_log [OF assms(2) i(6,3,1) live] unfolding slot_inv_def by blast
qed

lemma slot_reachable_inv:
  fixes s :: "('w::len word, 'a) slot_sys"
  assumes "slot_reachable s" "supported TYPE('w)"
  shows "slot_inv s"
  using assms
proof induction
  case (slot_init n)
  then show ?case by (rule slot_inv_init)
next
  case (slot_next s a s')
  then show ?case using slot_step_effect slot_inv_effect by blast
qed

section \<open>No step faults\<close>

lemma slot_spin_no_fault:
  fixes w :: "'w::len word"
  assumes "n \<noteq> 0 \<or> send_sleeping w"
  shows "slot_spin_goto t h n d w s \<noteq> SFault f"
  using assms by (auto simp: slot_spin_goto_def slot_spin_check_cases split: slot_spin.splits if_splits)

lemma slot_sender_no_fault:
  fixes s :: "('w::len word, 'a) slot_sys"
  assumes "supported TYPE('w)" "own_excl s" "own_know s"
  shows "sender_step t s (s_threads s t) \<noteq> SFault f"
proof (cases "s_threads s t")
  case (SWrite h b d)
  have t: "holding (s_threads s t)" "\<not> written (s_threads s t)" using SWrite by simp_all
  have "s_slot s = None" using own_exclD(5) [OF assms(2) t(1)] t(2) by auto
  moreover have "race_free (sender_agent t) 0 (s_mem s)"
    using assms(3) SWrite by (auto simp: own_know_def race_free_knows dest: spec [of _ t])
  ultimately show ?thesis using SWrite by (simp add: slot_write_step_def)
next
  case (SSpin h n d)
  then show ?thesis
    using assms(1) by (simp add: slot_spin_rmw_def Let_def slot_spin_no_fault)
qed (auto simp: slot_reserve_step_def slot_fence_step_def slot_commit_step_def slot_sleep_step_def slot_torch_step_def
    slot_sender_dead_step_def Let_def split: slot_reserve.splits)

lemma slot_receiver_no_fault:
  assumes "own_excl s" "own_know s"
  shows "receiver_step s (s_receiver s) \<noteq> SFault f"
proof (cases "s_receiver s")
  case (RRead c)
  have t: "taking (s_receiver s)" "unread (s_receiver s)" using RRead by simp_all
  have "s_slot s \<noteq> None" using own_exclD(11) [OF assms(1) t(1)] t(2) by simp
  moreover have "race_free receiver_agent 0 (s_mem s)"
    using assms(2) RRead by (simp add: own_know_def race_free_knows)
  ultimately show ?thesis using RRead by (auto simp: slot_read_step_def)
qed (auto simp: slot_clear_step_def slot_release_step_def slot_publish_step_def slot_announce_step_def
    slot_recv_sleep_step_def slot_receiver_dead_step_def Let_def)

lemma slot_drop_no_fault:
  assumes "own_excl s" "own_views s" "own_know s"
  shows "drop_slot_inner s \<noteq> SFault f"
proof -
  have "race_free receiver_agent 0 (load_acquire receiver_agent RecvWord (s_mem s)) \<and> s_slot s \<noteq> None"
    if "committed (s_recv s)"
    using that assms(3) own_exclD(6) [OF assms(1)] load_acquire_knows [OF own_viewsD(1) [OF assms(2)]]
    by (simp add: own_know_def race_free_knows)
  then show ?thesis by (auto simp: drop_slot_inner_def committed_def Let_def split: option.splits)
qed

lemma slot_no_fault:
  fixes s :: "('w::len word, 'a) slot_sys"
  assumes "supported TYPE('w)" "slot_inv s"
  shows "slot_step a s \<noteq> SFault f"
proof (cases "s_dropped s")
  case (Some xs)
  then have d: "s_handles s = {}" "s_receiver s = RGone" "\<And>t. s_ready (s_threads s t)"
    using assms(2) by (auto simp: slot_inv_def)
  have "sender_step t s (s_threads s t) \<noteq> SFault f" for t using d(3) [of t] by (cases "s_threads s t") auto
  then show ?thesis using d Some
    by (cases a) (auto simp: slot_step_def slot_start_def slot_clone_sender_def slot_drop_sender_def drop_slot_inner_def
        slot_spin_load_def wake_receiver_step_def slot_spin_no_fault split: sender_pc.splits slot_call.splits)
next
  case None
  then have "own_excl s" "own_views s" "own_know s" using assms(2) by (simp_all add: slot_inv_def)
  then show ?thesis
    using slot_sender_no_fault [OF assms(1), of s _ f] slot_receiver_no_fault [of s f] slot_drop_no_fault [of s f]
    by (cases a) (auto simp: slot_step_def slot_start_def slot_clone_sender_def slot_drop_sender_def slot_load_step_def
        slot_spin_load_def wake_receiver_step_def wake_senders_step_def slot_spin_no_fault Let_def
        split: sender_pc.splits slot_call.splits slot_recv_call.splits receiver_pc.splits prod.splits)
qed

end
