(* ===== verification/Slot_Sleep.thy ===== *)
theory Slot_Sleep
  imports Slot_Safe
begin

text \<open>
  Wake-ups of the slot: a sleeping receiver is never forgotten, a sleeping sender is not forgotten while the
  receiver lives, and what becomes of one that is still asleep after that.
\<close>

section \<open>The sleeping receiver\<close>

fun waking :: "('w, 'a) sender_pc \<Rightarrow> bool" where
  "waking (SWakeReceiver h b) = True"
| "waking SDeadWake = True"
| "waking _ = False"

definition receiver_sleep :: "('w, 'a) slot_sys \<Rightarrow> bool" where
  "receiver_sleep s \<longleftrightarrow> (receiver_asleep (s_receiver s) \<longrightarrow>
     s_recv s = RECV_SLEEPING \<or> (\<exists>t. waking (s_threads s t)))"

lemma waking_wake [simp]: "waking (wake_sender_pc p) = waking p"
  by (cases p) auto

lemma receiver_asleep_simps [simp]:
  "receiver_asleep RAsleep" "\<not> receiver_asleep (RLoad c)" "\<not> receiver_asleep (RRet r)" "\<not> receiver_asleep RDead"
  "\<not> receiver_asleep (RClear c)" "\<not> receiver_asleep (RRead c)" "\<not> receiver_asleep (RFence c x)"
  "\<not> receiver_asleep (RPublish c x)" "\<not> receiver_asleep (RWakeSender c x)" "\<not> receiver_asleep RAnnounce"
  "\<not> receiver_asleep RSleep" "\<not> receiver_asleep RDeadWake" "\<not> receiver_asleep RGone" "\<not> receiver_asleep RIdle"
  by (simp_all add: receiver_asleep_def)

lemma receiver_sleep_goto:
  assumes "receiver_sleep s" "s_threads s' = s_threads s" "s_receiver s' = s_receiver s"
    and "s_recv s' = s_recv s" "\<not> waking (s_threads s t)"
  shows "receiver_sleep (s_goto t q s')"
proof (cases "receiver_asleep (s_receiver s) \<and> s_recv s \<noteq> RECV_SLEEPING")
  case True
  then obtain u where u: "waking (s_threads s u)" using assms(1) by (auto simp: receiver_sleep_def)
  then have "u \<noteq> t" using assms(5) by auto
  then have "waking (s_threads (s_goto t q s') u)" using u assms(2) by simp
  then show ?thesis unfolding receiver_sleep_def by blast
qed (use assms in \<open>auto simp: receiver_sleep_def\<close>)

lemma receiver_sleep_write:
  assumes "receiver_sleep s" "\<not> waking (s_threads s t)" "recv_sleeping (s_recv s) \<Longrightarrow> waking q"
  shows "receiver_sleep (s_goto t q (s_rmw_recv ord a w s))"
proof (cases "recv_sleeping (s_recv s)")
  case True
  then have "waking (s_threads (s_goto t q (s_rmw_recv ord a w s)) t)" using assms(3) by simp
  then show ?thesis unfolding receiver_sleep_def by blast
next
  case False
  then have "s_recv s \<noteq> RECV_SLEEPING" by auto
  show ?thesis
  proof (cases "receiver_asleep (s_receiver s)")
    case True
    then obtain u where u: "waking (s_threads s u)" using assms(1) \<open>s_recv s \<noteq> RECV_SLEEPING\<close> by (auto simp: receiver_sleep_def)
    then have "u \<noteq> t" using assms(2) by auto
    then have "waking (s_threads (s_goto t q (s_rmw_recv ord a w s)) u)" using u by simp
    then show ?thesis unfolding receiver_sleep_def by blast
  qed (simp add: receiver_sleep_def)
qed

lemma receiver_sleep_awake: "\<not> receiver_asleep (s_receiver s) \<Longrightarrow> receiver_sleep s"
  by (simp add: receiver_sleep_def)

lemma receiver_sleep_sender_move:
  assumes "sender_move s s'" "receiver_sleep s"
  shows "receiver_sleep s'"
  using assms(1)
proof cases
  case (e_call t p h b d)
  then show ?thesis by (cases p) (auto intro!: receiver_sleep_goto [OF assms(2)])
next
  case (e_clone t p h h')
  then show ?thesis by (cases p) (auto intro!: receiver_sleep_goto [OF assms(2)])
next
  case (e_drop t p h)
  then show ?thesis by (cases p) (auto intro!: receiver_sleep_goto [OF assms(2)])
next
  case (e_commit t h b)
  then show ?thesis by (auto intro!: receiver_sleep_write [OF assms(2)])
qed (auto intro!: receiver_sleep_goto [OF assms(2)])

lemma receiver_sleep_sender_wait:
  assumes "sender_wait s s'" "receiver_sleep s"
  shows "receiver_sleep s'"
  using assms(1)
proof cases
  case (e_wake_receiver t p h b q woken)
  then show ?thesis by (intro receiver_sleep_awake) auto
next
  case (e_dead t)
  then show ?thesis by (auto intro!: receiver_sleep_write [OF assms(2)])
qed (auto intro!: receiver_sleep_goto [OF assms(2)])

lemma receiver_sleep_receiver_move:
  assumes "receiver_move s s'" "receiver_sleep s"
  shows "receiver_sleep s'"
  using assms(1) by cases (intro receiver_sleep_awake, auto split: option.splits)+

lemma receiver_sleep_receiver_wait:
  assumes "receiver_wait s s'" "receiver_sleep s"
  shows "receiver_sleep s'"
  using assms(1)
proof cases
  case e_recv_sleep
  then show ?thesis by (auto simp: receiver_sleep_def)
qed (intro receiver_sleep_awake, auto)+

lemma receiver_sleep_slot_end:
  assumes "slot_end s s'" "receiver_sleep s"
  shows "receiver_sleep s'"
  using assms(1) by cases (intro receiver_sleep_awake, auto)+

lemma receiver_sleep_effect:
  assumes "slot_effect s s'" "receiver_sleep s"
  shows "receiver_sleep s'"
  using assms(1)
proof cases
  case sender_moves
  then show ?thesis by (rule receiver_sleep_sender_move [OF _ assms(2)])
next
  case sender_waits
  then show ?thesis by (rule receiver_sleep_sender_wait [OF _ assms(2)])
next
  case receiver_moves
  then show ?thesis by (rule receiver_sleep_receiver_move [OF _ assms(2)])
next
  case receiver_waits
  then show ?thesis by (rule receiver_sleep_receiver_wait [OF _ assms(2)])
next
  case slot_ends
  then show ?thesis by (rule receiver_sleep_slot_end [OF _ assms(2)])
qed

section \<open>The sleeping senders\<close>

fun torch :: "('w, 'a) sender_pc \<Rightarrow> bool" where
  "torch (STorch h d) = True"
| "torch _ = False"

fun waking_senders :: "'a receiver_pc \<Rightarrow> bool" where
  "waking_senders (RWakeSender c x) = True"
| "waking_senders _ = False"

fun sleeps_on :: "('w, 'a) sender_pc \<Rightarrow> 'w option" where
  "sleeps_on (SSleep h w d) = Some w"
| "sleeps_on _ = None"

definition sender_sleep :: "('w::len word, 'a) slot_sys \<Rightarrow> bool" where
  "sender_sleep s \<longleftrightarrow>
     (\<forall>t w. sleeps_on (s_threads s t) = Some w \<longrightarrow> send_sleeping w) \<and>
     (\<forall>t. sender_asleep (s_threads s t) \<and> \<not> gone (s_receiver s) \<longrightarrow>
        send_sleeping (s_send s) \<or> waking_senders (s_receiver s) \<or> (\<exists>u. torch (s_threads s u)))"

lemma futex_half_sleeping:
  fixes v w :: "'w::len word"
  assumes "supported TYPE('w)" "futex_half v = futex_half w"
  shows "send_sleeping v = send_sleeping w"
proof (cases "is_x86_64 TYPE('w)")
  case True
  then have n: "LENGTH('w) = 64" by (simp add: is_x86_64_def)
  have "bit (futex_half v) 30 = bit (futex_half w) 30" using assms(2) by simp
  then show ?thesis using True n by (simp add: futex_half_def send_sleeping_bit assms(1) bit_simps)
next
  case False
  then have n: "LENGTH('w) = 32" using assms(1) by (auto simp: is_x86_64_def supported_def)
  have "bit (futex_half v) 30 = bit (futex_half w) 30" using assms(2) by simp
  then show ?thesis using False n by (simp add: futex_half_def send_sleeping_bit assms(1) bit_simps)
qed

lemma sender_sleep_goto:
  assumes "sender_sleep s" "\<not> sender_asleep q \<or> send_sleeping (s_send s')" "\<And>w. sleeps_on q = Some w \<Longrightarrow> send_sleeping w"
    and "s_threads s' = s_threads s" "send_sleeping (s_send s) \<Longrightarrow> send_sleeping (s_send s')"
    and "torch (s_threads s t) \<Longrightarrow> send_sleeping (s_send s') \<or> torch q"
    and "gone (s_receiver s') = gone (s_receiver s)" "waking_senders (s_receiver s) \<Longrightarrow> waking_senders (s_receiver s')"
  shows "sender_sleep (s_goto t q s')"
proof -
  have old: "sleeps_on (s_threads s u) = Some w \<Longrightarrow> send_sleeping w" for u w
    using assms(1) by (auto simp: sender_sleep_def)
  have "send_sleeping (s_send s') \<or> waking_senders (s_receiver s') \<or> (\<exists>v. torch (((s_threads s')(t := q)) v))"
    if a: "sender_asleep (((s_threads s')(t := q)) u)" "\<not> gone (s_receiver s')" for u
  proof (cases "u = t")
    case True
    then show ?thesis using a assms(2) by simp
  next
    case False
    then have "sender_asleep (s_threads s u)" "\<not> gone (s_receiver s)" using a assms(4,7) by simp_all
    then consider "send_sleeping (s_send s)" | "waking_senders (s_receiver s)" | v where "torch (s_threads s v)"
      using assms(1) unfolding sender_sleep_def by blast
    then show ?thesis
    proof cases
      case 3
      then show ?thesis using assms(4,6) by (cases "v = t") (auto simp: fun_upd_apply intro: exI [of _ v])
    qed (use assms(5,8) in auto)
  qed
  moreover have "send_sleeping w" if "sleeps_on (((s_threads s')(t := q)) u) = Some w" for u w
    using that old assms(3,4) by (simp split: if_splits)
  ultimately show ?thesis unfolding sender_sleep_def s_goto_simps by blast
qed

lemma sender_sleep_receiver:
  assumes "sender_sleep s" "s_threads s' = s_threads s" "s_send s' = s_send s"
    and "gone (s_receiver s) \<Longrightarrow> gone (s_receiver s')" "waking_senders (s_receiver s) \<Longrightarrow> waking_senders (s_receiver s')"
  shows "sender_sleep s'"
  using assms unfolding sender_sleep_def by metis

lemma wake_one_torch:
  assumes "wake_allowed n (\<lambda>t. sender_asleep (s_threads s t)) k W" "k \<noteq> 0"
    and "sender_asleep (s_threads s t)" "t < n"
  shows "\<exists>u. torch (s_threads (wake_senders W s) u)"
proof -
  have "W \<noteq> []" using wake_allowed_none [of n _ k t] assms by auto
  then obtain u where u: "u \<in> set W" by (cases W) auto
  then have "sender_asleep (s_threads s u)" using wake_allowed_asleep [OF assms(1)] by blast
  then have "torch (wake_sender_pc (s_threads s u))" by (cases "s_threads s u") auto
  then show ?thesis using u by auto
qed

lemma sender_sleep_sender_move:
  fixes s :: "('w::len word, 'a) slot_sys"
  assumes "supported TYPE('w)" "sender_move s s'" "sender_sleep s" "slot_handles s"
  shows "sender_sleep s'"
  using assms(2)
proof cases
  case (e_call t p h b d)
  then show ?thesis by (cases p) (auto intro!: sender_sleep_goto [OF assms(3)])
next
  case (e_clone t p h h')
  then show ?thesis by (cases p) (auto intro!: sender_sleep_goto [OF assms(3)])
next
  case (e_drop t p h)
  then show ?thesis by (cases p) (auto intro!: sender_sleep_goto [OF assms(3)])
next
  case (e_refused t h b d)
  then show ?thesis using slot_try_reserve_cases(3) [OF assms(1), of "s_send s"] by (auto intro!: sender_sleep_goto [OF assms(3)])
next
  case (e_busy t h b d)
  then show ?thesis using slot_try_reserve_cases(3) [OF assms(1), of "s_send s"] by (auto intro!: sender_sleep_goto [OF assms(3)])
next
  case (e_reserve t h b d)
  then show ?thesis using slot_try_reserve_cases(3) [OF assms(1), of "s_send s"] by (auto intro!: sender_sleep_goto [OF assms(3)])
qed (auto intro!: sender_sleep_goto [OF assms(3)])

lemma sender_sleep_sender_wait:
  fixes s :: "('w::len word, 'a) slot_sys"
  assumes "supported TYPE('w)" "sender_wait s s'" "sender_sleep s" "slot_handles s"
  shows "sender_sleep s'"
  using assms(2)
proof cases
  case (e_wake_receiver t p h b q woken)
  then show ?thesis by (cases "s_receiver s") (auto intro!: sender_sleep_goto [OF assms(3)])
next
  case (e_spin t h n d s1 q w n')
  then show ?thesis using assms(1) by (auto intro!: sender_sleep_goto [OF assms(3)])
next
  case (e_spin_dead t h n d s1 w)
  then show ?thesis using assms(1) by (auto intro!: sender_sleep_goto [OF assms(3)])
next
  case (e_sleep t h w d)
  have "send_sleeping w" using assms(3) e_sleep(2) by (auto simp: sender_sleep_def dest: spec [of _ t])
  then have "send_sleeping (s_send s)" using futex_half_sleeping [OF assms(1) e_sleep(4)] by simp
  then show ?thesis using e_sleep by (auto intro!: sender_sleep_goto [OF assms(3)])
next
  case (e_torch t h d)
  then show ?thesis using assms(1) by (auto intro!: sender_sleep_goto [OF assms(3)])
qed (auto intro!: sender_sleep_goto [OF assms(3)])

lemma sender_sleep_receiver_move:
  fixes s :: "('w::len word, 'a) slot_sys"
  assumes "supported TYPE('w)" "receiver_move s s'" "sender_sleep s" "slot_handles s"
  shows "sender_sleep s'"
  using assms(2)
proof cases
  case (e_recv_call q)
  then show ?thesis using ready_quiet(2) [of "s_receiver s"]
    by (intro sender_sleep_receiver [OF assms(3)]) (cases "s_receiver s"; auto)+
next
  case (e_load c k w f s1 q)
  then show ?thesis by (auto intro!: sender_sleep_receiver [OF assms(3)] split: option.splits)
next
  case (e_publish c x)
  show ?thesis
  proof (cases "send_sleeping (s_send s)")
    case False
    then show ?thesis using e_publish assms(3) unfolding sender_sleep_def by auto
  qed (use e_publish assms(3) in \<open>auto simp: sender_sleep_def\<close>)
qed (auto intro!: sender_sleep_receiver [OF assms(3)])

lemma sender_sleep_receiver_wait:
  fixes s :: "('w::len word, 'a) slot_sys"
  assumes "supported TYPE('w)" "receiver_wait s s'" "sender_sleep s" "slot_handles s"
  shows "sender_sleep s'"
  using assms(2)
proof cases
  case (e_wake_senders r c x q k W)
  have kn: "k \<noteq> 0" using e_wake_senders(3) u32_max_nonzero by auto
  have still: "sender_asleep (s_threads s t) \<and> t < s_n s" if "sender_asleep (s_threads (wake_senders W s) t)" for t
  proof -
    have "sender_asleep (s_threads s t)" using that by (cases "s_threads s t") (auto split: if_splits)
    then show ?thesis using assms(4) by (cases "t < s_n s") (auto simp: slot_handles_def)
  qed
  have t: "\<exists>u. torch (s_threads s' u)" if "sender_asleep (s_threads s' t)" for t
    using wake_one_torch [OF e_wake_senders(4) kn] still [of t] that unfolding e_wake_senders(1) r_goto_simps by blast
  have "sleeps_on (wake_sender_pc p) = sleeps_on p" for p :: "('w word, 'a) sender_pc" by (cases p) auto
  then have "sleeps_on (s_threads s' u) = sleeps_on (s_threads s u)" for u
    unfolding e_wake_senders(1) by simp
  then show ?thesis using assms(3) t unfolding sender_sleep_def by metis
next
  case e_recv_dead
  then show ?thesis using assms(3) by (auto simp: sender_sleep_def)
qed (auto intro!: sender_sleep_receiver [OF assms(3)])

lemma sender_sleep_slot_end:
  fixes s :: "('w::len word, 'a) slot_sys"
  assumes "supported TYPE('w)" "slot_end s s'" "sender_sleep s" "slot_handles s"
  shows "sender_sleep s'"
  using assms(2) by cases (use assms(3) in \<open>auto simp: sender_sleep_def\<close>)

lemma sender_sleep_effect:
  fixes s :: "('w::len word, 'a) slot_sys"
  assumes "supported TYPE('w)" "slot_effect s s'" "sender_sleep s" "slot_handles s"
  shows "sender_sleep s'"
  using assms(2)
proof cases
  case sender_moves
  then show ?thesis by (rule sender_sleep_sender_move [OF assms(1) _ assms(3) assms(4)])
next
  case sender_waits
  then show ?thesis by (rule sender_sleep_sender_wait [OF assms(1) _ assms(3) assms(4)])
next
  case receiver_moves
  then show ?thesis by (rule sender_sleep_receiver_move [OF assms(1) _ assms(3) assms(4)])
next
  case receiver_waits
  then show ?thesis by (rule sender_sleep_receiver_wait [OF assms(1) _ assms(3) assms(4)])
next
  case slot_ends
  then show ?thesis by (rule sender_sleep_slot_end [OF assms(1) _ assms(3) assms(4)])
qed

lemma slot_sleep_reachable:
  fixes s :: "('w::len word, 'a) slot_sys"
  assumes "slot_reachable s" "supported TYPE('w)"
  shows "receiver_sleep s \<and> sender_sleep s"
  using assms
proof induction
  case (slot_init n)
  then show ?case by (simp add: receiver_sleep_def sender_sleep_def mpsc_def)
next
  case (slot_next s a s')
  have e: "slot_effect s s'" using slot_step_effect slot_next by blast
  have "slot_handles s" using slot_reachable_inv [OF slot_next.hyps(1) slot_next.prems] by (simp add: slot_inv_def)
  then show ?case
    using receiver_sleep_effect [OF e] sender_sleep_effect [OF slot_next.prems e] slot_next.IH slot_next.prems by blast
qed

section \<open>A sleeper the receiver leaves behind\<close>

lemma sender_step_frame:
  assumes "sender_step u s p = SNext s'" "u \<noteq> t"
  shows "s_threads s' t = s_threads s t \<and> s_receiver s' = s_receiver s"
  using assms
  by (cases p) (auto simp: slot_reserve_step_def slot_fence_step_def slot_write_step_def slot_commit_step_def
      slot_spin_rmw_def slot_spin_goto_def slot_sleep_step_def slot_torch_step_def slot_sender_dead_step_def Let_def
      split: if_splits slot_reserve.splits slot_spin.splits)

lemma forgotten_sender_step:
  assumes "slot_step a s = SNext s'" "s_receiver s = RGone" "s_threads s t = SAsleep h d" "a \<noteq> SInterrupt t"
  shows "s_threads s' t = SAsleep h d \<and> s_receiver s' = RGone"
proof (cases a)
  case (SStart u call)
  then have "u \<noteq> t" using assms(1,3) by (auto simp: slot_step_def split: if_splits)
  then show ?thesis using SStart assms(1-3)
    by (auto simp: slot_step_def slot_start_def slot_clone_sender_def slot_drop_sender_def Let_def
        split: if_splits slot_call.splits)
next
  case (SStep u)
  then have "u \<noteq> t" using assms(1,3) by (auto simp: slot_step_def split: if_splits)
  moreover have "sender_step u s (s_threads s u) = SNext s'"
    using SStep assms(1) by (simp add: slot_step_def split: if_splits)
  ultimately show ?thesis using sender_step_frame assms(2,3) by metis
next
  case (SLoad u w)
  then have "u \<noteq> t" using assms(1,3) by (auto simp: slot_step_def split: if_splits)
  then show ?thesis using SLoad assms(1-3)
    by (auto simp: slot_step_def slot_spin_load_def slot_spin_goto_def split: if_splits sender_pc.splits slot_spin.splits)
next
  case (SWoken u woken)
  then have "u \<noteq> t" using assms(1,3) by (auto simp: slot_step_def split: if_splits)
  then show ?thesis using SWoken assms(1-3)
    by (auto simp: slot_step_def wake_receiver_step_def wake_allowed_def split: if_splits sender_pc.splits)
next
  case (SInterrupt u)
  then show ?thesis using assms by (auto simp: slot_step_def split: if_splits sender_pc.splits)
qed (use assms in \<open>auto simp: slot_step_def drop_slot_inner_def Let_def split: if_splits option.splits\<close>)

lemma forgotten_sender_exec:
  assumes "slot_exec as s = SNext s'" "s_receiver s = RGone" "s_threads s t = SAsleep h d" "SInterrupt t \<notin> set as"
  shows "s_threads s' t = SAsleep h d \<and> s_receiver s' = RGone"
  using assms
proof (induction as arbitrary: s)
  case (Cons a as)
  then obtain s1 where s1: "slot_step a s = SNext s1" "slot_exec as s1 = SNext s'"
    by (auto split: slot_outcome.splits)
  then show ?case using forgotten_sender_step [OF s1(1) Cons.prems(2,3)] Cons by auto
qed simp

end
