(* ===== verification/Slot_History.thy ===== *)
theory Slot_History
  imports Slot_Safe
begin

text \<open>
  What the callers of the slot observe over a run: the value each \<^verbatim>\<open>send\<close> was called with, the
  order in which those calls took effect, and the values the calls of \<^verbatim>\<open>recv\<close> returned.  The
  history is read off the calls, the returns and the commits of a run; the state of the channel is only
  compared with it.
\<close>

section \<open>The history of a run\<close>

text \<open>For each thread the value of its latest call and whether the call has taken effect; the values
  of the calls that took effect, in that order; and the values that were returned.\<close>

record 'a slot_history =
  calls :: "nat \<Rightarrow> ('a \<times> bool) option"
  commits :: "'a list"
  got :: "'a list"

definition no_history :: "'a slot_history" where
  "no_history = \<lparr>calls = (\<lambda>_. None), commits = [], got = []\<rparr>"

text \<open>The argument of a call that sends, the thread whose commit a step is, and the value that a
  step returns to the caller of \<^verbatim>\<open>recv\<close>.\<close>

fun send_call :: "('w, 'a) slot_action \<Rightarrow> (nat \<times> 'a) option" where
  "send_call (SStart t (CTrySend h d)) = Some (t, d)"
| "send_call (SStart t (CSend h d)) = Some (t, d)"
| "send_call _ = None"

fun commit_of :: "('w, 'a) slot_action \<Rightarrow> ('w, 'a) slot_sys \<Rightarrow> nat option" where
  "commit_of (SStep t) s = (case s_threads s t of SCommit h b \<Rightarrow> Some t | _ \<Rightarrow> None)"
| "commit_of _ s = None"

fun handed :: "'a receiver_pc \<Rightarrow> 'a list" where
  "handed (RRet (SlotGot x)) = [x]"
| "handed _ = []"

definition returned :: "('w, 'a) slot_sys \<Rightarrow> ('w, 'a) slot_sys \<Rightarrow> 'a list" where
  "returned s s' = (if r_ready (s_receiver s) then [] else handed (s_receiver s'))"

definition take_effect :: "nat \<Rightarrow> 'a slot_history \<Rightarrow> 'a slot_history" where
  "take_effect t h =
     (case calls h t of
        None \<Rightarrow> h
      | Some (d, _) \<Rightarrow> h\<lparr>calls := (calls h)(t \<mapsto> (d, True)), commits := commits h @ [d]\<rparr>)"

definition observe :: "('w, 'a) slot_action \<Rightarrow> ('w, 'a) slot_sys \<Rightarrow> ('w, 'a) slot_sys \<Rightarrow> 'a slot_history \<Rightarrow> 'a slot_history" where
  "observe a s s' h =
     (let h = (case send_call a of
            Some (t, d) \<Rightarrow> h\<lparr>calls := (calls h)(t \<mapsto> (d, False))\<rparr>
          | None \<Rightarrow> (case commit_of a s of Some t \<Rightarrow> take_effect t h | None \<Rightarrow> h))
      in h\<lparr>got := got h @ returned s s'\<rparr>)"

fun slot_run :: "('w::len word, 'a) slot_action list \<Rightarrow> ('w word, 'a) slot_sys \<times> 'a slot_history \<Rightarrow>
    (('w word, 'a) slot_sys \<times> 'a slot_history) option" where
  "slot_run [] p = Some p"
| "slot_run (a # as) (s, h) =
     (case slot_step a s of SNext s' \<Rightarrow> slot_run as (s', observe a s s' h) | _ \<Rightarrow> None)"

text \<open>Values that took effect and were not returned yet: the one the receiver has in hand, the one
  in the cell, or what the drop of the channel has dropped.\<close>

fun in_receiver :: "'a receiver_pc \<Rightarrow> 'a list" where
  "in_receiver (RFence c x) = [x]"
| "in_receiver (RPublish c x) = [x]"
| "in_receiver (RWakeSender c x) = [x]"
| "in_receiver _ = []"

definition in_cell :: "('w, 'a) slot_sys \<Rightarrow> 'a list" where
  "in_cell s = (if committed (s_recv s) \<or> unread (s_receiver s)
     then (case s_slot s of None \<Rightarrow> [] | Some x \<Rightarrow> [x]) else [])"

definition in_flight :: "('w, 'a) slot_sys \<Rightarrow> 'a list" where
  "in_flight s = (case s_dropped s of None \<Rightarrow> in_receiver (s_receiver s) @ in_cell s | Some xs \<Rightarrow> xs)"

section \<open>The history agrees with the state\<close>

fun call_ok :: "('a \<times> bool) option \<Rightarrow> 'a option \<Rightarrow> ('w, 'a) sender_pc \<Rightarrow> bool" where
  "call_ok c b (SReserve h k d) \<longleftrightarrow> c = Some (d, False)"
| "call_ok c b (SFence h k d) \<longleftrightarrow> c = Some (d, False)"
| "call_ok c b (SWrite h k d) \<longleftrightarrow> c = Some (d, False)"
| "call_ok c b (SCommit h k) \<longleftrightarrow> (\<exists>d. b = Some d \<and> c = Some (d, False))"
| "call_ok c b (SWakeReceiver h k) \<longleftrightarrow> (\<exists>d. c = Some (d, True))"
| "call_ok c b (SSpin h n d) \<longleftrightarrow> c = Some (d, False)"
| "call_ok c b (SSleep h w d) \<longleftrightarrow> c = Some (d, False)"
| "call_ok c b (SAsleep h d) \<longleftrightarrow> c = Some (d, False)"
| "call_ok c b (STorch h d) \<longleftrightarrow> c = Some (d, False)"
| "call_ok c b (SRet SlotSent) \<longleftrightarrow> (\<exists>d. c = Some (d, True))"
| "call_ok c b (SRet (SlotDisconnected d)) \<longleftrightarrow> c = Some (d, False)"
| "call_ok c b (SRet (SlotFull d)) \<longleftrightarrow> c = Some (d, False)"
| "call_ok c b _ \<longleftrightarrow> True"

definition history_inv :: "('w, 'a) slot_sys \<Rightarrow> 'a slot_history \<Rightarrow> bool" where
  "history_inv s h \<longleftrightarrow> commits h = got h @ in_flight s \<and> (\<forall>t. call_ok (calls h t) (s_slot s) (s_threads s t))"

lemma history_invD:
  assumes "history_inv s h"
  shows "commits h = got h @ in_flight s" "call_ok (calls h t) (s_slot s) (s_threads s t)"
  using assms by (auto simp: history_inv_def)

lemma history_init: "history_inv (mpsc n) no_history"
  by (simp add: history_inv_def mpsc_def no_history_def in_flight_def in_cell_def committed_def)

lemma call_ok_wake [simp]: "call_ok c b (wake_sender_pc p) = call_ok c b p"
  by (cases p) simp_all

lemma call_ok_cell:
  assumes "\<not> written p"
  shows "call_ok c b p = call_ok c b' p"
  using assms by (cases "(c, b, p)" rule: call_ok.cases) simp_all

lemma returned_same: "s_receiver s' = s_receiver s \<or> s_receiver s' = RLoad c \<Longrightarrow> returned s s' = []"
  by (cases "(s_receiver s)" rule: handed.cases) (auto simp: returned_def)

lemma observe_quiet:
  "send_call a = None \<Longrightarrow> commit_of a s = None \<Longrightarrow> returned s s' = [] \<Longrightarrow> observe a s s' h = h"
  by (simp add: observe_def)

text \<open>A step of a sender that neither calls nor commits nor touches the cell.\<close>

lemma history_sender:
  assumes "history_inv s h" "s' = s_goto t q s1" "send_call a = None" "commit_of a s = None"
    "s_threads s1 = s_threads s" "s_slot s1 = s_slot s" "committed (s_recv s1) = committed (s_recv s)"
    "s_dropped s1 = s_dropped s"
    "s_receiver s1 = s_receiver s \<or> s_receiver s = RAsleep \<and> s_receiver s1 = RLoad (Some 0)"
    "call_ok (calls h t) (s_slot s) (s_threads s t) \<Longrightarrow> call_ok (calls h t) (s_slot s) q"
  shows "history_inv s' (observe a s s' h)"
proof -
  have "returned s s' = []" using assms(2,9) by (intro returned_same [where c = "Some 0"]) auto
  then have h: "observe a s s' h = h" using assms(3,4) by (intro observe_quiet)
  have "in_receiver (s_receiver s') = in_receiver (s_receiver s)" "in_cell s' = in_cell s" "s_dropped s' = s_dropped s"
    using assms(2,6-9) by (auto simp: in_cell_def)
  then have "in_flight s' = in_flight s" by (cases "s_dropped s") (simp_all add: in_flight_def)
  moreover have "call_ok (calls h u) (s_slot s') (s_threads s' u)" for u
    using history_invD(2) [OF assms(1), of u] assms(2,5,6,10) by auto
  ultimately show ?thesis unfolding h history_inv_def using history_invD(1) [OF assms(1)] by simp
qed

text \<open>A step of the receiver that does not touch the cell; it may return the value it has in hand.\<close>

lemma history_receiver:
  assumes "history_inv s h" "s' = r_goto q s1" "send_call a = None" "commit_of a s = None"
    "s_threads s1 = (\<lambda>u. if u \<in> W then wake_sender_pc (s_threads s u) else s_threads s u)"
    "s_slot s1 = s_slot s" "committed (s_recv s1) \<or> unread q \<longleftrightarrow> committed (s_recv s) \<or> unread (s_receiver s)"
    "s_dropped s1 = s_dropped s" "s_dropped s = None"
    "(if r_ready (s_receiver s) then [] else handed q) @ in_receiver q = in_receiver (s_receiver s)"
  shows "history_inv s' (observe a s s' h)"
proof -
  have r: "returned s s' @ in_receiver q = in_receiver (s_receiver s)"
    using assms(2,10) by (simp add: returned_def split: if_splits)
  have h: "observe a s s' h = h\<lparr>got := got h @ returned s s'\<rparr>" using assms(3,4) by (simp add: observe_def)
  have "in_cell s' = in_cell s" using assms(2,6,7) by (auto simp: in_cell_def)
  then have "returned s s' @ in_flight s' = in_flight s"
    using r assms(2,8,9) by (simp add: in_flight_def)
  moreover have "call_ok (calls h u) (s_slot s') (s_threads s' u)" for u
    using history_invD(2) [OF assms(1), of u] assms(2,5,6) by auto
  ultimately show ?thesis unfolding h history_inv_def using history_invD(1) [OF assms(1)] by simp
qed

lemmas history_receiver' = history_receiver [where W = "{}"]

section \<open>Every step keeps them together\<close>

lemma history_spin:
  assumes "slot_spin_goto t h n d w s1 = SNext s'" "s_threads s t = SSpin h n d" "history_inv s k"
    and "s1 = s \<or> s1 = s_rmw_send a' w s" "send_call a = None" "commit_of a s = None"
  shows "history_inv s' (observe a s s' k)"
proof -
  obtain q where s': "s' = s_goto t q s1" and q: "q = SReserve h True d \<or> q = SRet (SlotDisconnected d) \<or> q = SSleep h w d \<or> q = SSpin h (n - 1) d"
    using assms(1) by (auto simp: slot_spin_goto_def split: slot_spin.splits if_splits)
  show ?thesis by (rule history_sender [OF assms(3) s' assms(5,6)]) (use assms(2,4) q in auto)
qed

lemma history_write:
  assumes inv: "history_inv s k" and t: "s_threads s t = SWrite h b d" and excl: "own_excl s"
    and s': "s' = s_goto t (SCommit h b) (s\<lparr>s_slot := Some d, s_mem := m, s_sent := l\<rparr>)"
  shows "history_inv s' (observe (SStep t) s s' k)"
proof -
  have own: "holding (s_threads s t)" using t by simp
  have "returned s s' = []" by (rule returned_same) (simp add: s')
  then have k: "observe (SStep t) s s' k = k" using t by (intro observe_quiet) simp_all
  have "\<not> committed (s_recv s)" "\<not> unread (s_receiver s)"
    using own_exclD(2,3) [OF excl own] unread_taking by blast+
  then have "in_flight s' = in_flight s" unfolding s' by (cases "s_dropped s") (simp_all add: in_flight_def in_cell_def)
  moreover have "call_ok (calls k u) (s_slot s') (s_threads s' u)" for u
  proof (cases "u = t")
    case True
    then show ?thesis using history_invD(2) [OF inv, of t] t unfolding s' by simp
  next
    case False
    then have "\<not> written (s_threads s u)" using own_exclD(1) [OF excl own] written_holding by blast
    then show ?thesis using history_invD(2) [OF inv, of u] call_ok_cell False unfolding s' by fastforce
  qed
  ultimately show ?thesis unfolding k history_inv_def using history_invD(1) [OF inv] by simp
qed

lemma history_commit:
  assumes inv: "history_inv s k" and t: "s_threads s t = SCommit h b" and excl: "own_excl s" and live: "s_dropped s = None"
    and s': "s' = s_goto t q (s_rmw_recv Release (sender_agent t) COMMIT s)" and q: "q = SWakeReceiver h b \<or> q = SRet SlotSent"
  shows "history_inv s' (observe (SStep t) s s' k)"
proof -
  obtain d where d: "s_slot s = Some d" "calls k t = Some (d, False)"
    using history_invD(2) [OF inv, of t] t by auto
  have r: "returned s s' = []" by (rule returned_same) (simp add: s')
  have k: "observe (SStep t) s s' k = k\<lparr>calls := (calls k)(t \<mapsto> (d, True)), commits := commits k @ [d]\<rparr>"
    using t d(2) by (simp add: observe_def take_effect_def r)
  have own: "holding (s_threads s t)" using t by simp
  have "\<not> committed (s_recv s)" "\<not> unread (s_receiver s)"
    using own_exclD(2,3) [OF excl own] unread_taking by blast+
  then have "in_flight s' = in_flight s @ [d]" using d(1) live unfolding s' by (simp add: in_flight_def in_cell_def)
  moreover have "call_ok (calls (observe (SStep t) s s' k) u) (s_slot s') (s_threads s' u)" for u
    using history_invD(2) [OF inv, of u] q unfolding k unfolding s' by auto
  ultimately show ?thesis unfolding history_inv_def using history_invD(1) [OF inv] by (simp add: k)
qed

lemma history_sender_step:
  fixes s :: "('w::len word, 'a) slot_sys"
  assumes st: "sender_step t s (s_threads s t) = SNext s'" and inv: "history_inv s k" and excl: "own_excl s"
    and live: "s_dropped s = None"
  shows "history_inv s' (observe (SStep t) s s' k)"
proof (cases "s_threads s t")
  case (SReserve h b d)
  then obtain q where s': "s' = s_goto t q (s_rmw_send (sender_agent t) (slot_reserve_word (s_send s)) s)"
    and q: "q = SRet (SlotDisconnected d) \<or> q = SSpin h 32 d \<or> q = SRet (SlotFull d) \<or> q = SFence h b d"
    using st by (auto simp: slot_reserve_step_def Let_def split: slot_reserve.splits if_splits)
  show ?thesis by (rule history_sender [OF inv s']) (use SReserve q in auto)
next
  case (SFence h b d)
  then have s': "s' = s_goto t (SWrite h b d) (s\<lparr>s_mem := fence_acquire (sender_agent t) (s_mem s)\<rparr>)" using st by (simp add: slot_fence_step_def)
  show ?thesis by (rule history_sender [OF inv s']) (use SFence in auto)
next
  case (SWrite h b d)
  then show ?thesis using st history_write [OF inv SWrite excl] by (auto simp: slot_write_step_def split: if_splits)
next
  case (SCommit h b)
  then show ?thesis using st history_commit [OF inv SCommit excl live] by (auto simp: slot_commit_step_def Let_def)
next
  case (SSpin h n d)
  then have "slot_spin_goto t h n d (s_send s OR SEND_SLEEPING) (s_rmw_send (sender_agent t) (s_send s OR SEND_SLEEPING) s) = SNext s'"
    using st by (auto simp: slot_spin_rmw_def Let_def split: if_splits)
  then show ?thesis by (rule history_spin [OF _ SSpin inv]) (use SSpin in auto)
next
  case (SSleep h w d)
  then have s': "s' = s_goto t (if wait_blocks (futex_half (s_send s)) (futex_half w) then SAsleep h d else STorch h d) s"
    using st by (simp add: slot_sleep_step_def)
  show ?thesis by (rule history_sender [OF inv s']) (use SSleep in auto)
next
  case (STorch h d)
  then have s': "s' = s_goto t (SReserve h True d) (s_rmw_send (sender_agent t) (s_send s OR SEND_SLEEPING) s)" using st by (simp add: slot_torch_step_def)
  show ?thesis by (rule history_sender [OF inv s']) (use STorch in auto)
next
  case SDead
  then have s': "s' = s_goto t (if contains (s_recv s) RECV_SLEEPING then SDeadWake else SIdle)
      (s_rmw_recv Relaxed (sender_agent t) (s_recv s OR SENDER_DEAD) s)"
    using st by (simp add: slot_sender_dead_step_def Let_def)
  show ?thesis by (rule history_sender [OF inv s']) (use SDead in auto)
qed (use st in simp_all)

lemma history_read:
  assumes inv: "history_inv s k" and r: "s_receiver s = RRead c" and excl: "own_excl s" and live: "s_dropped s = None"
    and x: "s_slot s = Some x"
    and s': "s' = r_goto (RFence c x) (s\<lparr>s_slot := None, s_mem := m, s_received := l\<rparr>)"
  shows "history_inv s' (observe RStep s s' k)"
proof -
  have own: "taking (s_receiver s)" using r by simp
  have "returned s s' = []" using r by (simp add: returned_def s')
  then have k: "observe RStep s s' k = k" by (intro observe_quiet) simp_all
  have "\<not> committed (s_recv s)" using own_exclD(7) [OF excl] own by blast
  then have "in_flight s' = in_flight s" using live r x unfolding s' by (simp add: in_flight_def in_cell_def)
  moreover have "call_ok (calls k u) (s_slot s') (s_threads s' u)" for u
  proof -
    have "\<not> written (s_threads s u)" using own_exclD(3) [OF excl] own written_holding by blast
    then show ?thesis using history_invD(2) [OF inv, of u] call_ok_cell unfolding s' by fastforce
  qed
  ultimately show ?thesis unfolding k history_inv_def using history_invD(1) [OF inv] by simp
qed

lemma history_receiver_step:
  fixes s :: "('w::len word, 'a) slot_sys"
  assumes st: "receiver_step s (s_receiver s) = SNext s'" and inv: "history_inv s k" and excl: "own_excl s"
    and live: "s_dropped s = None"
  shows "history_inv s' (observe RStep s s' k)"
proof (cases "s_receiver s")
  case (RClear c)
  then have s': "s' = r_goto (RRead c) (s_rmw_recv Relaxed receiver_agent (s_recv s AND SENDER_DEAD) s)"
    using st by (simp add: slot_clear_step_def)
  have "committed (s_recv s)" using own_exclD(9) [OF excl] RClear by simp
  then show ?thesis by (intro history_receiver' [OF inv s']) (use RClear live in auto)
next
  case (RRead c)
  then show ?thesis using st history_read [OF inv RRead excl live]
    by (auto simp: slot_read_step_def split: if_splits option.splits)
next
  case (RFence c v)
  then have s': "s' = r_goto (RPublish c v) (s\<lparr>s_mem := fence_release receiver_agent (s_mem s)\<rparr>)"
    using st by (simp add: slot_release_step_def)
  show ?thesis by (rule history_receiver' [OF inv s']) (use RFence live in auto)
next
  case (RPublish c v)
  then have s': "s' = r_goto (if contains (s_send s) SEND_SLEEPING then RWakeSender c v else RRet (SlotGot v))
      (s_rmw_send receiver_agent 0 s)"
    using st by (simp add: slot_publish_step_def Let_def)
  show ?thesis by (rule history_receiver' [OF inv s']) (use RPublish live in auto)
next
  case RAnnounce
  then have s': "s' = r_goto (if s_recv s \<noteq> 0 then RLoad (Some 0) else RSleep)
      (s_rmw_recv Relaxed receiver_agent (s_recv s OR RECV_SLEEPING) s)"
    using st by (simp add: slot_announce_step_def Let_def)
  show ?thesis by (rule history_receiver' [OF inv s']) (use RAnnounce live in auto)
next
  case RSleep
  then have s': "s' = r_goto (if wait_blocks (s_recv s) RECV_SLEEPING then RAsleep else RLoad (Some 0)) s"
    using st by (simp add: slot_recv_sleep_step_def)
  show ?thesis by (rule history_receiver' [OF inv s']) (use RSleep live in auto)
next
  case RDead
  then have s': "s' = r_goto (if contains (s_send s) SEND_SLEEPING then RDeadWake else RGone) (s_rmw_send receiver_agent RECEIVER_DEAD s)"
    using st by (simp add: slot_receiver_dead_step_def Let_def)
  show ?thesis by (rule history_receiver' [OF inv s']) (use RDead live in auto)
qed (use st in simp_all)

lemma history_start:
  assumes "slot_start t call s = SNext s'" "s_ready (s_threads s t)" "history_inv s k" "s_dropped s = None"
  shows "history_inv s' (observe (SStart t call) s s' k)"
proof -
  have quiet: "history_inv s' (observe (SStart t call) s s' k)"
    if "s' = s_goto t q s1" "q = SIdle \<or> q = SDead" "send_call (SStart t call :: ('a, 'b) slot_action) = None"
      "s_threads s1 = s_threads s" "s_slot s1 = s_slot s" "s_recv s1 = s_recv s" "s_dropped s1 = s_dropped s" "s_receiver s1 = s_receiver s"
    for q s1
    by (rule history_sender [OF assms(3) that(1,3)]) (use that in auto)
  have send: "history_inv s' (observe (SStart t call) s s' k)"
    if "s' = s_goto t (SReserve h b d) s" "send_call (SStart t call :: ('a, 'b) slot_action) = Some (t, d)" for h b d
  proof -
    have "returned s s' = []" by (rule returned_same) (simp add: that)
    then have k: "observe (SStart t call) s s' k = k\<lparr>calls := (calls k)(t \<mapsto> (d, False))\<rparr>"
      using that(2) by (simp add: observe_def)
    have "in_flight s' = in_flight s" using assms(4) by (simp add: that(1) in_flight_def in_cell_def)
    moreover have "call_ok (calls (observe (SStart t call) s s' k) u) (s_slot s') (s_threads s' u)" for u
      using history_invD(2) [OF assms(3), of u] unfolding k unfolding that(1) by simp
    ultimately show ?thesis unfolding history_inv_def using history_invD(1) [OF assms(3)] by (simp add: k)
  qed
  show ?thesis
  proof (cases call)
    case (CTrySend h d)
    then show ?thesis using assms(1) by (intro send [where h = h and b = False and d = d]) (auto simp: slot_start_def split: if_splits)
  next
    case (CSend h d)
    then show ?thesis using assms(1) by (intro send [where h = h and b = True and d = d]) (auto simp: slot_start_def split: if_splits)
  next
    case (CCloneSender h h')
    then have "s' = s_goto t SIdle (s\<lparr>s_num_senders := s_num_senders s + 1, s_handles := insert h' (s_handles s)\<rparr>)"
      using assms(1) by (auto simp: slot_start_def slot_clone_sender_def split: if_splits)
    then show ?thesis by (rule quiet) (use CCloneSender in auto)
  next
    case (CDropSender h)
    then have "s' = s_goto t (if s_num_senders s > 1 then SIdle else SDead)
        (s\<lparr>s_num_senders := s_num_senders s - 1, s_handles := s_handles s - {h}\<rparr>)"
      using assms(1) by (auto simp: slot_start_def slot_drop_sender_def Let_def split: if_splits)
    then show ?thesis by (rule quiet) (use CDropSender in auto)
  qed
qed

lemma history_drop:
  assumes "drop_slot_inner s = SNext s'" and inv: "history_inv s k" and excl: "own_excl s"
  shows "history_inv s' (observe DropSlot s s' k)"
proof -
  have g: "s_receiver s = RGone" "s_dropped s = None" "s_receiver s' = RGone" "s_threads s' = s_threads s"
    using assms(1) by (auto simp: drop_slot_inner_def Let_def split: if_splits option.splits)
  have k: "observe DropSlot s s' k = k"
    by (rule observe_quiet) (simp_all add: g returned_def)
  consider (empty) "\<not> committed (s_recv s)" "s_dropped s' = Some []" "s_slot s' = s_slot s"
    | (full) x where "committed (s_recv s)" "s_slot s = Some x" "s_dropped s' = Some [x]" "s_slot s' = None"
    using assms(1) by (auto simp: drop_slot_inner_def committed_def Let_def split: if_splits option.splits)
  then show ?thesis
  proof cases
    case empty
    then show ?thesis using inv g unfolding k by (simp add: history_inv_def in_flight_def in_cell_def)
  next
    case (full x)
    have "call_ok (calls k u) None (s_threads s u)" for u
    proof -
      have "\<not> written (s_threads s u)" using own_exclD(2) [OF excl, of u] full(1) written_holding by blast
      then show ?thesis using history_invD(2) [OF inv, of u] call_ok_cell by blast
    qed
    then show ?thesis using inv g full unfolding k by (simp add: history_inv_def in_flight_def in_cell_def)
  qed
qed

lemma history_load:
  assumes "slot_load_step c n s = SNext s'" "s_receiver s = RLoad c" "history_inv s k" "s_dropped s = None"
  shows "history_inv s' (observe (RLoaded n) s s' k)"
proof -
  obtain q m win where s': "s' = r_goto q (s\<lparr>s_window := win, s_mem := m\<rparr>)"
    and q: "q = RClear c \<or> q = RRet SlotClosed \<or> q = RRet SlotEmpty \<or> (\<exists>i. q = RLoad (Some i)) \<or> q = RAnnounce"
    using assms(1) by (auto simp: slot_load_step_def Let_def split: if_splits prod.splits option.splits)
  show ?thesis by (rule history_receiver' [OF assms(3) s']) (use assms(2,4) q in auto)
qed

lemma history_woken:
  assumes w: "wake_receiver_step t n q woken s = SNext s'" and inv: "history_inv s k"
    and q: "s_threads s t = SDeadWake \<and> q = SIdle \<or> (\<exists>h b. s_threads s t = SWakeReceiver h b \<and> q = SRet SlotSent)"
  shows "history_inv s' (observe (SWoken t woken) s s' k)"
proof -
  have s': "s' = s_goto t q (wake_receiver woken s)" using w by (auto simp: wake_receiver_step_def split: if_splits)
  have "s_receiver s = RAsleep" if woken
    using w that by (auto simp: wake_receiver_step_def wake_allowed_def receiver_asleep_def split: if_splits receiver_pc.splits)
  then show ?thesis by (intro history_sender [OF inv s']) (use q in \<open>auto simp: wake_receiver_def\<close>)
qed

lemma history_recv_call:
  assumes s': "s' = r_goto q s" and q: "q = RLoad None \<or> q = RLoad (Some 0) \<or> q = RDead" and r: "r_ready (s_receiver s)"
    and inv: "history_inv s k" and live: "s_dropped s = None"
  shows "history_inv s' (observe (RStart call) s s' k)"
proof -
  have "in_receiver (s_receiver s) = []" using r by (cases "s_receiver s") simp_all
  then show ?thesis by (intro history_receiver' [OF inv s']) (use q r live in \<open>auto dest: ready_quiet unread_taking\<close>)
qed

lemma history_wake_senders:
  assumes w: "wake_senders_step n q W s = SNext s'" and inv: "history_inv s k" and live: "s_dropped s = None"
    and q: "(\<exists>c v. s_receiver s = RWakeSender c v \<and> q = RRet (SlotGot v)) \<or> s_receiver s = RDeadWake \<and> q = RGone"
  shows "history_inv s' (observe (RWoken W) s s' k)"
proof -
  have s': "s' = r_goto q (wake_senders W s)" using w by (auto simp: wake_senders_step_def split: if_splits)
  show ?thesis by (rule history_receiver [where W = "set W", OF inv s'])
    (use q live in \<open>auto simp: wake_senders_def\<close>)
qed

lemma history_step:
  fixes s :: "('w::len word, 'a) slot_sys"
  assumes step: "slot_step a s = SNext s'" and ok: "slot_inv s" "supported TYPE('w)" and inv: "history_inv s k"
  shows "history_inv s' (observe a s s' k)"
proof -
  have live: "s_dropped s = None"
    using dropped_stops [OF ok(1) _ slot_step_effect [OF ok(2) step]] by (cases "s_dropped s") auto
  then have excl: "own_excl s" using ok(1) by (simp add: slot_inv_def)
  note st = step [unfolded slot_step_def]
  show ?thesis
  proof (cases a)
    case (SStart t call)
    then show ?thesis using st history_start [OF _ _ inv live] by (auto split: if_splits)
  next
    case (SStep t)
    then show ?thesis using st history_sender_step [OF _ inv excl live] by (auto split: if_splits)
  next
    case (SLoad t w)
    then obtain h n d where t: "s_threads s t = SSpin h n d" "slot_spin_load t h n d w s = SNext s'"
      using st by (auto split: if_splits sender_pc.splits)
    then have "slot_spin_goto t h n d w s = SNext s'" by (simp add: slot_spin_load_def split: if_splits)
    then show ?thesis by (rule history_spin [OF _ t(1) inv]) (use SLoad in auto)
  next
    case (SWoken t woken)
    then show ?thesis using st history_woken [OF _ inv] by (auto split: if_splits sender_pc.splits)
  next
    case (SInterrupt t)
    then obtain h d where t: "s_threads s t = SAsleep h d" "s' = s_goto t (STorch h d) s"
      using st by (auto split: if_splits sender_pc.splits)
    show ?thesis by (rule history_sender [OF inv t(2)]) (use t(1) SInterrupt in auto)
  next
    case (RStart call)
    then show ?thesis using st history_recv_call [OF _ _ _ inv live] by (auto split: if_splits slot_recv_call.splits)
  next
    case RStep
    then show ?thesis using st history_receiver_step [OF _ inv excl live] by simp
  next
    case (RLoaded n)
    then show ?thesis using st history_load [OF _ _ inv live] by (auto split: receiver_pc.splits)
  next
    case (RWoken W)
    then show ?thesis using st history_wake_senders [OF _ inv live] by (auto split: receiver_pc.splits)
  next
    case RInterrupt
    then have t: "s_receiver s = RAsleep" "s' = r_goto (RLoad (Some 0)) s"
      using st by (auto split: receiver_pc.splits)
    show ?thesis by (rule history_receiver' [OF inv t(2)]) (use t(1) RInterrupt live in auto)
  next
    case DropSlot
    then show ?thesis using st history_drop [OF _ inv excl] by simp
  qed
qed

text \<open>So they agree after every run.\<close>

lemma slot_run_history:
  fixes s :: "('w::len word, 'a) slot_sys"
  assumes "slot_run as (s, h) = Some (s', h')" "slot_reachable s" "supported TYPE('w)" "history_inv s h"
  shows "history_inv s' h'" "slot_reachable s'"
  using assms
proof (induction as arbitrary: s h)
  case (Cons a as)
  {
    case 1
    then obtain s1 where s1: "slot_step a s = SNext s1" "slot_run as (s1, observe a s s1 h) = Some (s', h')"
      by (auto split: slot_outcome.splits)
    have "history_inv s1 (observe a s s1 h)"
      using history_step [OF s1(1) slot_reachable_inv [OF 1(2,3)] 1(3,4)] .
    then show ?case using Cons.IH(1) [OF s1(2) slot_next [OF 1(2) s1(1)] 1(3)] by blast
  next
    case 2
    then obtain s1 where s1: "slot_step a s = SNext s1" "slot_run as (s1, observe a s s1 h) = Some (s', h')"
      by (auto split: slot_outcome.splits)
    have "history_inv s1 (observe a s s1 h)"
      using history_step [OF s1(1) slot_reachable_inv [OF 2(2,3)] 2(3,4)] .
    then show ?case using Cons.IH(2) [OF s1(2) slot_next [OF 2(2) s1(1)] 2(3)] by blast
  }
qed simp_all

end
