(* ===== verification/Slot_Props.thy ===== *)
theory Slot_Props
  imports Slot_Sleep Slot_History
begin

text \<open>
  The properties of the slot, and a run that shows two senders asleep and one of them left behind.
\<close>

section \<open>A concrete run\<close>

text \<open>Two threads share a sender.  The first sends 5 and then blocks on 6, the second blocks on 7.
  The receiver takes 5 and wakes the first sleeper, then is dropped before that sleeper has run
  again.\<close>

definition asleep_run :: "(32 word, nat) slot_action list" where
  "asleep_run =
     [SStart 0 (CTrySend 0 5)] @ replicate 4 (SStep 0) @
     [SStart 0 (CSend 0 6), SStep 0] @ replicate 32 (SLoad 0 1) @ [SStep 0, SStep 0] @
     [SStart 1 (CSend 0 7), SStep 1, SLoad 1 (2 ^ 30 + 1), SStep 1]"

definition both_asleep :: "(32 word, nat) slot_sys \<Rightarrow> bool" where
  "both_asleep s \<longleftrightarrow> s_threads s 0 = SAsleep 0 6 \<and> s_threads s 1 = SAsleep 0 7 \<and> s_receiver s = RIdle \<and> s_slot s = Some 5"

definition left_behind_run :: "(32 word, nat) slot_action list" where
  "left_behind_run =
     [RStart CTryRecv, RLoaded 0] @ replicate 4 RStep @ [RWoken [0]] @
     [RStart CDropReceiver, RStep, SStep 0, SStep 0]"

definition left_behind :: "(32 word, nat) slot_sys \<Rightarrow> bool" where
  "left_behind s \<longleftrightarrow> s_receiver s = RGone \<and> s_threads s 0 = SRet (SlotDisconnected 6) \<and> s_threads s 1 = SAsleep 0 7 \<and>
     s_n s = 2 \<and> s_received s = [5]"

definition later_run :: "(32 word, nat) slot_action list" where
  "later_run = [SStart 0 (CTrySend 0 8), SStep 0]"

definition later :: "(32 word, nat) slot_sys \<Rightarrow> bool" where
  "later s \<longleftrightarrow> s_threads s 0 = SRet (SlotDisconnected 8)"

definition then_run :: "('w::len word, 'a) slot_outcome \<Rightarrow> (('w word, 'a) slot_sys \<Rightarrow> bool) \<Rightarrow> bool" where
  "then_run r P = (case r of SNext s \<Rightarrow> P s | _ \<Rightarrow> False)"

lemma then_runE:
  assumes "then_run r P"
  obtains s where "r = SNext s" "P s"
  using assms by (cases r) (simp_all add: then_run_def)

lemma concrete_runs:
  "then_run (slot_exec asleep_run (mpsc 2)) (\<lambda>s1. both_asleep s1 \<and>
     then_run (slot_exec left_behind_run s1) (\<lambda>s. left_behind s \<and> then_run (slot_exec later_run s) later))"
  by code_simp

lemma both_asleep_reachable: "\<exists>s. slot_reachable s \<and> both_asleep s"
  using concrete_runs slot_reachable_exec [OF slot_init] by (auto elim!: then_runE)

lemma left_behind_reachable: "\<exists>s s'. slot_reachable s \<and> left_behind s \<and> slot_exec later_run s = SNext s' \<and> later s'"
proof -
  from concrete_runs obtain s1 s s' where run: "slot_exec asleep_run (mpsc 2) = SNext s1"
    "slot_exec left_behind_run s1 = SNext s" and s: "left_behind s" "slot_exec later_run s = SNext s'" "later s'"
    by (auto elim!: then_runE)
  have "slot_reachable s" using slot_reachable_exec [OF slot_reachable_exec [OF slot_init run(1)] run(2)] .
  then show ?thesis using s by blast
qed

lemma supported_32: "supported TYPE(32)"
  by (simp add: supported_def)

text \<open>The same run with its history.\<close>

lemma concrete_history:
  "case slot_run (asleep_run @ left_behind_run) (mpsc 2, no_history) of
     Some (s, h) \<Rightarrow> left_behind s \<and> got h = [5] | None \<Rightarrow> False"
  by code_simp

section \<open>Properties\<close>

text \<open>C3: no interleaving of any number of senders with the receiver, of any length and at either
  width of the word, makes a step go wrong: no access of the cell races with another, no value is
  read before it is written or overwritten before it is read, and the spin counter never
  underflows.\<close>

theorem slot_step_safe:
  fixes s :: "('w::len word, 'a) slot_sys"
  assumes "slot_reachable s" "supported TYPE('w)"
  shows "slot_step a s \<noteq> SFault f"
  by (rule slot_no_fault [OF assms(2) slot_reachable_inv [OF assms]])

theorem slot_step_safe_witness:
  "\<exists>s :: (32 word, nat) slot_sys. both_asleep s \<and> slot_step (RStart CTryRecv) s \<noteq> SFault SlotDataRace"
proof -
  obtain s where s: "slot_reachable s" "both_asleep s" using both_asleep_reachable by blast
  have "slot_step (RStart CTryRecv) s \<noteq> SFault SlotDataRace"
    by (rule slot_step_safe [OF s(1) supported_32])
  then show ?thesis using s(2) by blast
qed

text \<open>C10: the slot is a first-in first-out channel.  Over every run, the values of the calls of
  \<^verbatim>\<open>send\<close> and \<^verbatim>\<open>try_send\<close> that took effect, in the order they did, are those the
  receiver's calls returned, in the same order, followed by what the receiver has in hand and what lies
  committed in the cell or, once the channel is gone, by what was dropped with it.  A send that
  returns \<^verbatim>\<open>Ok\<close> took effect; one that fails did not, and hands back the value it was called with.\<close>

theorem slot_fifo:
  fixes s :: "('w::len word, 'a) slot_sys"
  assumes "slot_run as (mpsc n, no_history) = Some (s, h)" "supported TYPE('w)"
  shows "commits h = got h @ in_flight s \<and>
    (s_threads s t = SRet SlotSent \<longrightarrow> (\<exists>d. calls h t = Some (d, True))) \<and>
    (s_threads s t = SRet (SlotFull d) \<or> s_threads s t = SRet (SlotDisconnected d) \<longrightarrow> calls h t = Some (d, False))"
proof -
  have inv: "history_inv s h" by (rule slot_run_history(1) [OF assms(1) slot_init assms(2) history_init])
  show ?thesis using history_invD(1) [OF inv] history_invD(2) [OF inv, of t] by auto
qed

theorem slot_fifo_witness:
  "\<exists>s h. slot_run (asleep_run @ left_behind_run) (mpsc 2, no_history) = Some (s, h) \<and> left_behind s \<and>
     got h = [5] \<and> commits h = [5] @ in_flight s \<and> calls h 0 = Some (6, False)"
proof -
  obtain s h where r: "slot_run (asleep_run @ left_behind_run) (mpsc 2, no_history) = Some (s, h)"
    and s: "left_behind s" "got h = [5]"
    using concrete_history by (auto split: option.splits)
  have "s_threads s 0 = SRet (SlotDisconnected 6)" using s(1) by (simp add: left_behind_def)
  then show ?thesis using slot_fifo [OF r supported_32, of 0 6] r s by auto
qed

text \<open>C20: the channel reports a disconnection only when it is true and final: the receiver is told
  so only when no sender is left and every value sent has been received, a sender only when the
  receiver is gone.\<close>

theorem slot_disconnection_is_final:
  fixes s :: "('w::len word, 'a) slot_sys"
  assumes "slot_reachable s" "supported TYPE('w)"
  shows "(s_receiver s = RRet SlotClosed \<longrightarrow> s_handles s = {} \<and> s_slot s = None \<and> s_sent s = s_received s) \<and>
    (s_threads s t = SRet (SlotDisconnected d) \<longrightarrow> gone (s_receiver s))"
proof -
  note inv = slot_reachable_inv [OF assms]
  have "s_dropped s = None" if "s_receiver s = RRet SlotClosed"
    using inv that by (cases "s_dropped s") (auto simp: slot_inv_def)
  then show ?thesis using inv by (auto simp: slot_inv_def own_closed_def own_log_def)
qed

theorem slot_disconnection_is_final_witness:
  "\<exists>s :: (32 word, nat) slot_sys. slot_reachable s \<and> left_behind s \<and>
    s_threads s 0 = SRet (SlotDisconnected 6) \<and> gone (s_receiver s)"
proof -
  obtain s where s: "slot_reachable s" "left_behind s" using left_behind_reachable by blast
  then have d: "s_threads s 0 = SRet (SlotDisconnected 6)" by (simp add: left_behind_def)
  then have "gone (s_receiver s)" using slot_disconnection_is_final [OF s(1) supported_32, of 0 6] by (rule mp [OF conjunct2, rotated])
  then show ?thesis using s d by blast
qed

text \<open>C14: no wake-up is lost while both sides live: when the receiver sleeps although a value is
  committed or the senders are gone, some sender is about to wake it; and when a sender sleeps,
  the word says so, or the receiver is about to wake a sleeper, or a woken one is about to say
  so again.\<close>

theorem slot_no_lost_wakeup:
  fixes s :: "('w::len word, 'a) slot_sys"
  assumes "slot_reachable s" "supported TYPE('w)"
  shows "(receiver_asleep (s_receiver s) \<and> (committed (s_recv s) \<or> recv_dead (s_recv s)) \<longrightarrow>
      (\<exists>u. waking (s_threads s u))) \<and>
    (sender_asleep (s_threads s t) \<and> \<not> gone (s_receiver s) \<longrightarrow>
      send_sleeping (s_send s) \<or> waking_senders (s_receiver s) \<or> (\<exists>u. torch (s_threads s u)))"
  using slot_sleep_reachable [OF assms] by (auto simp: receiver_sleep_def sender_sleep_def)

theorem slot_no_lost_wakeup_witness:
  "\<exists>s :: (32 word, nat) slot_sys. slot_reachable s \<and> both_asleep s \<and>
    (send_sleeping (s_send s) \<or> waking_senders (s_receiver s) \<or> (\<exists>u. torch (s_threads s u)))"
proof -
  obtain s where s: "slot_reachable s" "both_asleep s" using both_asleep_reachable by blast
  then have "sender_asleep (s_threads s 0) \<and> \<not> gone (s_receiver s)" by (simp add: both_asleep_def)
  then have "send_sleeping (s_send s) \<or> waking_senders (s_receiver s) \<or> (\<exists>u. torch (s_threads s u))"
    by (rule mp [OF conjunct2 [OF slot_no_lost_wakeup [OF s(1) supported_32]]])
  then show ?thesis using s by blast
qed

text \<open>C31: a sender that still sleeps when the receiver is gone sleeps forever: nothing that any
  thread does wakes it, only a signal can.  The witness shows that this happens: a receiver that
  wakes one of two sleepers and is dropped before that one has announced the other leaves the
  other behind, inside a \<^verbatim>\<open>send\<close> that never returns.\<close>

theorem slot_sender_left_behind:
  assumes "s_receiver s = RGone" "s_threads s t = SAsleep h d"
    and "slot_exec as s = SNext s'" "SInterrupt t \<notin> set as"
  shows "s_threads s' t = SAsleep h d \<and> s_receiver s' = RGone"
  by (rule forgotten_sender_exec [OF assms(3,1,2,4)])

theorem slot_sender_left_behind_witness:
  "\<exists>s s' :: (32 word, nat) slot_sys. slot_reachable s \<and> left_behind s \<and>
     slot_exec later_run s = SNext s' \<and> later s' \<and> s_threads s' 1 = SAsleep 0 7 \<and> s_receiver s' = RGone"
proof -
  obtain s s' where s: "slot_reachable s" "left_behind s" "slot_exec later_run s = SNext s'" "later s'"
    using left_behind_reachable by blast
  have "s_threads s' 1 = SAsleep 0 7 \<and> s_receiver s' = RGone"
    by (rule slot_sender_left_behind [OF _ _ s(3)]) (use s(2) in \<open>simp_all add: left_behind_def later_run_def\<close>)
  then show ?thesis using s by blast
qed

end
