(* ===== verification/Cache_Padded.thy ===== *)
theory Cache_Padded
  imports Prelude
begin

text \<open>
  \<^verbatim>\<open>CachePadded<T>\<close> of \<^verbatim>\<open>bags/src/cache_padded.rs\<close>: a transparent wrapper aligned to the
  cache line of the target, so that two padded fields never share a line.
\<close>

section \<open>The wrapper\<close>

text \<open>The alignment the attributes choose from the name of the target's architecture.\<close>

definition cache_align :: "string \<Rightarrow> nat" where
  "cache_align target_arch =
     (if target_arch \<in> {''x86_64'', ''aarch64'', ''arm64ec'', ''powerpc64''} then 128
      else if target_arch \<in> {''arm'', ''mips'', ''mips32r6'', ''mips64'', ''mips64r6'', ''sparc'', ''hexagon''} then 32
      else if target_arch = ''m68k'' then 16
      else if target_arch = ''s390x'' then 256
      else 64)"

datatype 'a padded = CachePadded 'a

fun deref :: "'a padded \<Rightarrow> 'a" where
  "deref (CachePadded x) = x"

fun deref_mut :: "('a \<Rightarrow> 'a) \<Rightarrow> 'a padded \<Rightarrow> 'a padded" where
  "deref_mut f (CachePadded x) = CachePadded (f x)"

text \<open>The \<^verbatim>\<open>Debug\<close> output is that of the value inside.\<close>

definition padded_debug :: "('a \<Rightarrow> string) \<Rightarrow> 'a padded \<Rightarrow> string" where
  "padded_debug show_value p = show_value (deref p)"

text \<open>A value of \<open>n\<close> bytes takes whole multiples of its alignment.\<close>

definition padded_size :: "string \<Rightarrow> nat \<Rightarrow> nat" where
  "padded_size target_arch n = (n + cache_align target_arch - 1) div cache_align target_arch * cache_align target_arch"

section \<open>Lemmas\<close>

lemma cache_align_power: "\<exists>k. cache_align target_arch = 2 ^ k \<and> 4 \<le> k \<and> k \<le> 8"
proof -
  have "cache_align target_arch \<in> {2 ^ 7, 2 ^ 5, 2 ^ 4, 2 ^ 8, 2 ^ 6}" by (simp add: cache_align_def)
  then show ?thesis by (elim insertE emptyE) (rule exI, rule conjI, assumption, simp)+
qed

lemma cache_align_pos [simp]: "0 < cache_align target_arch"
  by (simp add: cache_align_def)

lemma deref_deref_mut [simp]: "deref (deref_mut f p) = f (deref p)"
  by (cases p) simp

lemma padded_size_ge: "n \<le> padded_size target_arch n"
proof -
  let ?a = "cache_align target_arch"
  have "n + ?a - 1 < (n + ?a - 1) div ?a * ?a + ?a"
    using dividend_less_div_times [of ?a "n + ?a - 1"] by simp
  then show ?thesis unfolding padded_size_def using cache_align_pos [of target_arch] by linarith
qed

text \<open>Bytes of two padded values that are laid out one after the other are on different lines.\<close>

lemma padded_lines_disjoint:
  assumes "cache_align target_arch dvd p" "p + padded_size target_arch n \<le> q" "i < n"
  shows "(p + i) div cache_align target_arch < q div cache_align target_arch"
proof -
  let ?a = "cache_align target_arch"
  obtain k where p: "p = ?a * k" using assms(1) by (rule dvdE)
  define m where "m = (n + ?a - 1) div ?a"
  have m: "padded_size target_arch n = ?a * m" by (simp add: padded_size_def m_def mult.commute)
  have "p + i < (k + m) * ?a" using p m assms(3) padded_size_ge [of n target_arch] by (simp add: algebra_simps)
  then have l: "(p + i) div ?a < k + m" by (simp add: div_less_iff_less_mult)
  have "(k + m) * ?a \<le> q" using p m assms(2) by (simp add: algebra_simps)
  then have "k + m \<le> q div ?a" by (simp add: less_eq_div_iff_mult_less_eq)
  with l show ?thesis by simp
qed

end
