(* ===== verification/Client_Forks.thy ===== *)
theory Client_Forks
  imports Client_Tests
begin

text \<open>
  Programs in which the main thread makes the handles, hands them to the threads it spawns and drops
  what it keeps, and what stays true of the handles while such a program runs.
\<close>

section \<open>Programs that fork\<close>

fun clones :: "'a instr list \<Rightarrow> nat list" where
  "clones [] = []"
| "clones (CloneSnd h h' # p) = h' # clones p"
| "clones (_ # p) = clones p"

text \<open>The main thread clones its handle, spawns threads whose handles exist, and drops handles.\<close>

fun main_ok :: "(nat \<Rightarrow> 'a instr list) \<Rightarrow> 'a instr list \<Rightarrow> bool" where
  "main_ok P [] = True"
| "main_ok P (CloneSnd h h' # p) = (h = 0 \<and> main_ok P p)"
| "main_ok P (Spawn u # p) = ((\<forall>h\<in>set (snd_drops (P u)). h \<notin> set (clones p)) \<and> main_ok P p)"
| "main_ok P (DropSnd h # p) = (h \<notin> set (clones p) \<and> main_ok P p)"
| "main_ok P (_ # p) = False"

fun sends_only :: "'a instr list \<Rightarrow> bool" where
  "sends_only [] = True"
| "sends_only (Send h x # p) = sends_only p"
| "sends_only (DropSnd h # p) = sends_only p"
| "sends_only (_ # p) = False"

fun receives_only :: "'a instr list \<Rightarrow> bool" where
  "receives_only [] = True"
| "receives_only (RecvAll h # p) = receives_only p"
| "receives_only (DropRcv h # p) = receives_only p"
| "receives_only (_ # p) = False"

definition fork_ok :: "nat \<Rightarrow> (nat \<Rightarrow> 'a instr list) \<Rightarrow> bool" where
  "fork_ok rt P \<longleftrightarrow> rt \<noteq> 0 \<and> main_ok P (P 0) \<and> distinct (clones (P 0)) \<and> length (clones (P 0)) < 2 ^ 31 \<and>
     (\<forall>t. t \<noteq> 0 \<longrightarrow> t \<noteq> rt \<longrightarrow> sends_only (P t)) \<and> receives_only (P rt) \<and>
     (\<forall>t. t \<noteq> 0 \<longrightarrow> P t \<noteq> [] \<longrightarrow> Spawn t \<in> set (P 0)) \<and>
     (\<forall>h\<in>insert 0 (set (clones (P 0))). \<exists>t. h \<in> set (snd_drops (P t)))"

text \<open>What stays true while the client runs: \<open>sp\<close> are the spawned threads, \<open>L\<close> the live senders.\<close>

definition fork_inv :: "nat \<Rightarrow> (nat \<Rightarrow> 'a instr list) \<Rightarrow> (nat \<Rightarrow> 'a instr list) \<Rightarrow> nat set \<Rightarrow> nat set \<Rightarrow> bool" where
  "fork_inv rt P Q sp L \<longleftrightarrow> main_ok P (Q 0) \<and> distinct (clones (Q 0)) \<and>
     (\<forall>t. t \<noteq> 0 \<longrightarrow> t \<noteq> rt \<longrightarrow> sends_only (Q t)) \<and> receives_only (Q rt) \<and>
     (\<forall>t. set (snd_drops (Q t)) \<subseteq> set (snd_drops (P t))) \<and>
     (\<forall>t\<in>sp. t \<noteq> 0 \<longrightarrow> (\<forall>h\<in>set (snd_drops (Q t)). h \<notin> set (clones (Q 0)))) \<and>
     (\<forall>h\<in>set (clones (Q 0)). h \<notin> L) \<and> L \<subseteq> insert 0 (set (clones (P 0))) \<and>
     set (clones (Q 0)) \<subseteq> set (clones (P 0)) \<and>
     (\<forall>t. Q t \<noteq> [] \<longrightarrow> t \<in> sp \<or> Spawn t \<in> set (Q 0)) \<and> 0 \<in> sp \<and>
     (\<forall>h\<in>L \<union> set (clones (Q 0)). \<exists>t. h \<in> set (snd_drops (Q t)))"

lemma fork_invD:
  assumes "fork_inv rt P Q sp L"
  shows "main_ok P (Q 0)" "distinct (clones (Q 0))" "t \<noteq> 0 \<Longrightarrow> t \<noteq> rt \<Longrightarrow> sends_only (Q t)" "receives_only (Q rt)"
    "set (snd_drops (Q t)) \<subseteq> set (snd_drops (P t))"
    "t \<in> sp \<Longrightarrow> t \<noteq> 0 \<Longrightarrow> h \<in> set (snd_drops (Q t)) \<Longrightarrow> h \<notin> set (clones (Q 0))"
    "h \<in> set (clones (Q 0)) \<Longrightarrow> h \<notin> L" "L \<subseteq> insert 0 (set (clones (P 0)))"
    "set (clones (Q 0)) \<subseteq> set (clones (P 0))" "Q t \<noteq> [] \<Longrightarrow> t \<in> sp \<or> Spawn t \<in> set (Q 0)" "0 \<in> sp"
    "h \<in> L \<or> h \<in> set (clones (Q 0)) \<Longrightarrow> \<exists>t. h \<in> set (snd_drops (Q t))"
  using assms unfolding fork_inv_def by blast+

lemma only_tl:
  "sends_only (i # p) \<Longrightarrow> sends_only p" "receives_only (i # p) \<Longrightarrow> receives_only p" "main_ok P (i # p) \<Longrightarrow> main_ok P p"
  "set (clones p) \<subseteq> set (clones (i # p))" "distinct (clones (i # p)) \<Longrightarrow> distinct (clones p)"
  "set (snd_drops p) \<subseteq> set (snd_drops (i # p))"
  by (cases i; auto)+

lemma fork_inv_start:
  assumes "fork_ok rt P" "client_ok T P"
  shows "fork_inv rt P P {0} {0}"
proof -
  have "prog_ok (P 0)" using assms(2) by (simp add: client_ok_def handles_ok_def)
  moreover have "prog_ok p \<Longrightarrow> 0 \<notin> set (clones p)" for p :: "'a instr list"
    by (induction p rule: prog_ok.induct) auto
  ultimately have "0 \<notin> set (clones (P 0))" by blast
  then have "\<forall>h\<in>set (clones (P 0)). h \<noteq> 0" by metis
  then show ?thesis using assms(1) unfolding fork_ok_def fork_inv_def by auto
qed

text \<open>An instruction of a spawned thread is done.\<close>

fun spawned_after :: "'a instr \<Rightarrow> nat set \<Rightarrow> nat set" where
  "spawned_after (Spawn u) sp = insert u sp"
| "spawned_after _ sp = sp"

lemma fork_inv_pop:
  assumes inv: "fork_inv rt P Q sp L" and h: "handles_ok Q L R" and t: "Q t = i # p" "t \<in> sp" and rt: "rt \<noteq> 0"
  shows "fork_inv rt P (Q(t := p)) (spawned_after i sp) (snds_after i L)"
proof -
  note d = fork_invD [OF inv] and side = side_okD [OF handles_okD(2) [OF h]]
  let ?Q = "Q(t := p)"
  have cl: "set (clones (?Q 0)) \<subseteq> set (clones (Q 0))" using only_tl(4) [of p i] t(1) by auto
  have dr: "set (snd_drops (?Q u)) \<subseteq> set (snd_drops (Q u))" for u using only_tl(6) [of p i] t(1) by auto
  have main: "t = 0" if "\<not> sends_only [i]" "\<not> receives_only [i]"
    using that d(3) [of t] d(4) t(1) by (cases i; cases "t = rt") auto
  have "main_ok P (?Q 0)" "distinct (clones (?Q 0))" using d(1,2) only_tl(3) [of P i p] only_tl(5) [of i p] t(1) by auto
  moreover have "sends_only (?Q u)" if "u \<noteq> 0" "u \<noteq> rt" for u using d(3) [OF that] only_tl(1) [of i p] t(1) by auto
  moreover have "receives_only (?Q rt)" using d(4) only_tl(2) [of i p] t(1) by auto
  moreover have "set (snd_drops (?Q u)) \<subseteq> set (snd_drops (P u))" for u using dr d(5) by blast
  moreover have "k \<notin> set (clones (?Q 0))" if u: "u \<in> spawned_after i sp" "u \<noteq> 0" "k \<in> set (snd_drops (?Q u))" for u k
  proof (cases "u \<in> sp")
    case True
    then show ?thesis using d(6) [of u k] u dr cl by blast
  next
    case False
    then have i: "i = Spawn u" using u(1) by (cases i) auto
    then have "t = 0" using main by simp
    then have "\<forall>h\<in>set (snd_drops (P u)). h \<notin> set (clones p)" using d(1) t(1) i by simp
    moreover have "k \<in> set (snd_drops (P u))" using u(3) dr d(5) by blast
    ultimately show ?thesis using \<open>t = 0\<close> by simp
  qed
  moreover have "k \<notin> snds_after i L" if k: "k \<in> set (clones (?Q 0))" for k
  proof -
    have "k \<notin> L" using d(7) k cl by blast
    moreover have "k \<noteq> h'" if "i = CloneSnd h0 h'" for h0 h'
    proof -
      have "t = 0" using main that by simp
      then show ?thesis using d(2) t(1) that k by auto
    qed
    ultimately show ?thesis by (cases i) auto
  qed
  moreover have "snds_after i L \<subseteq> insert 0 (set (clones (P 0)))"
  proof -
    have "h' \<in> set (clones (P 0))" if "i = CloneSnd h0 h'" for h0 h'
    proof -
      have "t = 0" using main that by simp
      then show ?thesis using d(9) t(1) that by auto
    qed
    then show ?thesis using d(8) by (cases i) auto
  qed
  moreover have "set (clones (?Q 0)) \<subseteq> set (clones (P 0))" using cl d(9) by blast
  moreover have "u \<in> spawned_after i sp \<or> Spawn u \<in> set (?Q 0)" if "?Q u \<noteq> []" for u
  proof -
    have "u \<in> sp \<or> Spawn u \<in> set (Q 0)" using d(10) [of u] that t by (cases "u = t") auto
    then show ?thesis using t(1) by (cases i; cases "t = 0") auto
  qed
  moreover have "0 \<in> spawned_after i sp" using d(11) by (cases i) auto
  moreover have "\<exists>u. k \<in> set (snd_drops (?Q u))" if k: "k \<in> snds_after i L \<or> k \<in> set (clones (?Q 0))" for k
  proof -
    have "k \<in> L \<or> k \<in> set (clones (Q 0))"
    proof -
      have "h' \<in> set (clones (Q 0))" if "i = CloneSnd h0 h'" for h0 h'
        using main that t(1) by auto
      then show ?thesis using k cl by (cases i) auto
    qed
    then obtain u where u: "k \<in> set (snd_drops (Q u))" using d(12) by blast
    have "k \<in> set (snd_drops (?Q u))" if "i \<noteq> DropSnd k" using u t(1) that by (cases i) auto
    moreover have "i \<noteq> DropSnd k"
    proof
      assume i: "i = DropSnd k"
      then have "k \<in> set (clones (?Q 0))" using k by simp
      moreover have "k \<notin> set (clones (?Q 0))"
      proof (cases "t = 0")
        case True
        then show ?thesis using d(1) t(1) i by simp
      next
        case False
        then have "k \<notin> set (clones (Q 0))" using d(6) [OF t(2)] t(1) i by simp
        then show ?thesis using False by simp
      qed
      ultimately show False by blast
    qed
    ultimately show ?thesis by blast
  qed
  ultimately show ?thesis unfolding fork_inv_def by blast
qed

lemma fork_inv_resend:
  assumes inv: "fork_inv rt P Q sp L" and t: "Q t = Send h y # p"
  shows "fork_inv rt P (Q(t := Send h x # p)) sp L"
proof -
  have n0: "t \<noteq> 0" using fork_invD(1) [OF inv] t by (cases "t = 0") auto
  have nr: "t \<noteq> rt" using fork_invD(4) [OF inv] t by (cases "t = rt") auto
  have dr: "snd_drops ((Q(t := Send h x # p)) u) = snd_drops (Q u)" for u using t by simp
  have ne: "(Q(t := Send h x # p)) u \<noteq> [] \<longleftrightarrow> Q u \<noteq> []" for u using t by simp
  have so: "sends_only ((Q(t := Send h x # p)) u) = sends_only (Q u)" for u using t by simp
  have "(Q(t := Send h x # p)) 0 = Q 0" "(Q(t := Send h x # p)) rt = Q rt" using n0 nr by simp_all
  then show ?thesis using inv unfolding fork_inv_def dr ne so by simp
qed

section \<open>The test forks\<close>

lemma basic_main_forks:
  "clones (concat (map (\<lambda>u. [CloneSnd 0 u, Spawn u]) us) @ [DropSnd 0, Spawn v]) = us"
  "distinct us \<Longrightarrow> \<forall>u\<in>set us. snd_drops (P u) = [u] \<Longrightarrow>
     main_ok P (concat (map (\<lambda>u. [CloneSnd 0 u, Spawn u]) us) @ [DropSnd 0, Spawn v])"
proof -
  show cl: "clones (concat (map (\<lambda>u. [CloneSnd 0 u, Spawn u]) us) @ [DropSnd 0, Spawn v]) = us" for us
    by (induction us) simp_all
  show "distinct us \<Longrightarrow> \<forall>u\<in>set us. snd_drops (P u) = [u] \<Longrightarrow>
     main_ok P (concat (map (\<lambda>u. [CloneSnd 0 u, Spawn u]) us) @ [DropSnd 0, Spawn v])"
    by (induction us) (simp_all add: cl)
qed

lemma only_progs: "sends_only (sender_prog h xs)" "receives_only (receiver_prog h)"
proof -
  show "sends_only (sender_prog h xs)" unfolding sender_prog_def by (induction xs) simp_all
qed (simp add: receiver_prog_def)

lemma basic_forks:
  assumes "k < 2 ^ 31"
  shows "fork_ok (Suc k) (basic_prog k xs)"
proof -
  have main: "basic_prog k xs 0 = basic_main k" by (simp add: basic_prog_def)
  have drops: "snd_drops (basic_prog k xs u) = [u]" if "u \<le> k" for u using that by (simp add: basic_prog_def)
  have cl: "clones (basic_main k) = [1..<Suc k]" unfolding basic_main_def by (rule basic_main_forks(1))
  have "main_ok (basic_prog k xs) (basic_main k)"
    unfolding basic_main_def by (rule basic_main_forks(2)) (auto simp del: upt_Suc intro: drops)
  moreover have "sends_only (basic_prog k xs t)" if "t \<noteq> 0" "t \<noteq> Suc k" for t
    using that by (simp add: basic_prog_def only_progs)
  moreover have "receives_only (basic_prog k xs (Suc k))" by (simp add: basic_prog_def only_progs)
  moreover have "Spawn t \<in> set (basic_main k)" if "t \<noteq> 0" "basic_prog k xs t \<noteq> []" for t
    using that by (auto simp: basic_prog_def basic_main_def split: if_splits)
  moreover have "\<exists>t. h \<in> set (snd_drops (basic_prog k xs t))" if "h \<in> insert 0 (set [1..<Suc k])" for h
    using that drops [of h] by (intro exI [of _ h]) auto
  ultimately show ?thesis unfolding fork_ok_def main cl using assms by (simp del: upt_Suc) blast
qed

end
