(* ===== verification/Client_Live.thy ===== *)
theory Client_Live
  imports Client_Forks
begin

text \<open>
  Clients with one receiving thread never get stuck.  The locale \<open>live_channel\<close> adds to \<open>channel\<close>
  what its calls need to start, that a call in progress can go on unless it sleeps, and when nobody
  sleeps.  A client whose main thread clones, spawns and drops, and whose other threads send or
  receive, is then finished or can make a step.
\<close>

section \<open>Channels whose calls go on\<close>

text \<open>\<open>busy\<close> is the handle a thread's call borrows, \<open>agents\<close> the threads the channel has, \<open>signal\<close>
  the steps that only a signal causes, \<open>fatal\<close> the states in which a step aborts the process; thread \<open>rt\<close> is the one that receives.\<close>

locale live_channel = channel call internal reply role ok inside carried gathered snds rcvs
  for call :: "nat \<Rightarrow> 'a chan_op \<Rightarrow> 's \<Rightarrow> 's option"
    and internal :: "nat \<Rightarrow> 'act \<Rightarrow> 's \<Rightarrow> 's option"
    and reply :: "'s \<Rightarrow> nat \<Rightarrow> 'a reply"
    and role :: "'s \<Rightarrow> nat \<Rightarrow> role"
    and ok :: "'s \<Rightarrow> bool"
    and inside :: "'s \<Rightarrow> 'a multiset"
    and carried gathered :: "'s \<Rightarrow> nat \<Rightarrow> 'a multiset"
    and snds rcvs :: "'s \<Rightarrow> nat set" +
  fixes rt :: nat
    and busy :: "'s \<Rightarrow> nat \<Rightarrow> nat option"
    and asleep :: "'s \<Rightarrow> nat \<Rightarrow> bool"
    and agents :: "'s \<Rightarrow> nat set"
    and signal :: "'act \<Rightarrow> bool"
    and fatal :: "'s \<Rightarrow> bool"
  assumes busy_idle: "ok s \<Longrightarrow> reply s t \<noteq> Running \<or> role s t = Neither \<Longrightarrow> busy s t = None"
    and busy_call: "ok s \<Longrightarrow> call t (OSend b h x) s = Some s' \<Longrightarrow> busy s' t = None \<or> busy s' t = Some h"
      "ok s \<Longrightarrow> call t (ORecv b h) s = Some s' \<Longrightarrow> busy s' t = None \<or> busy s' t = Some h"
    and busy_call_others: "ok s \<Longrightarrow> call t op s = Some s' \<Longrightarrow> u \<noteq> t \<Longrightarrow> busy s' u = busy s u"
    and busy_internal: "ok s \<Longrightarrow> internal t a s = Some s' \<Longrightarrow> busy s' u = None \<or> busy s' u = busy s u"
    and agents_call: "ok s \<Longrightarrow> call t op s = Some s' \<Longrightarrow> agents s' = agents s"
    and agents_internal: "ok s \<Longrightarrow> internal t a s = Some s' \<Longrightarrow> agents s' = agents s"
    and running_agent: "ok s \<Longrightarrow> reply s t = Running \<Longrightarrow> t \<in> agents s"
    and reply_role: "ok s \<Longrightarrow> reply s t \<noteq> Running \<Longrightarrow> role s t = Sending \<Longrightarrow>
        \<exists>x. reply s t = Sent \<or> reply s t = Rejected x \<or> reply s t = Refused x"
      "ok s \<Longrightarrow> reply s t \<noteq> Running \<Longrightarrow> role s t = Receiving \<Longrightarrow>
        \<exists>vs. reply s t = Got vs \<or> reply s t = Closed \<or> reply s t = NothingYet"
    and start_send: "ok s \<Longrightarrow> t \<in> agents s \<Longrightarrow> t \<noteq> rt \<Longrightarrow> reply s t \<noteq> Running \<Longrightarrow> h \<in> snds s \<Longrightarrow>
        call t (OSend b h x) s \<noteq> None"
    and start_recv: "ok s \<Longrightarrow> rt \<in> agents s \<Longrightarrow> reply s rt \<noteq> Running \<Longrightarrow> h \<in> rcvs s \<Longrightarrow>
        call rt (ORecv b h) s \<noteq> None"
    and start_clone: "ok s \<Longrightarrow> t \<in> agents s \<Longrightarrow> t \<noteq> rt \<Longrightarrow> reply s t \<noteq> Running \<Longrightarrow> h \<in> snds s \<Longrightarrow>
        h' \<notin> snds s \<Longrightarrow> card (snds s) < 2 ^ 31 \<Longrightarrow> call t (OCloneSnd h h') s \<noteq> None"
    and start_drop_snd: "ok s \<Longrightarrow> t \<in> agents s \<Longrightarrow> t \<noteq> rt \<Longrightarrow> reply s t \<noteq> Running \<Longrightarrow> h \<in> snds s \<Longrightarrow>
        (\<And>u. role s u = Sending \<Longrightarrow> busy s u \<noteq> Some h) \<Longrightarrow> call t (ODropSnd h) s \<noteq> None"
    and start_drop_rcv: "ok s \<Longrightarrow> rt \<in> agents s \<Longrightarrow> reply s rt \<noteq> Running \<Longrightarrow> h \<in> rcvs s \<Longrightarrow>
        (\<And>u. role s u = Receiving \<Longrightarrow> busy s u \<noteq> Some h) \<Longrightarrow> call rt (ODropRcv h) s \<noteq> None"
    and goes_on: "ok s \<Longrightarrow> \<not> fatal s \<Longrightarrow> reply s t = Running \<Longrightarrow> \<not> asleep s t \<Longrightarrow>
        \<exists>a s'. \<not> signal a \<and> internal t a s = Some s'"
    and asleep_role: "ok s \<Longrightarrow> asleep s t \<Longrightarrow> reply s t = Running \<and> role s t \<noteq> Neither"
    and not_both_asleep: "ok s \<Longrightarrow> (\<And>u. reply s u = Running \<Longrightarrow> asleep s u) \<Longrightarrow> asleep s t \<Longrightarrow> role s t = Sending \<Longrightarrow>
        rcvs s \<noteq> {} \<Longrightarrow> asleep s rt \<Longrightarrow> role s rt \<noteq> Receiving"
    and receiver_not_alone: "ok s \<Longrightarrow> (\<And>u. reply s u = Running \<Longrightarrow> asleep s u) \<Longrightarrow> asleep s rt \<Longrightarrow>
        role s rt = Receiving \<Longrightarrow> snds s \<noteq> {}"

section \<open>The invariant of a forking client\<close>

context live_channel
begin

definition live_inv :: "nat set \<Rightarrow> 'a multiset \<Rightarrow> (nat \<Rightarrow> 'a instr list) \<Rightarrow> nat set \<Rightarrow> ('s, 'a) client \<Rightarrow> bool" where
  "live_inv T M P A c \<longleftrightarrow> client_inv T M c \<and> fork_inv rt P (prog c) (spawned c) (snds (chan c)) \<and>
     agents (chan c) = A \<and> (\<forall>t. waiting c t \<longrightarrow> t \<in> spawned c) \<and>
     (\<forall>t h. busy (chan c) t = Some h \<longrightarrow>
        waiting c t \<and> ((\<exists>x p. prog c t = Send h x # p) \<or> (\<exists>p. prog c t = RecvAll h # p)))"

lemma live_invD:
  assumes "live_inv T M P A c"
  shows "client_inv T M c" "fork_inv rt P (prog c) (spawned c) (snds (chan c))" "agents (chan c) = A"
    "waiting c t \<Longrightarrow> t \<in> spawned c"
    "busy (chan c) t = Some h \<Longrightarrow>
        waiting c t \<and> ((\<exists>x p. prog c t = Send h x # p) \<or> (\<exists>p. prog c t = RecvAll h # p))"
  using assms unfolding live_inv_def by blast+

lemma live_inv_start:
  assumes "fork_ok rt P" "client_ok T P" "ok s" "inside s = {#}" "snds s = {0}" "rcvs s = {0}" "\<And>t. reply s t \<noteq> Running"
  shows "live_inv T (\<Sum>t\<in>T. prog_items (P t)) P (agents s) (client_start s P)"
  using client_inv_start [OF assms(2-7)] fork_inv_start [OF assms(1,2)] assms(3,5,7) busy_idle
  by (simp add: live_inv_def client_start_def)

lemma live_inv_inside:
  assumes inv: "live_inv T M P A c" and st: "internal t a (chan c) = Some s'"
  shows "live_inv T M P A (c\<lparr>chan := s'\<rparr>)"
proof -
  note d = live_invD [OF inv]
  note ok = client_invD(1) [OF d(1)]
  have "busy s' u = Some h \<Longrightarrow> busy (chan c) u = Some h" for u h using busy_internal [OF ok st, of u] by auto
  then show ?thesis
    using client_inv_inside [OF d(1) st] d(2-5) internal_own [OF ok st] agents_internal [OF ok st]
    by (simp add: live_inv_def)
qed

text \<open>A call starts.\<close>

lemma live_inv_call:
  assumes inv: "live_inv T M P A c" and w: "\<not> waiting c t" and sp: "t \<in> spawned c" and p: "prog c t = i # p"
    and call: "call t op (chan c) = Some s'"
    and i: "(\<exists>h x b. i = Send h x \<and> op = OSend b h x) \<or> (\<exists>h b. i = RecvAll h \<and> op = ORecv b h)"
  shows "live_inv T M P A (c\<lparr>chan := s', waiting := (waiting c)(t := True)\<rparr>)"
proof -
  note d = live_invD [OF inv]
  note ok = client_invD(1) [OF d(1)]
  have snds: "snds s' = snds (chan c)"
    using i call call_send [OF ok] call_recv [OF ok] by (elim disjE exE conjE) simp_all
  have b1: "waiting c u" if "busy s' u = Some h" "u \<noteq> t" for u h
    using that busy_call_others [OF ok call, of u] d(5) [of u h] by simp
  have b2: "(\<exists>x p. prog c u = Send h x # p) \<or> (\<exists>p. prog c u = RecvAll h # p)" if b: "busy s' u = Some h" for u h
  proof (cases "u = t")
    case True
    then show ?thesis
      using i call b p busy_call(1) [OF ok, of t _ h] busy_call [OF ok] by (elim disjE exE conjE) fastforce+
  next
    case False
    then show ?thesis using b busy_call_others [OF ok call, of u] d(5) [of u h] by simp
  qed
  show ?thesis
    using client_inv_call [OF d(1) w p call i] d(2,4) sp agents_call [OF ok call] d(3) snds b1 b2
    unfolding live_inv_def by auto
qed

text \<open>An instruction that takes effect at once.\<close>

lemma live_inv_now:
  assumes inv: "live_inv T M P A c" and w: "\<not> waiting c t" and sp: "t \<in> spawned c" and p: "prog c t = i # p"
    and call: "call t op (chan c) = Some s'" and rt: "rt \<noteq> 0"
    and i: "(\<exists>h h'. i = CloneSnd h h' \<and> op = OCloneSnd h h') \<or> (\<exists>h. i = DropSnd h \<and> op = ODropSnd h) \<or>
      (\<exists>h h'. i = CloneRcv h h' \<and> op = OCloneRcv h h') \<or> (\<exists>h. i = DropRcv h \<and> op = ODropRcv h)"
  shows "live_inv T M P A (c\<lparr>chan := s', prog := (prog c)(t := p)\<rparr>)"
proof -
  note d = live_invD [OF inv]
  note ok = client_invD(1) [OF d(1)]
  have s': "snds s' = snds_after i (snds (chan c)) \<and> role s' t = Neither"
    using i call call_clone_snd [OF ok] call_drop_snd [OF ok] call_clone_rcv [OF ok] call_drop_rcv [OF ok]
    by (elim disjE exE conjE) simp_all
  have sp': "spawned_after i (spawned c) = spawned c" using i by (elim disjE exE conjE) simp_all
  have b: "busy s' u = Some h \<Longrightarrow> u \<noteq> t \<and> busy (chan c) u = Some h" for u h
    using busy_idle [OF ok_call [OF ok call], of t] s' busy_call_others [OF ok call, of u] by (cases "u = t") auto
  have "fork_inv rt P ((prog c)(t := p)) (spawned c) (snds s')"
    using fork_inv_pop [OF d(2) client_invD(4) [OF d(1)] p sp rt] s' sp' by simp
  then show ?thesis
    using client_inv_now [OF d(1) w p call i] d(3,4) agents_call [OF ok call] b d(5)
    by (simp add: live_inv_def)
qed

lemma live_inv_spawn:
  assumes inv: "live_inv T M P A c" and w: "\<not> waiting c t" and sp: "t \<in> spawned c" and p: "prog c t = Spawn u # p"
    and rt: "rt \<noteq> 0"
  shows "live_inv T M P A (c\<lparr>spawned := insert u (spawned c), prog := (prog c)(t := p)\<rparr>)"
proof -
  note d = live_invD [OF inv]
  have "busy (chan c) v = Some h \<Longrightarrow> v \<noteq> t" for v h using d(5) [of v h] w by auto
  moreover have "fork_inv rt P ((prog c)(t := p)) (insert u (spawned c)) (snds (chan c))"
    using fork_inv_pop [OF d(2) client_invD(4) [OF d(1)] p sp rt] by simp
  ultimately show ?thesis
    using client_inv_spawn [OF d(1) w p] d(3-5) unfolding live_inv_def by auto
qed

text \<open>A result arrives.\<close>

lemma live_inv_reply:
  assumes inv: "live_inv T M P A c" and w: "waiting c t" and rt: "rt \<noteq> 0"
    and st: "client_reply t (reply (chan c) t) c = Some c'" and inv': "client_inv T M c'"
  shows "live_inv T M P A c'"
proof -
  note d = live_invD [OF inv]
  note ok = client_invD(1) [OF d(1)]
  have run: "reply (chan c) t \<noteq> Running" using st by auto
  have clean: "panicked c' = {}" using client_invD(8) [OF inv'] .
  have free: "busy (chan c) t = None" using busy_idle [OF ok] run by blast
  have b: "busy (chan c) v = Some h \<Longrightarrow> v \<noteq> t" for v h using free by auto
  have "\<exists>i p. prog c t = i # p \<and> snds_after i (snds (chan c)) = snds (chan c) \<and> spawned_after i (spawned c) = spawned c"
    using client_invD(2) [OF d(1), of t] w by (auto simp: call_matches_def)
  then obtain i p where p: "prog c t = i # p"
    and "snds_after i (snds (chan c)) = snds (chan c)" "spawned_after i (spawned c) = spawned c" by blast
  then have pop: "fork_inv rt P ((prog c)(t := p)) (spawned c) (snds (chan c))"
    using fork_inv_pop [OF d(2) client_invD(4) [OF d(1)] p d(4) [OF w] rt] by simp
  show ?thesis
  proof (cases "reply (chan c) t")
    case Sent
    then have c': "c' = c\<lparr>prog := (prog c)(t := p), waiting := (waiting c)(t := False)\<rparr>" using st p by simp
    show ?thesis using inv' pop d(3-5) b unfolding live_inv_def c' by auto
  next
    case (Rejected x)
    then show ?thesis using st clean by auto
  next
    case (Refused x)
    then obtain h y q where q: "prog c t = Send h y # q"
      and c': "c' = c\<lparr>prog := (prog c)(t := Send h x # q), waiting := (waiting c)(t := False)\<rparr>"
      using st by (auto split: list.splits instr.splits)
    show ?thesis using inv' fork_inv_resend [OF d(2) q] d(3-5) b unfolding live_inv_def c' by auto
  next
    case (Got vs)
    then have c': "c' = c\<lparr>acc := (acc c)(t := acc c t @ vs), waiting := (waiting c)(t := False)\<rparr>" using st by simp
    show ?thesis using inv' d(2-5) b unfolding live_inv_def c' by auto
  next
    case Closed
    then have c': "c' = c\<lparr>prog := (prog c)(t := p), waiting := (waiting c)(t := False), ended := insert t (ended c)\<rparr>"
      using st p by simp
    show ?thesis using inv' pop d(3-5) b unfolding live_inv_def c' by auto
  next
    case NothingYet
    then have c': "c' = c\<lparr>waiting := (waiting c)(t := False)\<rparr>" using st by simp
    show ?thesis using inv' d(2-5) b unfolding live_inv_def c' by auto
  qed (use st in simp_all)
qed

lemma live_inv_step:
  assumes inv: "live_inv T M P A c" and st: "client_step call internal reply poly m c = Some c'" and rt: "rt \<noteq> 0"
  shows "live_inv T M P A c'"
proof (cases m)
  case (Inside t a)
  then show ?thesis using st live_inv_inside [OF inv] by auto
next
  case (Go t)
  have sp: "t \<in> spawned c" using st Go by (simp split: if_splits)
  show ?thesis
  proof (cases "waiting c t")
    case True
    then have "client_reply t (reply (chan c) t) c = Some c'" using st Go by (simp split: if_splits)
    then show ?thesis using live_inv_reply [OF inv True rt] client_inv_step [OF live_invD(1) [OF inv] st] by blast
  next
    case False
    then obtain i p where p: "prog c t = i # p" "client_begin call poly t i c = Some c'"
      using st Go by (auto split: if_splits list.splits)
    show ?thesis
    proof (cases i)
      case (Spawn u)
      then show ?thesis using live_inv_spawn [OF inv False sp _ rt] p by auto
    qed (use p in \<open>auto simp: client_call_def client_now_def
        intro!: live_inv_call [OF inv False sp p(1)] live_inv_now [OF inv False sp p(1) _ rt]\<close>)
  qed
qed

section \<open>Never stuck\<close>

text \<open>Clones are made by the main thread, and of senders only.\<close>

lemma no_clones:
  "sends_only p \<or> receives_only p \<Longrightarrow> i \<in> set p \<Longrightarrow> \<not> is_clone_snd h i \<and> \<not> is_clone_rcv h i"
  by (induction p rule: clones.induct) (auto simp: is_clone_snd_def is_clone_rcv_def)

lemma main_clones:
  "main_ok P p \<Longrightarrow> i \<in> set p \<Longrightarrow> \<not> is_clone_rcv h i \<and> (is_clone_snd h i \<longrightarrow> h \<in> set (clones p))"
  by (induction p rule: clones.induct) (auto simp: is_clone_snd_def is_clone_rcv_def)

lemma clone_places:
  assumes "fork_inv rt P Q sp L" "i \<in> set (Q u)"
  shows "\<not> is_clone_rcv h i" "is_clone_snd h i \<Longrightarrow> h \<in> set (clones (Q 0))"
proof -
  note f = fork_invD [OF assms(1)]
  have "\<not> is_clone_rcv h i \<and> (is_clone_snd h i \<longrightarrow> h \<in> set (clones (Q 0)))"
  proof (cases "u = 0")
    case True
    then show ?thesis using main_clones [OF f(1)] assms(2) by blast
  next
    case False
    then have "sends_only (Q u) \<or> receives_only (Q u)" using f(3,4) by blast
    then show ?thesis using no_clones [OF _ assms(2)] by blast
  qed
  then show "\<not> is_clone_rcv h i" "is_clone_snd h i \<Longrightarrow> h \<in> set (clones (Q 0))" by blast+
qed

text \<open>A handle that is still to be dropped and no longer to be made is live.\<close>

lemma handles_live:
  assumes "live_inv T M P A c"
  shows "h \<in> set (snd_drops (prog c t)) \<Longrightarrow> h \<notin> set (clones (prog c 0)) \<Longrightarrow> h \<in> snds (chan c)"
    "h \<in> set (rcv_drops (prog c t)) \<Longrightarrow> h \<in> rcvs (chan c)"
proof -
  note d = live_invD [OF assms]
  note h = handles_okD [OF client_invD(4) [OF d(1)]]
  show "h \<in> snds (chan c)" if "h \<in> set (snd_drops (prog c t))" "h \<notin> set (clones (prog c 0))"
    using side_okD(3) [OF h(2) that(1)] clone_places(2) [OF d(2)] that(2) by blast
  show "h \<in> rcvs (chan c)" if "h \<in> set (rcv_drops (prog c t))"
    using side_okD(3) [OF h(3) that] clone_places(1) [OF d(2)] by blast
qed

text \<open>What the next instruction of a running thread needs is there.\<close>

lemma next_live:
  assumes inv: "live_inv T M P A c" and sp: "t \<in> spawned c" and p: "prog c t = i # p" and rt: "rt \<noteq> 0"
  shows "i = Send h x \<Longrightarrow> t \<noteq> rt \<and> h \<in> snds (chan c)" "i = RecvAll h \<Longrightarrow> t = rt \<and> h \<in> rcvs (chan c)"
    "i = CloneSnd h h' \<Longrightarrow> t = 0 \<and> h \<in> snds (chan c) \<and> h' \<notin> snds (chan c)"
    "i = DropSnd h \<Longrightarrow> t \<noteq> rt \<and> h \<in> snds (chan c)" "i = DropRcv h \<Longrightarrow> t = rt \<and> h \<in> rcvs (chan c)"
    "i \<noteq> CloneRcv h h'"
proof -
  note d = live_invD [OF inv]
  note f = fork_invD [OF d(2)] and h = handles_okD [OF client_invD(4) [OF d(1)]]
  have main: "t = 0 \<Longrightarrow> main_ok P (i # p)" using f(1) p by simp
  have rcv: "t = rt \<Longrightarrow> receives_only (i # p)" using f(4) p by simp
  have snd: "t \<noteq> 0 \<Longrightarrow> t \<noteq> rt \<Longrightarrow> sends_only (i # p)" using f(3) [of t] p by simp
  have ok: "prog_ok (i # p)" using h(1) [of t] p by simp
  have live: "k \<in> set (snd_drops (i # p)) \<Longrightarrow> t \<noteq> 0 \<Longrightarrow> k \<in> snds (chan c)" for k
    using handles_live(1) [OF inv, of k t] f(6) [OF sp, of k] p by simp
  have live': "k \<in> set (rcv_drops (i # p)) \<Longrightarrow> k \<in> rcvs (chan c)" for k
    using handles_live(2) [OF inv, of k t] p by simp
  show "t \<noteq> rt \<and> h \<in> snds (chan c)" if i: "i = Send h x"
  proof -
    have "t \<noteq> 0" "t \<noteq> rt" using main rcv i by auto
    then show ?thesis using live [of h] ok i by simp
  qed
  show "t = rt \<and> h \<in> rcvs (chan c)" if i: "i = RecvAll h"
  proof -
    have "t = rt" using main snd i by (cases "t = 0"; cases "t = rt") auto
    then show ?thesis using live' [of h] ok i by simp
  qed
  show "t = 0 \<and> h \<in> snds (chan c) \<and> h' \<notin> snds (chan c)" if i: "i = CloneSnd h h'"
  proof -
    have t: "t = 0" using snd rcv i by (cases "t = 0"; cases "t = rt") auto
    then have "h = 0" using main i by simp
    moreover have "0 \<in> set (snd_drops (prog c 0))" using ok i p t by simp
    moreover have "0 \<notin> set (clones (prog c 0))"
    proof -
      have "prog_ok q \<Longrightarrow> 0 \<notin> set (clones q)" for q :: "'a instr list"
        by (induction q rule: prog_ok.induct) auto
      then show ?thesis using h(1) by blast
    qed
    moreover have "h' \<notin> snds (chan c)" using f(7) [of h'] p t i by simp
    ultimately show ?thesis using t handles_live(1) [OF inv] by blast
  qed
  show "t \<noteq> rt \<and> h \<in> snds (chan c)" if i: "i = DropSnd h"
  proof -
    have "t \<noteq> rt" using rcv i by auto
    moreover have "h \<in> snds (chan c)"
    proof (cases "t = 0")
      case True
      then show ?thesis using handles_live(1) [OF inv, of h t] main p i by simp
    qed (use live [of h] i in simp)
    ultimately show ?thesis by blast
  qed
  show "t = rt \<and> h \<in> rcvs (chan c)" if i: "i = DropRcv h"
  proof -
    have "t = rt" using main snd i by (cases "t = 0"; cases "t = rt") auto
    then show ?thesis using live' [of h] i by simp
  qed
  show "i \<noteq> CloneRcv h h'" using main snd rcv by (cases "t = 0"; cases "t = rt") auto
qed

text \<open>Nobody else uses the handle a thread is about to drop.\<close>

lemma not_borrowed:
  assumes inv: "live_inv T M P A c" and w: "\<not> waiting c t"
  shows "h \<in> set (snd_drops (prog c t)) \<Longrightarrow> role (chan c) u = Sending \<Longrightarrow> busy (chan c) u \<noteq> Some h"
    "h \<in> set (rcv_drops (prog c t)) \<Longrightarrow> role (chan c) u = Receiving \<Longrightarrow> busy (chan c) u \<noteq> Some h"
proof -
  note d = live_invD [OF inv]
  note h = handles_okD [OF client_invD(4) [OF d(1)]]
  show "busy (chan c) u \<noteq> Some h" if h': "h \<in> set (snd_drops (prog c t))" and r: "role (chan c) u = Sending"
  proof
    assume b: "busy (chan c) u = Some h"
    then obtain x p where p: "waiting c u" "prog c u = Send h x # p"
      using d(5) [OF b] client_invD(2) [OF d(1), of u] r by (auto simp: call_matches_def)
    then have "h \<in> set (snd_drops (prog c u))" using h(1) [of u] by simp
    then have "u = t" using side_okD(2) [OF h(2)] h' by blast
    then show False using p(1) w by simp
  qed
  show "busy (chan c) u \<noteq> Some h" if h': "h \<in> set (rcv_drops (prog c t))" and r: "role (chan c) u = Receiving"
  proof
    assume b: "busy (chan c) u = Some h"
    then obtain p where p: "waiting c u" "prog c u = RecvAll h # p"
      using d(5) [OF b] client_invD(2) [OF d(1), of u] r by (auto simp: call_matches_def)
    then have "h \<in> set (rcv_drops (prog c u))" using h(1) [of u] by simp
    then have "u = t" using side_okD(2) [OF h(3)] h' by blast
    then show False using p(1) w by simp
  qed
qed

lemma can_begin:
  assumes inv: "live_inv T M P A c" and fork: "fork_ok rt P" and sp: "t \<in> spawned c" and w: "\<not> waiting c t"
    and p: "prog c t = i # p" and t: "t \<in> A" and run: "reply (chan c) t \<noteq> Running"
  shows "client_begin call poly t i c \<noteq> None"
proof -
  note d = live_invD [OF inv]
  have rt: "rt \<noteq> 0" using fork by (simp add: fork_ok_def)
  note n = next_live [OF inv sp p rt] and free = not_borrowed [OF inv w]
  have ok: "ok (chan c)" and ag: "t \<in> agents (chan c)" using client_invD(1) [OF d(1)] t d(3) by simp_all
  show ?thesis
  proof (cases i)
    case (Send h x)
    then show ?thesis using start_send [OF ok ag _ run] n(1) by (simp add: client_call_def)
  next
    case (RecvAll h)
    then show ?thesis using start_recv [OF ok _ _] n(2) ag run by (simp add: client_call_def)
  next
    case (CloneSnd h h')
    note cl = n(3) [OF CloneSnd]
    have "snds (chan c) \<subseteq> insert 0 (set (clones (P 0))) - {h'}" using fork_invD(8) [OF d(2)] cl by blast
    then have "card (snds (chan c)) \<le> card (insert 0 (set (clones (P 0))) - {h'})" by (intro card_mono) auto
    also have "\<dots> \<le> length (clones (P 0))"
    proof -
      have "h' \<in> insert 0 (set (clones (P 0)))" using fork_invD(9) [OF d(2)] p CloneSnd cl by auto
      then have "card (insert 0 (set (clones (P 0))) - {h'}) = card (insert 0 (set (clones (P 0)))) - 1" by simp
      also have "\<dots> \<le> card (set (clones (P 0)))" by (simp add: card_insert_if)
      also have "\<dots> \<le> length (clones (P 0))" by (rule card_length)
      finally show ?thesis .
    qed
    finally have "card (snds (chan c)) < 2 ^ 31" using fork by (simp add: fork_ok_def)
    then show ?thesis using start_clone [OF ok ag _ run, of h h'] cl rt CloneSnd by (simp add: client_now_def)
  next
    case (DropSnd h)
    then have "h \<in> set (snd_drops (prog c t))" using p by simp
    then show ?thesis using start_drop_snd [OF ok ag _ run, of h] n(4) [OF DropSnd] free(1) DropSnd
      by (simp add: client_now_def)
  next
    case (CloneRcv h h')
    then show ?thesis using n(6) by blast
  next
    case (DropRcv h)
    then have "h \<in> set (rcv_drops (prog c t))" using p by simp
    then show ?thesis using start_drop_rcv [OF ok _ _, of h] n(5) [OF DropRcv] free(2) DropRcv ag run
      by (simp add: client_now_def)
  qed simp
qed

text \<open>When nothing can move, every call in progress sleeps and every program is at its end or at such
  a call.\<close>

lemma stuck_asleep:
  assumes inv: "live_inv T M P A c" and stuck: "\<not> can_move call internal reply signal poly c" and "\<not> fatal (chan c)"
    and run: "reply (chan c) t = Running"
  shows "asleep (chan c) t"
proof (rule ccontr)
  assume "\<not> asleep (chan c) t"
  then obtain a s' where a: "\<not> signal a" "internal t a (chan c) = Some s'"
    using goes_on [OF client_invD(1) [OF live_invD(1) [OF inv]] assms(3) run] by blast
  have "client_step call internal reply poly (Inside t a) c = None"
    using stuck a(1) unfolding can_move_def by (metis from_signal.simps(1))
  then show False using a(2) by simp
qed

lemma stuck_waiting:
  assumes inv: "live_inv T M P A c" and fork: "fork_ok rt P" and stuck: "\<not> can_move call internal reply signal poly c"
    and nf: "\<not> fatal (chan c)" and sub: "T \<subseteq> A"
    and sp: "t \<in> spawned c" and p: "prog c t \<noteq> []"
  shows "waiting c t" "asleep (chan c) t"
proof -
  note d = live_invD [OF inv]
  note ci = client_invD [OF d(1)]
  have go: "client_step call internal reply poly (Go t) c = None" using stuck unfolding can_move_def by (metis from_signal.simps(2))
  have clean: "t \<notin> panicked c" using ci(8) by simp
  show w: "waiting c t"
  proof (rule ccontr)
    assume w: "\<not> waiting c t"
    obtain i q where q: "prog c t = i # q" using p by (cases "prog c t") auto
    have "reply (chan c) t \<noteq> Running"
      using ci(2) [of t] w stuck_asleep [OF inv stuck nf, of t] asleep_role [OF ci(1), of t] by (auto simp: call_matches_def)
    moreover have "t \<in> A" using ci(10) [of t] p sub by blast
    ultimately have "client_begin call poly t i c \<noteq> None" using can_begin [OF inv fork sp w q] by blast
    then show False using go q w sp clean by simp
  qed
  show "asleep (chan c) t"
  proof (cases "reply (chan c) t = Running")
    case True
    then show ?thesis by (rule stuck_asleep [OF inv stuck nf])
  next
    case False
    have "client_reply t (reply (chan c) t) c \<noteq> None"
      using ci(2) [of t] w reply_role [OF ci(1) False] by (fastforce simp: call_matches_def)
    then show ?thesis using go w sp clean by simp
  qed
qed

theorem client_never_stuck:
  assumes reach: "client_reachable call internal reply poly (client_start s P) c"
    and fork: "fork_ok rt P" and cok: "client_ok T P" and sub: "T \<subseteq> agents s"
    and start: "ok s" "inside s = {#}" "snds s = {0}" "rcvs s = {0}" "\<And>t. reply s t \<noteq> Running"
  shows "can_move call internal reply signal poly c \<or> fatal (chan c) \<or> (\<forall>t. prog c t = [] \<and> reply (chan c) t \<noteq> Running)"
proof (cases "can_move call internal reply signal poly c \<or> fatal (chan c)")
  case False
  then have stuck: "\<not> can_move call internal reply signal poly c" and nf: "\<not> fatal (chan c)" by blast+
  have rt: "rt \<noteq> 0" using fork by (simp add: fork_ok_def)
  have inv: "live_inv T (\<Sum>t\<in>T. prog_items (P t)) P (agents s) c"
    using reach by induction (use live_inv_start [OF fork cok start] live_inv_step [OF _ _ rt] in blast)+
  note d = live_invD [OF inv]
  note ci = client_invD [OF d(1)] and f = fork_invD [OF d(2)]
  note wait = stuck_waiting [OF inv fork stuck nf sub] and sleep = stuck_asleep [OF inv stuck nf]
  have p0: "prog c 0 = []"
  proof (rule ccontr)
    assume ne: "prog c 0 \<noteq> []"
    then have "waiting c 0" using wait(1) f(11) by blast
    then show False using ci(2) [of 0] f(1) by (auto simp: call_matches_def)
  qed
  then have sp: "prog c t \<noteq> [] \<Longrightarrow> t \<in> spawned c" for t using f(10) [of t] by simp
  have busy: "waiting c t" "asleep (chan c) t" if "prog c t \<noteq> []" for t using wait [OF sp [OF that] that] by blast+
  have none_sends: "prog c t = []" if t: "t \<noteq> rt" for t
  proof (rule ccontr)
    assume ne: "prog c t \<noteq> []"
    then have "t \<noteq> 0" using p0 by metis
    then have "sends_only (prog c t)" using f(3) t by blast
    then obtain h x q where q: "prog c t = Send h x # q" "role (chan c) t = Sending"
      using ci(2) [of t] busy(1) [OF ne] by (auto simp: call_matches_def)
    have "snds (chan c) \<noteq> {}" using sender_alive [OF ci(4), of "Send h x" t] q(1) by (simp add: is_send_def)
    then obtain u i where u: "i \<in> set (prog c u)" "is_recv_all i" using ci(5,7) by blast
    have rcvs: "rcvs (chan c) \<noteq> {}" using receiver_alive [OF ci(4) u] .
    have "u = rt"
    proof (rule ccontr)
      assume "u \<noteq> rt"
      have "sends_only p \<Longrightarrow> i \<in> set p \<Longrightarrow> False" for p :: "'a instr list"
        using u(2) by (induction p rule: sends_only.induct) (auto simp: is_recv_all_def)
      then show False using f(3) [of u] \<open>u \<noteq> rt\<close> u(1) p0 by (cases "u = 0") auto
    qed
    then have "asleep (chan c) rt" using busy(2) [of rt] u(1) by (cases "prog c rt") auto
    moreover have "role (chan c) rt = Receiving"
    proof -
      have "prog c rt \<noteq> []" using \<open>u = rt\<close> u(1) by auto
      then show ?thesis using ci(2) [of rt] busy(1) f(4) by (auto simp: call_matches_def)
    qed
    ultimately show False using not_both_asleep [OF ci(1) sleep busy(2) [OF ne] q(2) rcvs] by blast
  qed
  have "prog c rt = []"
  proof (rule ccontr)
    assume ne: "prog c rt \<noteq> []"
    have r: "receives_only (prog c rt)" by (rule f(4))
    then have "role (chan c) rt = Receiving"
      using ci(2) [of rt] busy(1) [OF ne] by (auto simp: call_matches_def)
    then have "snds (chan c) \<noteq> {}" using receiver_not_alone [OF ci(1) sleep busy(2) [OF ne]] by blast
    then obtain h t where "h \<in> set (snd_drops (prog c t))" using f(12) by blast
    moreover have "receives_only p \<Longrightarrow> snd_drops p = []" for p :: "'a instr list"
      by (induction p rule: receives_only.induct) auto
    ultimately show False using r none_sends [of t] by (cases "t = rt") auto
  qed
  then have done_all: "prog c t = []" for t using none_sends by (cases "t = rt") auto
  moreover have "reply (chan c) t \<noteq> Running" for t
  proof
    assume run: "reply (chan c) t = Running"
    have "\<not> waiting c t" using ci(2) [of t] done_all [of t] by (auto simp: call_matches_def)
    then show False
      using ci(2) [of t] run asleep_role [OF ci(1) sleep [OF run]] by (simp add: call_matches_def)
  qed
  ultimately show ?thesis by blast
qed blast

end

end
