(* ===== verification/Mpmc_Live.thy ===== *)
theory Mpmc_Live
  imports Mpmc_Solo Mpmc_Clients Client_Live
begin

text \<open>
  The bag with one receiving thread is a \<open>live_channel\<close>: its calls can start, a call in progress can go on
  unless it sleeps, a sender and the receiver never both sleep with nobody running, and the receiver
  does not sleep on when the last sender is gone.
\<close>

section \<open>Steps that are possible\<close>

definition interrupts :: "'a action \<Rightarrow> bool" where
  "interrupts a \<longleftrightarrow> (case a of Interrupt \<Rightarrow> True | _ \<Rightarrow> False)"

definition mpmc_asleep :: "'a sys \<Rightarrow> nat \<Rightarrow> bool" where
  "mpmc_asleep s t \<longleftrightarrow> recv_asleep (threads s t) \<or> send_asleep (threads s t)"

lemma spin_goto_possible [simp]:
  "send_spin_goto t c n d w s \<noteq> Disabled" "send_spin_goto t c n d w s \<noteq> Aborted e"
  "recv_spin_goto t c' n w s \<noteq> Disabled" "recv_spin_goto t c' n w s \<noteq> Aborted e"
  by (simp_all add: send_spin_goto_def recv_spin_goto_def split: spin_outcome.splits)

text \<open>A call in progress that does not sleep has a step: its next operation, a load that returns the
  latest value, or a wake call.\<close>

lemma goes_on_step:
  assumes inv: "channel_inv s" and t: "t < n_threads s" and run: "\<not> ready (threads s t)" "\<not> mpmc_asleep s t"
  shows "\<exists>a s'. \<not> interrupts a \<and> step x86_64 t a s = Next s'"
proof -
  have next': "\<exists>a s'. \<not> interrupts a \<and> step x86_64 t a s = Next s'"
    if "step x86_64 t a s \<noteq> Disabled" "\<And>e. step x86_64 t a s \<noteq> Aborted e" "\<not> interrupts a" for a
    using that step_no_fault [OF inv, of x86_64 t a] by (cases "step x86_64 t a s") auto
  note defs = step_def on_step_def on_woken_def on_spin_def
  have seen: "send s \<in> set (send_seen s)" "recv s \<in> set (recv_seen s)"
    using death_invD(10,11) [OF channel_invD(2) [OF inv]] by blast+
  have op: "\<exists>a s'. \<not> interrupts a \<and> step x86_64 t a s = Next s'" if "steps_on (threads s t)"
    using step_possible [OF inv t that, of x86_64] by (intro exI [of _ Step]) (auto simp: interrupts_def)
  show ?thesis
  proof (cases "threads s t")
    case (SendSpin c n d)
    show ?thesis
      by (rule next' [of "if n = 0 then Step else Load (send s)"])
        (use SendSpin t seen in \<open>auto simp: defs interrupts_def send_spin_rmw_def send_spin_load_def Let_def\<close>)
  next
    case (RecvSpin c n)
    show ?thesis
      by (rule next' [of "if n = 0 then Step else Load (recv s)"])
        (use RecvSpin t seen in \<open>auto simp: defs interrupts_def recv_spin_rmw_def recv_spin_load_def Let_def\<close>)
  next
    case (TryWake c d)
    obtain W where "wake_allowed (n_threads s) (\<lambda>u. recv_asleep (threads s u)) 1 W" using wake_possible by blast
    then show ?thesis using TryWake t
      by (intro next' [of "Woken W"]) (auto simp: defs interrupts_def wake_step_def)
  next
    case (ClaimWake c vs)
    obtain W where "wake_allowed (n_threads s) (\<lambda>u. send_asleep (threads s u)) 1 W" using wake_possible by blast
    then show ?thesis using ClaimWake t
      by (intro next' [of "Woken W"]) (auto simp: defs interrupts_def wake_step_def)
  next
    case SDropWake
    obtain W where "wake_allowed (n_threads s) (\<lambda>u. recv_asleep (threads s u)) u32_max W" using wake_possible by blast
    then show ?thesis using SDropWake t
      by (intro next' [of "Woken W"]) (auto simp: defs interrupts_def wake_step_def)
  next
    case RDropWake
    obtain W where "wake_allowed (n_threads s) (\<lambda>u. send_asleep (threads s u)) u32_max W" using wake_possible by blast
    then show ?thesis using RDropWake t
      by (intro next' [of "Woken W"]) (auto simp: defs interrupts_def wake_step_def)
  next
    case (SendSleep c e d)
    then show ?thesis using t by (intro next' [of Step]) (auto simp: defs interrupts_def send_sleep_step_def)
  next
    case (SendTorch c d)
    then show ?thesis using t by (intro next' [of Step]) (auto simp: defs interrupts_def send_torch_step_def)
  next
    case (RecvSleep c e)
    then show ?thesis using t by (intro next' [of Step]) (auto simp: defs interrupts_def recv_sleep_step_def)
  next
    case (RecvTorch c)
    then show ?thesis using t by (intro next' [of Step]) (auto simp: defs interrupts_def recv_torch_step_def)
  next
    case SDropDead
    then show ?thesis using t by (intro next' [of Step]) (auto simp: defs interrupts_def sdrop_dead_step_def Let_def)
  next
    case RDropDead
    then show ?thesis using t by (intro next' [of Step]) (auto simp: defs interrupts_def rdrop_dead_step_def Let_def)
  qed (use run op in \<open>simp_all add: mpmc_asleep_def\<close>)
qed

section \<open>When nobody runs\<close>

lemma idle_not_both_asleep:
  assumes inv: "channel_inv s" and sl: "sleep_inv s" and ac: "accounted s"
    and run: "\<And>w. ready (threads s w) \<or> recv_asleep (threads s w) \<or> send_asleep (threads s w)"
    and u: "recv_asleep (threads s u)" and v: "send_asleep (threads s v)"
  shows False
proof -
  note h = channel_invD(1) [OF inv]
  have nr: "\<not> r_active (threads s w)" and ns: "\<not> s_active (threads s w)" for w
    using run [of w] waker_not_asleep [of "threads s w"] by auto
  have "slots (recv s) = {}" using sleep_invD(2) [OF sl u] nr by blast
  moreover have pend: "send_pending s" using sleep_invD(4) [OF sl v] ns by blast
  moreover have alive: "\<not> bit (send s) 0"
  proof
    assume "bit (send s) 0"
    then have "receivers s = {}" using death_invD(4) [OF channel_invD(2) [OF inv]] by blast
    then show False using handle_invD(7) [OF h, of u] asleep_call(1) [OF u] by auto
  qed
  moreover have "owned (threads s w) = {}" for w using run [of w] by (cases "threads s w") auto
  ultimately show False using ac by (auto simp: accounted_def send_pending_def)
qed

lemma idle_receiver_has_sender:
  assumes inv: "channel_inv s" and dw: "dead_woken s"
    and run: "\<And>w. ready (threads s w) \<or> recv_asleep (threads s w) \<or> send_asleep (threads s w)"
    and u: "recv_asleep (threads s u)"
  shows "senders s \<noteq> Map.empty"
proof
  assume e: "senders s = Map.empty"
  have no: "threads s w \<noteq> SDropDead" "threads s w \<noteq> SDropWake" for w using run [of w] by auto
  then have "\<not> bit (recv s) 0" using death_invD(3) [OF channel_invD(2) [OF inv] e] by blast
  then show False using dw u no(2) unfolding dead_woken_def by blast
qed

section \<open>One receiving thread\<close>

definition mpmc_call_one :: "bool \<Rightarrow> nat \<Rightarrow> nat \<Rightarrow> 'a chan_op \<Rightarrow> 'a sys \<Rightarrow> 'a sys option" where
  "mpmc_call_one x86_64 rt t op s =
     (case op of ORecv b h \<Rightarrow> if t = rt then mpmc_call x86_64 t op s else None | _ \<Rightarrow> mpmc_call x86_64 t op s)"

definition mpmc_live_ok :: "nat \<Rightarrow> 'a sys \<Rightarrow> bool" where
  "mpmc_live_ok rt s \<longleftrightarrow> mpmc_ok s \<and> sleep_inv s \<and> accounted s \<and> dead_woken s \<and>
     (\<forall>u. rcall_of (threads s u) \<noteq> None \<longrightarrow> u = rt)"

definition handle_pc :: "'a pc \<Rightarrow> nat option" where
  "handle_pc p = (case scall_of p of Some c \<Rightarrow> Some (sc_handle c) | None \<Rightarrow> map_option rc_handle (rcall_of p))"

definition mpmc_busy :: "'a sys \<Rightarrow> nat \<Rightarrow> nat option" where
  "mpmc_busy s t = handle_pc (threads s t)"

lemma handle_pc_calls: "scall_of p = Some c \<Longrightarrow> handle_pc p = Some (sc_handle c)"
  "scall_of p = None \<Longrightarrow> rcall_of p = Some k \<Longrightarrow> handle_pc p = Some (rc_handle k)"
  "scall_of p = None \<Longrightarrow> rcall_of p = None \<Longrightarrow> handle_pc p = None"
  by (simp_all add: handle_pc_def)

definition mpmc_agents :: "'a sys \<Rightarrow> nat set" where
  "mpmc_agents s = {..<n_threads s}"

lemma mpmc_call_one_Some: "mpmc_call_one x86_64 rt t op s = Some s' \<Longrightarrow> mpmc_call x86_64 t op s = Some s'"
  by (auto simp: mpmc_call_one_def split: chan_op.splits if_splits)

lemma mpmc_live_okD:
  assumes "mpmc_live_ok rt s"
  shows "mpmc_ok s" "sleep_inv s" "accounted s" "dead_woken s" "rcall_of (threads s u) \<noteq> None \<Longrightarrow> u = rt"
    "channel_inv s" "one_receiver s"
proof -
  show l: "mpmc_ok s" "sleep_inv s" "accounted s" "dead_woken s" "rcall_of (threads s u) \<noteq> None \<Longrightarrow> u = rt" for u
    using assms unfolding mpmc_live_ok_def by blast+
  show "channel_inv s" using mpmc_okD(1) [OF l(1)] .
  show "one_receiver s" unfolding one_receiver_def using l(5) by metis
qed

lemma mpmc_live_step:
  assumes ok: "mpmc_live_ok rt s" and st: "step x86_64 t a s = Next s'" and ok': "mpmc_ok s'"
    and r: "\<And>u. rcall_of (threads s' u) \<noteq> None \<Longrightarrow> u = rt"
  shows "mpmc_live_ok rt s'"
proof -
  note d = mpmc_live_okD [OF ok]
  show ?thesis
    unfolding mpmc_live_ok_def
    using ok' r sleep_inv_step [OF st d(6,2)] accounted_step [OF st d(6,3)] dead_woken_step [OF st d(4,7,6,2)] by blast
qed

lemma rcall_wake [simp]: "rcall_of (wake_pc p) = rcall_of p" "scall_of (wake_pc p) = scall_of p"
  by (cases p; simp)+

lemma mpmc_internal_runs:
  assumes ok: "mpmc_ok s" and st: "mpmc_internal x86_64 t a s = Some s'"
  shows "runs t s s'" "step x86_64 t a s = Next s'"
proof -
  have r: "\<not> ready (threads s t)" using mpmc_internal_keeps(3) [OF ok st] .
  then show step: "step x86_64 t a s = Next s'" using st by (simp add: mpmc_internal_def next_state_Some)
  then show "runs t s s'" using r by (cases rule: step_call_or_runs) blast+
qed

lemma runs_calls:
  assumes "runs t s s'"
  shows "scall_of (threads s' u) = None \<or> scall_of (threads s' u) = scall_of (threads s u)"
    "rcall_of (threads s' u) = None \<or> rcall_of (threads s' u) = rcall_of (threads s u)" "n_threads s' = n_threads s"
  using assms by (auto simp: runs_def split: if_splits)

lemma mpmc_live_internal:
  assumes ok: "mpmc_live_ok rt s" and st: "mpmc_internal x86_64 t a s = Some s'"
  shows "mpmc_live_ok rt s'" "mpmc_busy s' u = None \<or> mpmc_busy s' u = mpmc_busy s u" "mpmc_agents s' = mpmc_agents s"
proof -
  note d = mpmc_live_okD [OF ok]
  note run = mpmc_internal_runs [OF d(1) st]
  note c = runs_calls [OF run(1)]
  show "mpmc_live_ok rt s'"
    by (rule mpmc_live_step [OF ok run(2) mpmc_internal_keeps(2) [OF d(1) st]]) (use c(2) d(5) in metis)
  show "mpmc_busy s' u = None \<or> mpmc_busy s' u = mpmc_busy s u"
    using c(1,2) [of u] by (cases "threads s u"; auto simp: mpmc_busy_def handle_pc_def split: option.splits)
  show "mpmc_agents s' = mpmc_agents s" by (simp add: mpmc_agents_def c(3))
qed

text \<open>The calls.\<close>

lemma call_frame:
  assumes "call_move t s s'"
  shows "n_threads s' = n_threads s" "u \<noteq> t \<Longrightarrow> threads s' u = threads s u"
  using assms by (cases; simp)+

lemma rcall_view: "rcall_of p \<noteq> None \<longleftrightarrow> role_pc p = Receiving \<and> reply_pc p = Running"
proof (cases p)
  case (SendRet r)
  then show ?thesis by (cases r) simp_all
next
  case (RecvRet r)
  then show ?thesis by (cases r) simp_all
qed simp_all

lemma mpmc_live_call:
  assumes ok: "mpmc_live_ok rt s" and call: "mpmc_call_one x86_64 rt t op s = Some s'"
  shows "mpmc_live_ok rt s'" "u \<noteq> t \<Longrightarrow> mpmc_busy s' u = mpmc_busy s u" "mpmc_agents s' = mpmc_agents s"
proof -
  note d = mpmc_live_okD [OF ok]
  note c = mpmc_call_one_Some [OF call]
  note laws = mpmc_call_laws [OF d(1) c] and st = mpmc_call_Some [OF c]
  note frame = call_frame [OF start_move [OF st(2)]]
  have "u = rt" if r: "rcall_of (threads s' u) \<noteq> None" for u
  proof (cases "u = t")
    case True
    then have "mpmc_role s' t = Receiving" using r unfolding rcall_view by (simp add: mpmc_role_def)
    then obtain b h where "op = ORecv b h" using laws(5) by (cases op) simp_all
    then have "t = rt" using call by (simp add: mpmc_call_one_def split: if_splits)
    then show ?thesis using True by simp
  next
    case False
    then show ?thesis using r frame(2) d(5) by simp
  qed
  then show "mpmc_live_ok rt s'" by (rule mpmc_live_step [OF ok st(3) laws(1)])
  show "mpmc_busy s' u = mpmc_busy s u" if "u \<noteq> t" using frame(2) [OF that] by (simp add: mpmc_busy_def)
  show "mpmc_agents s' = mpmc_agents s" by (simp add: mpmc_agents_def frame(1))
qed

lemma entry_handle: "scall_of (try_send_entry c d) = None \<or> scall_of (try_send_entry c d) = Some c"
  "rcall_of (try_send_entry c d) = None"
  by (simp_all add: try_send_entry_def Let_def)

lemma mpmc_busy_call:
  assumes "mpmc_call_one x86_64 rt t op s = Some s'" "op = OSend b h x \<or> op = ORecv b h"
  shows "mpmc_busy s' t = None \<or> mpmc_busy s' t = Some h"
proof -
  note st = mpmc_call_Some(2) [OF mpmc_call_one_Some [OF assms(1)]]
  from assms(2) show ?thesis
  proof
    assume "op = OSend b h x"
    then obtain bias where s': "s' = goto t (try_send_entry (SCall h bias b) (Item (Some x))) s"
      using st by (auto simp: start_def dest!: try_send_start_next split: option.splits if_splits)
    have b: "mpmc_busy s' t = handle_pc (try_send_entry (SCall h bias b) (Item (Some x)))" unfolding s' by (simp add: mpmc_busy_def)
    from entry_handle(1) [of "SCall h bias b" "Item (Some x)"] show ?thesis
    proof
      assume "scall_of (try_send_entry (SCall h bias b) (Item (Some x))) = None"
      then show ?thesis unfolding b by (simp add: handle_pc_def entry_handle(2))
    next
      assume "scall_of (try_send_entry (SCall h bias b) (Item (Some x))) = Some (SCall h bias b)"
      then show ?thesis unfolding b by (simp add: handle_pc_def)
    qed
  next
    assume "op = ORecv b h"
    then have "s' = goto t (ClaimAll (RCall h b)) s"
      using st by (auto simp: start_def split: if_splits)
    then show ?thesis by (simp add: mpmc_busy_def handle_pc_def)
  qed
qed

lemma mpmc_starts:
  assumes "mpmc_live_ok rt s" "t \<in> mpmc_agents s" "mpmc_reply s t \<noteq> Running"
  shows "mpmc_call x86_64 t op s = next_state (start t (mpmc_op op) s)"
proof -
  have "ready (threads s t)" using assms(3) by (simp add: mpmc_reply_def reply_running)
  then show ?thesis using assms(2) by (simp add: mpmc_call_def step_ready on_start_def mpmc_agents_def)
qed

lemma mpmc_handle_counts_small:
  assumes "mpmc_ok s" "card (mpmc_senders s) < 2 ^ 31"
  shows "\<not> num_senders s > u32_max div 2"
  using assms(2) handle_invD(2) [OF channel_invD(1) [OF mpmc_okD(1) [OF assms(1)]]]
  by (intro count_small) (simp add: mpmc_senders_def)

lemma mpmc_not_borrowed:
  assumes "\<And>u. mpmc_role s u = Sending \<Longrightarrow> mpmc_busy s u \<noteq> Some h"
  shows "\<not> borrowed_sender s h"
proof
  assume "borrowed_sender s h"
  then obtain u c where c: "scall_of (threads s u) = Some c" "sc_handle c = h" by (auto simp: borrowed_sender_def)
  then have "mpmc_role s u = Sending" by (cases "threads s u") (simp_all add: mpmc_role_def)
  then show False using assms [of u] c by (simp add: mpmc_busy_def handle_pc_calls)
qed

lemma mpmc_not_borrowed_receiver:
  assumes "\<And>u. mpmc_role s u = Receiving \<Longrightarrow> mpmc_busy s u \<noteq> Some h"
  shows "\<not> borrowed_receiver s h"
proof
  assume "borrowed_receiver s h"
  then obtain u c where c: "rcall_of (threads s u) = Some c" "rc_handle c = h" by (auto simp: borrowed_receiver_def)
  then have "mpmc_role s u = Receiving \<and> scall_of (threads s u) = None" by (cases "threads s u") (simp_all add: mpmc_role_def)
  then show False using assms [of u] c by (simp add: mpmc_busy_def handle_pc_calls)
qed

lemma mpmc_reply_role:
  assumes "mpmc_ok s" "mpmc_reply s t \<noteq> Running"
  shows "mpmc_role s t = Sending \<Longrightarrow> \<exists>x. mpmc_reply s t = Sent \<or> mpmc_reply s t = Rejected x \<or> mpmc_reply s t = Refused x"
    "mpmc_role s t = Receiving \<Longrightarrow> \<exists>vs. mpmc_reply s t = Got vs \<or> mpmc_reply s t = Closed \<or> mpmc_reply s t = NothingYet"
proof -
  have r: "ready (threads s t)" using assms(2) by (simp add: mpmc_reply_def reply_running)
  note single = mpmc_okD(3) [OF assms(1), of t]
  show "\<exists>x. mpmc_reply s t = Sent \<or> mpmc_reply s t = Rejected x \<or> mpmc_reply s t = Refused x" if "mpmc_role s t = Sending"
  proof (cases "threads s t")
    case (SendRet res)
    then show ?thesis using single by (cases res) (auto simp: mpmc_reply_def)
  qed (use r that in \<open>simp_all add: mpmc_role_def\<close>)
  show "\<exists>vs. mpmc_reply s t = Got vs \<or> mpmc_reply s t = Closed \<or> mpmc_reply s t = NothingYet" if "mpmc_role s t = Receiving"
  proof (cases "threads s t")
    case (RecvRet res)
    then show ?thesis by (cases res) (auto simp: mpmc_reply_def)
  qed (use r that in \<open>simp_all add: mpmc_role_def\<close>)
qed

lemma mpmc_quiet:
  assumes "\<And>u. mpmc_reply s u = Running \<Longrightarrow> mpmc_asleep s u"
  shows "ready (threads s w) \<or> recv_asleep (threads s w) \<or> send_asleep (threads s w)"
  using assms [of w] by (auto simp: mpmc_reply_def reply_running mpmc_asleep_def)

lemma asleep_roles:
  "recv_asleep (threads s t) \<Longrightarrow> mpmc_role s t = Receiving" "send_asleep (threads s t) \<Longrightarrow> mpmc_role s t = Sending"
  by (cases "threads s t"; simp add: mpmc_role_def)+

interpretation mlv: live_channel "mpmc_call_one x86_64 rt" "mpmc_internal x86_64" mpmc_reply mpmc_role "mpmc_live_ok rt"
  mpmc_inside mpmc_carried mpmc_gathered mpmc_senders receivers rt mpmc_busy mpmc_asleep mpmc_agents interrupts "\<lambda>_. False"
  for x86_64 :: bool and rt :: nat
proof (rule live_channel.intro, goal_cases)
  case 1
  show ?case
    by (rule channel_restrict [OF mch.channel_axioms])
      (auto dest: mpmc_live_okD(1) intro: mpmc_call_one_Some mpmc_live_call(1) mpmc_live_internal(1))
next
  case 2
  show ?case
  proof (rule live_channel_axioms.intro, goal_cases)
    case (1 s t)
    have "scall_of (threads s t) = None \<and> rcall_of (threads s t) = None"
      using 1(2) rcall_view [of "threads s t"] by (cases "threads s t") (auto simp: mpmc_reply_def mpmc_role_def)
    then show ?case by (simp add: mpmc_busy_def handle_pc_calls)
  next
    case 2 show ?case using mpmc_busy_call [OF 2(2)] by blast
  next
    case 3 show ?case using mpmc_busy_call [OF 3(2)] by blast
  next
    case 4 show ?case by (rule mpmc_live_call(2) [OF 4])
  next
    case 5 show ?case by (rule mpmc_live_internal(2) [OF 5])
  next
    case 6 show ?case by (rule mpmc_live_call(3) [OF 6])
  next
    case 7 show ?case by (rule mpmc_live_internal(3) [OF 7])
  next
    case (8 s t)
    have "\<not> n_threads s \<le> t"
      using 8(2) handle_invD(8) [OF channel_invD(1) [OF mpmc_live_okD(6) [OF 8(1)]], of t] by (auto simp: mpmc_reply_def)
    then show ?case by (simp add: mpmc_agents_def)
  next
    case 9 show ?case by (rule mpmc_reply_role(1) [OF mpmc_live_okD(1) [OF 9(1)] 9(2,3)])
  next
    case 10 show ?case by (rule mpmc_reply_role(2) [OF mpmc_live_okD(1) [OF 10(1)] 10(2,3)])
  next
    case 11
    then show ?case using mpmc_starts [OF 11(1,2,4)]
      by (auto simp: mpmc_call_one_def start_def mpmc_senders_def
          try_send_start_ok handle_invD(5) [OF channel_invD(1) [OF mpmc_live_okD(6) [OF 11(1)]]])
  next
    case 12
    then show ?case using mpmc_starts [OF 12(1,2,3)] by (auto simp: mpmc_call_one_def start_def)
  next
    case 13
    then show ?case using mpmc_starts [OF 13(1,2,4)] mpmc_handle_counts_small [OF mpmc_live_okD(1) [OF 13(1)] 13(7)]
      by (auto simp: mpmc_call_one_def start_def clone_sender_def mpmc_senders_def Let_def)
  next
    case 14
    then show ?case using mpmc_starts [OF 14(1,2,4)] mpmc_not_borrowed [OF 14(6)]
      by (auto simp: mpmc_call_one_def start_def drop_sender_def mpmc_senders_def Let_def)
  next
    case 15
    then show ?case using mpmc_starts [OF 15(1,2,3)] mpmc_not_borrowed_receiver [OF 15(5)]
      by (auto simp: mpmc_call_one_def start_def drop_receiver_def Let_def)
  next
    case (16 s t)
    have r: "\<not> ready (threads s t)" using 16(3) by (simp add: mpmc_reply_def reply_running)
    then have "t < n_threads s"
      using handle_invD(8) [OF channel_invD(1) [OF mpmc_live_okD(6) [OF 16(1)]], of t] by (cases "t < n_threads s") auto
    then show ?case
      using goes_on_step [OF mpmc_live_okD(6) [OF 16(1)] _ r 16(4), of x86_64] r
      by (auto simp: mpmc_internal_def next_state_Some)
  next
    case (17 s t)
    have "mpmc_reply s t = Running" using 17(2) by (cases "threads s t") (simp_all add: mpmc_asleep_def mpmc_reply_def)
    then show ?case using 17(2) asleep_roles [of s t] by (auto simp: mpmc_asleep_def)
  next
    case (18 s t)
    note d = mpmc_live_okD [OF 18(1)]
    have run: "ready (threads s w) \<or> recv_asleep (threads s w) \<or> send_asleep (threads s w)" for w
      using mpmc_quiet 18(2) by blast
    have t: "send_asleep (threads s t)" using 18(3,4) asleep_roles(1) [of s t] by (auto simp: mpmc_asleep_def)
    show ?case
    proof
      assume "mpmc_role s rt = Receiving"
      then have "recv_asleep (threads s rt)" using 18(6) asleep_roles(2) [of s rt] by (auto simp: mpmc_asleep_def)
      then show False using idle_not_both_asleep [OF d(6,2,3) run _ t] by blast
    qed
  next
    case (19 s)
    note d = mpmc_live_okD [OF 19(1)]
    have run: "ready (threads s w) \<or> recv_asleep (threads s w) \<or> send_asleep (threads s w)" for w
      using mpmc_quiet 19(2) by blast
    have "recv_asleep (threads s rt)" using 19(3,4) asleep_roles(2) [of s rt] by (auto simp: mpmc_asleep_def)
    then show ?case using idle_receiver_has_sender [OF d(6,4) run] by (auto simp: mpmc_senders_def)
  qed
qed

lemma mpmc_live_init: "mpmc_live_ok rt (mpmc m)"
proof -
  note r = reachable_init [of True m]
  show ?thesis
    using mpmc_ok_init [of m] reachable_sleep [OF r] reachable_accounted [OF r]
    by (simp add: mpmc_live_ok_def dead_woken_def) (simp add: mpmc_def)
qed

end
