(* ===== verification/Slot_Clients.thy ===== *)
theory Slot_Clients
  imports Slot_Safe Client_Tests
begin

text \<open>
  The slot of \<^verbatim>\<open>bags/src/slot.rs\<close> under its clients: with one thread that owns the receiver, its
  calls, its steps and its results are a \<open>channel\<close>.
\<close>

section \<open>Calls, results and values in hand\<close>

text \<open>Thread \<open>rt\<close> has the receiver, the others have senders; the receiver cannot be cloned.\<close>

fun slot_op :: "nat \<Rightarrow> nat \<Rightarrow> 'a chan_op \<Rightarrow> ('w, 'a) slot_action option" where
  "slot_op rt t (OSend b h x) = (if t = rt then None else Some (SStart t (if b then CSend h x else CTrySend h x)))"
| "slot_op rt t (ORecv b h) = (if t = rt \<and> h = 0 then Some (RStart (if b then CRecv else CTryRecv)) else None)"
| "slot_op rt t (OCloneSnd h h') = (if t = rt then None else Some (SStart t (CCloneSender h h')))"
| "slot_op rt t (ODropSnd h) = (if t = rt then None else Some (SStart t (CDropSender h)))"
| "slot_op rt t (OCloneRcv h h') = None"
| "slot_op rt t (ODropRcv h) = (if t = rt \<and> h = 0 then Some (RStart CDropReceiver) else None)"

fun slot_next_state :: "('w, 'a) slot_outcome \<Rightarrow> ('w, 'a) slot_sys option" where
  "slot_next_state (SNext s) = Some s"
| "slot_next_state _ = None"

definition slot_call :: "nat \<Rightarrow> nat \<Rightarrow> 'a chan_op \<Rightarrow> ('w::len word, 'a) slot_sys \<Rightarrow> ('w word, 'a) slot_sys option" where
  "slot_call rt t op s = (case slot_op rt t op of None \<Rightarrow> None | Some a \<Rightarrow> slot_next_state (slot_step a s))"

text \<open>The thread that makes a step, if it is one inside a call.\<close>

fun slot_actor :: "nat \<Rightarrow> ('w, 'a) slot_action \<Rightarrow> nat option" where
  "slot_actor rt (SStep t) = (if t = rt then None else Some t)"
| "slot_actor rt (SLoad t w) = (if t = rt then None else Some t)"
| "slot_actor rt (SWoken t b) = (if t = rt then None else Some t)"
| "slot_actor rt (SInterrupt t) = (if t = rt then None else Some t)"
| "slot_actor rt RStep = Some rt"
| "slot_actor rt (RLoaded k) = Some rt"
| "slot_actor rt (RWoken W) = Some rt"
| "slot_actor rt RInterrupt = Some rt"
| "slot_actor rt _ = None"

definition slot_internal :: "nat \<Rightarrow> nat \<Rightarrow> ('w::len word, 'a) slot_action \<Rightarrow> ('w word, 'a) slot_sys \<Rightarrow> ('w word, 'a) slot_sys option" where
  "slot_internal rt t a s = (if slot_actor rt a = Some t then slot_next_state (slot_step a s) else None)"

fun sender_reply :: "('w, 'a) sender_pc \<Rightarrow> 'a reply" where
  "sender_reply SIdle = Quiet"
| "sender_reply (SRet SlotSent) = Sent"
| "sender_reply (SRet (SlotDisconnected x)) = Rejected x"
| "sender_reply (SRet (SlotFull x)) = Refused x"
| "sender_reply _ = Running"

fun receiver_reply :: "'a receiver_pc \<Rightarrow> 'a reply" where
  "receiver_reply RIdle = Quiet"
| "receiver_reply RGone = Quiet"
| "receiver_reply (RRet (SlotGot x)) = Got [x]"
| "receiver_reply (RRet SlotClosed) = Closed"
| "receiver_reply (RRet SlotEmpty) = NothingYet"
| "receiver_reply _ = Running"

definition slot_reply :: "nat \<Rightarrow> ('w, 'a) slot_sys \<Rightarrow> nat \<Rightarrow> 'a reply" where
  "slot_reply rt s t = (if t = rt then receiver_reply (s_receiver s) else sender_reply (s_threads s t))"

fun sender_role :: "('w, 'a) sender_pc \<Rightarrow> role" where
  "sender_role SIdle = Neither"
| "sender_role SDead = Neither"
| "sender_role SDeadWake = Neither"
| "sender_role _ = Sending"

fun dropping :: "'a receiver_pc \<Rightarrow> bool" where
  "dropping RDead = True"
| "dropping RDeadWake = True"
| "dropping RGone = True"
| "dropping _ = False"

definition receiver_role :: "'a receiver_pc \<Rightarrow> role" where
  "receiver_role r = (if r = RIdle \<or> dropping r then Neither else Receiving)"

definition slot_role :: "nat \<Rightarrow> ('w, 'a) slot_sys \<Rightarrow> nat \<Rightarrow> role" where
  "slot_role rt s t = (if t = rt then receiver_role (s_receiver s) else sender_role (s_threads s t))"

definition cell :: "('w, 'a) slot_sys \<Rightarrow> 'a multiset" where
  "cell s = (case s_slot s of None \<Rightarrow> {#} | Some x \<Rightarrow> {#x#})"

definition slot_inside :: "('w, 'a) slot_sys \<Rightarrow> 'a multiset" where
  "slot_inside s = (if committed (s_recv s) then cell s else {#})"

fun carried_pc :: "'a multiset \<Rightarrow> ('w, 'a) sender_pc \<Rightarrow> 'a multiset" where
  "carried_pc b (SReserve h k x) = {#x#}"
| "carried_pc b (SFence h k x) = {#x#}"
| "carried_pc b (SWrite h k x) = {#x#}"
| "carried_pc b (SCommit h k) = b"
| "carried_pc b (SSpin h n x) = {#x#}"
| "carried_pc b (SSleep h w x) = {#x#}"
| "carried_pc b (SAsleep h x) = {#x#}"
| "carried_pc b (STorch h x) = {#x#}"
| "carried_pc b (SRet (SlotDisconnected x)) = {#x#}"
| "carried_pc b (SRet (SlotFull x)) = {#x#}"
| "carried_pc b _ = {#}"

fun gathered_pc :: "'a multiset \<Rightarrow> 'a receiver_pc \<Rightarrow> 'a multiset" where
  "gathered_pc b (RRead c) = b"
| "gathered_pc b (RFence c x) = {#x#}"
| "gathered_pc b (RPublish c x) = {#x#}"
| "gathered_pc b (RWakeSender c x) = {#x#}"
| "gathered_pc b (RRet (SlotGot x)) = {#x#}"
| "gathered_pc b _ = {#}"

definition slot_carried :: "nat \<Rightarrow> ('w, 'a) slot_sys \<Rightarrow> nat \<Rightarrow> 'a multiset" where
  "slot_carried rt s t = (if t = rt then {#} else carried_pc (cell s) (s_threads s t))"

definition slot_gathered :: "nat \<Rightarrow> ('w, 'a) slot_sys \<Rightarrow> nat \<Rightarrow> 'a multiset" where
  "slot_gathered rt s t = (if t = rt then gathered_pc (cell s) (s_receiver s) else {#})"

definition slot_receivers :: "('w, 'a) slot_sys \<Rightarrow> nat set" where
  "slot_receivers s = (if dropping (s_receiver s) then {} else {0})"

definition slot_ok :: "('w::len word, 'a) slot_sys \<Rightarrow> bool" where
  "slot_ok s \<longleftrightarrow> supported TYPE('w) \<and> slot_inv s \<and> s_dropped s = None"

lemmas slot_client_defs = slot_reply_def slot_role_def slot_carried_def slot_gathered_def slot_inside_def
  slot_receivers_def receiver_role_def cell_def

section \<open>A step and the client's view\<close>

definition slot_view :: "nat \<Rightarrow> ('w, 'a) slot_sys \<Rightarrow> nat \<Rightarrow> 'a reply \<times> role \<times> 'a multiset \<times> 'a multiset" where
  "slot_view rt s u = (slot_reply rt s u, slot_role rt s u, slot_carried rt s u, slot_gathered rt s u)"

definition slot_keeps :: "nat \<Rightarrow> nat \<Rightarrow> ('w::len word, 'a) slot_sys \<Rightarrow> ('w word, 'a) slot_sys \<Rightarrow> bool" where
  "slot_keeps rt t s s' \<longleftrightarrow> (\<forall>u. u \<noteq> t \<longrightarrow> slot_view rt s' u = slot_view rt s u) \<and>
     slot_reply rt s t = Running \<and> slot_role rt s' t = slot_role rt s t \<and>
     slot_inside s' + slot_carried rt s' t + slot_gathered rt s' t =
       slot_inside s + slot_carried rt s t + slot_gathered rt s t \<and>
     slot_inside s' \<subseteq># slot_inside s + slot_carried rt s t \<and>
     s_handles s' = s_handles s \<and> slot_receivers s' = slot_receivers s \<and> s_dropped s' = s_dropped s"

lemma wake_sender_view [simp]:
  "sender_reply (wake_sender_pc p) = sender_reply p" "sender_role (wake_sender_pc p) = sender_role p"
  "carried_pc b (wake_sender_pc p) = carried_pc b p"
  by (cases p; simp)+

lemma slot_keeps_sender:
  assumes "s' = s_goto t q s1" "t \<noteq> rt" "s_threads s1 = s_threads s" "s_slot s1 = s_slot s"
    "committed (s_recv s1) = committed (s_recv s)" "s_handles s1 = s_handles s" "s_dropped s1 = s_dropped s"
    "s_receiver s1 = s_receiver s \<or> s_receiver s = RAsleep \<and> s_receiver s1 = RLoad (Some 0)"
    "sender_reply (s_threads s t) = Running" "sender_role q = sender_role (s_threads s t)"
    "carried_pc (cell s) q = carried_pc (cell s) (s_threads s t)"
  shows "slot_keeps rt t s s'"
  using assms by (auto simp: slot_keeps_def slot_view_def slot_client_defs)

lemma slot_keeps_receiver:
  assumes "s' = r_goto q s1" "s_threads s1 = (\<lambda>u. if u \<in> W then wake_sender_pc (s_threads s u) else s_threads s u)"
    "s_slot s1 = s_slot s" "committed (s_recv s1) = committed (s_recv s)" "s_handles s1 = s_handles s"
    "s_dropped s1 = s_dropped s" "receiver_reply (s_receiver s) = Running" "receiver_role q = receiver_role (s_receiver s)"
    "dropping q = dropping (s_receiver s)" "gathered_pc (cell s) q = gathered_pc (cell s) (s_receiver s)"
  shows "slot_keeps rt rt s s'"
  using assms by (auto simp: slot_keeps_def slot_view_def slot_client_defs)

lemmas slot_keeps_receiver' = slot_keeps_receiver [where W = "{}"]

lemma keeps_spin:
  assumes "slot_spin_goto t h n d w s1 = SNext s'" "s_threads s t = SSpin h n d" "t \<noteq> rt"
    and "s1 = s \<or> s1 = s_rmw_send a w s"
  shows "slot_keeps rt t s s'"
proof -
  obtain q where s': "s' = s_goto t q s1" and q: "q = SReserve h True d \<or> q = SRet (SlotDisconnected d) \<or> q = SSleep h w d \<or> q = SSpin h (n - 1) d"
    using assms(1) by (auto simp: slot_spin_goto_def split: slot_spin.splits if_splits)
  show ?thesis by (rule slot_keeps_sender [OF s' assms(3)]) (use assms(2,4) q in auto)
qed

lemma not_holding_view:
  assumes "\<not> holding p"
  shows "carried_pc b p = carried_pc b' p"
  using assms by (cases "(b, p)" rule: carried_pc.cases) simp_all

lemma not_taking_view:
  assumes "\<not> taking r"
  shows "gathered_pc b r = gathered_pc b' r"
  using assms by (cases "(b, r)" rule: gathered_pc.cases) simp_all

lemma keeps_sender_step:
  fixes s :: "('w::len word, 'a) slot_sys"
  assumes st: "sender_step t s (s_threads s t) = SNext s'" and t: "t \<noteq> rt" and excl: "own_excl s"
  shows "slot_keeps rt t s s'"
proof (cases "s_threads s t")
  case (SReserve h b d)
  then obtain q where s': "s' = s_goto t q (s_rmw_send (sender_agent t) (slot_reserve_word (s_send s)) s)"
    and q: "q = SRet (SlotDisconnected d) \<or> q = SSpin h 32 d \<or> q = SRet (SlotFull d) \<or> q = SFence h b d"
    using st by (auto simp: slot_reserve_step_def Let_def split: slot_reserve.splits if_splits)
  show ?thesis by (rule slot_keeps_sender [OF s' t]) (use SReserve q in auto)
next
  case (SFence h b d)
  then have s': "s' = s_goto t (SWrite h b d) (s\<lparr>s_mem := fence_acquire (sender_agent t) (s_mem s)\<rparr>)" using st by (simp add: slot_fence_step_def)
  show ?thesis by (rule slot_keeps_sender [OF s' t]) (use SFence in auto)
next
  case (SWrite h b d)
  then have s': "s' = s_goto t (SCommit h b)
      (s\<lparr>s_slot := Some d, s_mem := access (sender_agent t) 0 (s_mem s), s_sent := s_sent s @ [d]\<rparr>)" and "s_slot s = None"
    using st by (auto simp: slot_write_step_def split: if_splits)
  have h: "holding (s_threads s t)" using SWrite by simp
  have "carried_pc {#d#} (s_threads s u) = carried_pc (cell s) (s_threads s u)" if "u \<noteq> t" for u
    using own_exclD(1) [OF excl h] that by (intro not_holding_view) blast
  moreover have "\<not> taking (s_receiver s)" "\<not> committed (s_recv s)" using own_exclD [OF excl] h by blast+
  ultimately show ?thesis
    unfolding slot_keeps_def s' slot_view_def using SWrite t
      not_taking_view [of "s_receiver s" "{#d#}" "cell s"]
    by (simp add: slot_client_defs)
next
  case (SCommit h b)
  then obtain q where s': "s' = s_goto t q (s_rmw_recv Release (sender_agent t) COMMIT s)"
    and q: "q = SWakeReceiver h b \<or> q = SRet SlotSent"
    using st by (auto simp: slot_commit_step_def Let_def)
  have "\<not> committed (s_recv s)" using own_exclD [OF excl] SCommit by (metis holding.simps(3))
  then show ?thesis
    unfolding slot_keeps_def s' slot_view_def using SCommit t q by (auto simp: slot_client_defs)
next
  case (SSpin h n d)
  then have "slot_spin_goto t h n d (s_send s OR SEND_SLEEPING) (s_rmw_send (sender_agent t) (s_send s OR SEND_SLEEPING) s) = SNext s'"
    using st by (auto simp: slot_spin_rmw_def Let_def split: if_splits)
  then show ?thesis using keeps_spin [OF _ SSpin t] by blast
next
  case (SSleep h w d)
  then have s': "s' = s_goto t (if wait_blocks (futex_half (s_send s)) (futex_half w) then SAsleep h d else STorch h d) (s)" using st by (simp add: slot_sleep_step_def)
  show ?thesis by (rule slot_keeps_sender [OF s' t]) (use SSleep in auto)
next
  case (STorch h d)
  then have s': "s' = s_goto t (SReserve h True d) (s_rmw_send (sender_agent t) (s_send s OR SEND_SLEEPING) s)" using st by (simp add: slot_torch_step_def)
  show ?thesis by (rule slot_keeps_sender [OF s' t]) (use STorch in auto)
next
  case SDead
  then have s': "s' = s_goto t (if contains (s_recv s) RECV_SLEEPING then SDeadWake else SIdle)
      (s_rmw_recv Relaxed (sender_agent t) (s_recv s OR SENDER_DEAD) s)"
    using st by (simp add: slot_sender_dead_step_def Let_def)
  show ?thesis by (rule slot_keeps_sender [OF s' t]) (use SDead in auto)
qed (use st in simp_all)

lemma keeps_receiver_step:
  fixes s :: "('w::len word, 'a) slot_sys"
  assumes st: "receiver_step s (s_receiver s) = SNext s'" and excl: "own_excl s"
  shows "slot_keeps rt rt s s'"
proof (cases "s_receiver s")
  case (RClear c)
  then have s': "s' = r_goto (RRead c) (s_rmw_recv Relaxed receiver_agent (s_recv s AND SENDER_DEAD) s)"
    using st by (simp add: slot_clear_step_def)
  have "committed (s_recv s)" using own_exclD(9) [OF excl] RClear by simp
  then show ?thesis
    unfolding slot_keeps_def s' slot_view_def using RClear by (simp add: slot_client_defs)
next
  case (RRead c)
  then obtain x where x: "s_slot s = Some x" and s': "s' = r_goto (RFence c x)
      (s\<lparr>s_slot := None, s_mem := access receiver_agent 0 (s_mem s), s_received := s_received s @ [x]\<rparr>)"
    using st by (auto simp: slot_read_step_def split: if_splits option.splits)
  have t: "taking (s_receiver s)" using RRead by simp
  then have "\<not> committed (s_recv s)" using own_exclD(7) [OF excl] by blast
  moreover have "carried_pc {#} (s_threads s u) = carried_pc (cell s) (s_threads s u)" for u
    using own_exclD(3) [OF excl] t by (intro not_holding_view) blast
  ultimately show ?thesis
    unfolding slot_keeps_def s' slot_view_def using RRead x by (simp add: slot_client_defs)
next
  case (RFence c v)
  then have s': "s' = r_goto (RPublish c v) (s\<lparr>s_mem := fence_release receiver_agent (s_mem s)\<rparr>)"
    using st by (simp add: slot_release_step_def)
  show ?thesis by (rule slot_keeps_receiver' [OF s']) (use RFence in \<open>auto simp: receiver_role_def\<close>)
next
  case (RPublish c v)
  then have s': "s' = r_goto (if contains (s_send s) SEND_SLEEPING then RWakeSender c v else RRet (SlotGot v))
      (s_rmw_send receiver_agent 0 s)"
    using st by (simp add: slot_publish_step_def Let_def)
  show ?thesis by (rule slot_keeps_receiver' [OF s']) (use RPublish in \<open>auto simp: receiver_role_def\<close>)
next
  case RAnnounce
  then have s': "s' = r_goto (if s_recv s \<noteq> 0 then RLoad (Some 0) else RSleep)
      (s_rmw_recv Relaxed receiver_agent (s_recv s OR RECV_SLEEPING) s)"
    using st by (simp add: slot_announce_step_def Let_def)
  show ?thesis by (rule slot_keeps_receiver' [OF s']) (use RAnnounce in \<open>auto simp: receiver_role_def\<close>)
next
  case RSleep
  then have s': "s' = r_goto (if wait_blocks (s_recv s) RECV_SLEEPING then RAsleep else RLoad (Some 0)) s"
    using st by (simp add: slot_recv_sleep_step_def)
  show ?thesis by (rule slot_keeps_receiver' [OF s']) (use RSleep in \<open>auto simp: receiver_role_def\<close>)
next
  case RDead
  then have s': "s' = r_goto (if contains (s_send s) SEND_SLEEPING then RDeadWake else RGone) (s_rmw_send receiver_agent RECEIVER_DEAD s)"
    using st by (simp add: slot_receiver_dead_step_def Let_def)
  show ?thesis by (rule slot_keeps_receiver' [OF s']) (use RDead in \<open>auto simp: receiver_role_def\<close>)
qed (use st in simp_all)

lemma slot_next_state_Some: "slot_next_state r = Some s \<longleftrightarrow> r = SNext s"
  by (cases r) auto

lemma keeps_wake_receiver:
  assumes "wake_receiver_step t n q woken s = SNext s'" "t \<noteq> rt"
    and "sender_reply (s_threads s t) = Running" "sender_role q = sender_role (s_threads s t)"
    and "carried_pc (cell s) q = carried_pc (cell s) (s_threads s t)"
  shows "slot_keeps rt t s s'"
proof -
  have al: "wake_allowed 1 (\<lambda>_. receiver_asleep (s_receiver s)) n (if woken then [0] else [])"
    and s': "s' = s_goto t q (wake_receiver woken s)"
    using assms(1) by (auto simp: wake_receiver_step_def split: if_splits)
  have "s_receiver s = RAsleep" if woken
    using al that by (auto simp: wake_allowed_def receiver_asleep_def split: receiver_pc.splits)
  then show ?thesis by (intro slot_keeps_sender [OF s' assms(2)]) (use assms(3-) in auto)
qed

lemma keeps_load:
  assumes "slot_load_step c k s = SNext s'" "s_receiver s = RLoad c"
  shows "slot_keeps rt rt s s'"
proof -
  obtain q m win where s': "s' = r_goto q (s\<lparr>s_window := win, s_mem := m\<rparr>)"
    and q: "q = RClear c \<or> q = RRet SlotClosed \<or> q = RRet SlotEmpty \<or> (\<exists>i. q = RLoad (Some i)) \<or> q = RAnnounce"
    using assms(1) by (auto simp: slot_load_step_def Let_def split: if_splits prod.splits option.splits)
  show ?thesis by (rule slot_keeps_receiver' [OF s']) (use assms(2) q in \<open>auto simp: receiver_role_def\<close>)
qed

lemma keeps_wake_senders:
  assumes "wake_senders_step n q W s = SNext s'"
    and "receiver_reply (s_receiver s) = Running" "receiver_role q = receiver_role (s_receiver s)"
    "dropping q = dropping (s_receiver s)" "gathered_pc (cell s) q = gathered_pc (cell s) (s_receiver s)"
  shows "slot_keeps rt rt s s'"
proof -
  have s': "s' = r_goto q (wake_senders W s)" using assms(1) by (auto simp: wake_senders_step_def split: if_splits)
  show ?thesis by (rule slot_keeps_receiver [where W = "set W", OF s']) (use assms(2-) in auto)
qed

lemma slot_internal_keeps:
  fixes s :: "('w::len word, 'a) slot_sys"
  assumes ok: "slot_ok s" and st: "slot_internal rt t a s = Some s'"
  shows "slot_keeps rt t s s'" "slot_ok s'"
proof -
  have excl: "own_excl s" and sup: "supported TYPE('w)" and inv: "slot_inv s" and live: "s_dropped s = None"
    using ok by (simp_all add: slot_ok_def slot_inv_def)
  have actor: "slot_actor rt a = Some t" and step: "slot_step a s = SNext s'"
    using st by (auto simp: slot_internal_def slot_next_state_Some split: if_splits)
  show keeps: "slot_keeps rt t s s'"
  proof (cases a)
    case (SStep u)
    then show ?thesis using step actor keeps_sender_step [OF _ _ excl] by (auto simp: slot_step_def split: if_splits)
  next
    case (SLoad u w)
    then obtain h n d where t: "s_threads s t = SSpin h n d" "slot_spin_load t h n d w s = SNext s'" "t \<noteq> rt"
      using step actor by (auto simp: slot_step_def split: if_splits sender_pc.splits)
    then have "slot_spin_goto t h n d w s = SNext s'" by (simp add: slot_spin_load_def split: if_splits)
    then show ?thesis using keeps_spin [OF _ t(1,3)] by blast
  next
    case (SWoken u woken)
    then show ?thesis using step actor
      by (auto simp: slot_step_def split: if_splits sender_pc.splits intro: keeps_wake_receiver)
  next
    case (SInterrupt u)
    then obtain h d where t: "s_threads s t = SAsleep h d" "s' = s_goto t (STorch h d) s" "t \<noteq> rt"
      using step actor by (auto simp: slot_step_def split: if_splits sender_pc.splits)
    show ?thesis by (rule slot_keeps_sender [OF t(2,3)]) (use t(1) in auto)
  next
    case RStep
    then show ?thesis using step actor keeps_receiver_step [OF _ excl] by (auto simp: slot_step_def)
  next
    case (RLoaded k)
    then show ?thesis using step actor keeps_load by (auto simp: slot_step_def split: receiver_pc.splits)
  next
    case (RWoken W)
    then show ?thesis using step actor
      by (auto simp: slot_step_def receiver_role_def split: receiver_pc.splits intro!: keeps_wake_senders)
  next
    case RInterrupt
    then have t: "s_receiver s = RAsleep" "s' = r_goto (RLoad (Some 0)) s" "t = rt"
      using step actor by (auto simp: slot_step_def split: receiver_pc.splits)
    show ?thesis unfolding t(3) by (rule slot_keeps_receiver' [OF t(2)]) (use t(1) in \<open>auto simp: receiver_role_def\<close>)
  qed (use actor in simp_all)
  show "slot_ok s'"
    using slot_inv_effect [OF sup slot_step_effect [OF sup step] inv] sup live keeps
    by (simp add: slot_ok_def slot_keeps_def)
qed

section \<open>The calls\<close>

lemma slot_call_Some:
  assumes "slot_call rt t op s = Some s'"
  obtains a where "slot_op rt t op = Some a" "slot_step a s = SNext s'"
  using assms by (auto simp: slot_call_def slot_next_state_Some split: option.splits)

lemma slot_view_call:
  assumes "slot_call rt t op s = Some s'"
  shows "(\<exists>q s1. t \<noteq> rt \<and> s' = s_goto t q s1 \<and> s_threads s1 = s_threads s \<and> s_receiver s1 = s_receiver s \<and>
      s_slot s1 = s_slot s \<and> s_recv s1 = s_recv s \<and> s_dropped s1 = s_dropped s \<and>
      (case op of
         OSend b h x \<Rightarrow> q = SReserve h b x \<and> s_handles s1 = s_handles s
       | OCloneSnd h h' \<Rightarrow> q = SIdle \<and> s_handles s1 = insert h' (s_handles s)
       | ODropSnd h \<Rightarrow> (q = SIdle \<or> q = SDead) \<and> s_handles s1 = s_handles s - {h}
       | _ \<Rightarrow> False)) \<or>
    (\<exists>q. t = rt \<and> s' = r_goto q s \<and> r_ready (s_receiver s) \<and>
      (case op of
         ORecv b h \<Rightarrow> q = RLoad None \<or> q = RLoad (Some 0)
       | ODropRcv h \<Rightarrow> q = RDead \<and> h = 0
       | _ \<Rightarrow> False))"
proof -
  obtain a where a: "slot_op rt t op = Some a" "slot_step a s = SNext s'" using assms by (rule slot_call_Some)
  show ?thesis
  proof (cases op)
    case (OSend b h x)
    then show ?thesis using a
      by (intro disjI1 exI [of _ "SReserve h b x"] exI [of _ s])
        (auto simp: slot_step_def slot_start_def split: if_splits)
  next
    case (ORecv b h)
    then show ?thesis using a by (auto simp: slot_step_def split: if_splits)
  next
    case (OCloneSnd h h')
    then show ?thesis using a
      by (intro disjI1 exI [of _ SIdle]
          exI [of _ "s\<lparr>s_num_senders := s_num_senders s + 1, s_handles := insert h' (s_handles s)\<rparr>"])
        (auto simp: slot_step_def slot_start_def slot_clone_sender_def split: if_splits)
  next
    case (ODropSnd h)
    then show ?thesis using a
      by (intro disjI1 exI [of _ "if s_num_senders s > 1 then SIdle else SDead"]
          exI [of _ "s\<lparr>s_num_senders := s_num_senders s - 1, s_handles := s_handles s - {h}\<rparr>"])
        (auto simp: slot_step_def slot_start_def slot_drop_sender_def Let_def split: if_splits)
  next
    case (OCloneRcv h h')
    then show ?thesis using a by simp
  next
    case (ODropRcv h)
    then show ?thesis using a by (auto simp: slot_step_def split: if_splits)
  qed
qed

lemma ready_not_dropping: "r_ready r \<Longrightarrow> \<not> dropping r"
  by (cases r) simp_all

lemma slot_call_laws:
  fixes s :: "('w::len word, 'a) slot_sys"
  assumes ok: "slot_ok s" and call: "slot_call rt t op s = Some s'"
  shows "slot_ok s'" "slot_inside s' = slot_inside s" "u \<noteq> t \<Longrightarrow> slot_view rt s' u = slot_view rt s u"
    "slot_gathered rt s' t = {#}"
    "case op of
       OSend b h x \<Rightarrow> slot_role rt s' t = Sending \<and> slot_carried rt s' t = {#x#} \<and> s_handles s' = s_handles s \<and>
         slot_receivers s' = slot_receivers s
     | ORecv b h \<Rightarrow> slot_role rt s' t = Receiving \<and> s_handles s' = s_handles s \<and> slot_receivers s' = slot_receivers s
     | OCloneSnd h h' \<Rightarrow> slot_role rt s' t = Neither \<and> s_handles s' = insert h' (s_handles s) \<and>
         slot_receivers s' = slot_receivers s
     | ODropSnd h \<Rightarrow> slot_role rt s' t = Neither \<and> s_handles s' = s_handles s - {h} \<and>
         slot_receivers s' = slot_receivers s
     | OCloneRcv h h' \<Rightarrow> False
     | ODropRcv h \<Rightarrow> slot_role rt s' t = Neither \<and> s_handles s' = s_handles s \<and>
         slot_receivers s' = slot_receivers s - {h}"
proof -
  have sup: "supported TYPE('w)" and inv: "slot_inv s" and live: "s_dropped s = None"
    using ok by (simp_all add: slot_ok_def)
  obtain a where "slot_step a s = SNext s'" using call by (rule slot_call_Some)
  then have inv': "slot_inv s'" using slot_inv_effect [OF sup slot_step_effect [OF sup] inv] by blast
  note v = slot_view_call [OF call]
  have "s_dropped s' = s_dropped s" using v by (elim disjE exE conjE) simp_all
  then show "slot_ok s'" using sup inv' live by (simp add: slot_ok_def)
  show "slot_inside s' = slot_inside s" using v by (elim disjE exE conjE) (simp_all add: slot_inside_def cell_def)
  show "slot_view rt s' u = slot_view rt s u" if "u \<noteq> t"
    using v that by (elim disjE exE conjE) (simp_all add: slot_view_def slot_client_defs)
  show "slot_gathered rt s' t = {#}"
    using v by (elim disjE exE conjE; cases op) (auto simp: slot_gathered_def)
  show "case op of
       OSend b h x \<Rightarrow> slot_role rt s' t = Sending \<and> slot_carried rt s' t = {#x#} \<and> s_handles s' = s_handles s \<and>
         slot_receivers s' = slot_receivers s
     | ORecv b h \<Rightarrow> slot_role rt s' t = Receiving \<and> s_handles s' = s_handles s \<and> slot_receivers s' = slot_receivers s
     | OCloneSnd h h' \<Rightarrow> slot_role rt s' t = Neither \<and> s_handles s' = insert h' (s_handles s) \<and>
         slot_receivers s' = slot_receivers s
     | ODropSnd h \<Rightarrow> slot_role rt s' t = Neither \<and> s_handles s' = s_handles s - {h} \<and>
         slot_receivers s' = slot_receivers s
     | OCloneRcv h h' \<Rightarrow> False
     | ODropRcv h \<Rightarrow> slot_role rt s' t = Neither \<and> s_handles s' = s_handles s \<and>
         slot_receivers s' = slot_receivers s - {h}"
    using v
  proof (elim disjE exE conjE)
    fix q s1
    assume s1: "t \<noteq> rt" "s' = s_goto t q s1" "s_threads s1 = s_threads s" "s_receiver s1 = s_receiver s"
      and op: "case op of
         OSend b h x \<Rightarrow> q = SReserve h b x \<and> s_handles s1 = s_handles s
       | OCloneSnd h h' \<Rightarrow> q = SIdle \<and> s_handles s1 = insert h' (s_handles s)
       | ODropSnd h \<Rightarrow> (q = SIdle \<or> q = SDead) \<and> s_handles s1 = s_handles s - {h}
       | _ \<Rightarrow> False"
    have r: "slot_receivers s' = slot_receivers s" unfolding s1(2) by (simp add: slot_receivers_def s1(4))
    have h: "s_handles s' = s_handles s1" unfolding s1(2) by simp
    have q: "slot_role rt s' t = sender_role q" "slot_carried rt s' t = carried_pc (cell s') q"
      unfolding s1(2) using s1(1) by (simp_all add: slot_role_def slot_carried_def)
    show ?thesis
      using op by (cases op; simp only: chan_op.case r h q; elim conjE disjE; simp)
  next
    fix q
    assume s1: "t = rt" "s' = r_goto q s" "r_ready (s_receiver s)"
      and op: "case op of
         ORecv b h \<Rightarrow> q = RLoad None \<or> q = RLoad (Some 0)
       | ODropRcv h \<Rightarrow> q = RDead \<and> h = 0
       | _ \<Rightarrow> False"
    show ?thesis using op s1 ready_not_dropping [of "s_receiver s"]
      by (cases op) (auto simp: slot_role_def slot_receivers_def receiver_role_def)
  qed
qed

section \<open>The slot is a channel\<close>

lemma slot_view_eq:
  "slot_view rt s' u = slot_view rt s u \<Longrightarrow> slot_reply rt s' u = slot_reply rt s u \<and> slot_role rt s' u = slot_role rt s u \<and>
     slot_carried rt s' u = slot_carried rt s u \<and> slot_gathered rt s' u = slot_gathered rt s u"
  by (simp add: slot_view_def)

lemma slot_keepsD:
  assumes "slot_keeps rt t s s'"
  shows "u \<noteq> t \<Longrightarrow> slot_view rt s' u = slot_view rt s u"
    "slot_reply rt s t = Running \<and> slot_role rt s' t = slot_role rt s t \<and> s_handles s' = s_handles s \<and>
       slot_receivers s' = slot_receivers s"
    "slot_inside s' + slot_carried rt s' t + slot_gathered rt s' t =
       slot_inside s + slot_carried rt s t + slot_gathered rt s t"
    "slot_inside s' \<subseteq># slot_inside s + slot_carried rt s t"
  using assms by (simp_all add: slot_keeps_def)

lemma slot_role_values:
  "slot_role rt s t \<noteq> Sending \<Longrightarrow> slot_carried rt s t = {#}"
  "slot_role rt s t \<noteq> Receiving \<Longrightarrow> slot_gathered rt s t = {#}"
proof -
  show "slot_carried rt s t = {#}" if "slot_role rt s t \<noteq> Sending"
    using that by (cases "s_threads s t") (simp_all add: slot_role_def slot_carried_def split: if_splits)
  show "slot_gathered rt s t = {#}" if "slot_role rt s t \<noteq> Receiving"
    using that by (cases "s_receiver s") (simp_all add: slot_role_def slot_gathered_def receiver_role_def split: if_splits)
qed

lemma sender_replyD:
  "sender_reply p = Sent \<Longrightarrow> p = SRet SlotSent" "sender_reply p = Rejected x \<Longrightarrow> p = SRet (SlotDisconnected x)"
  "sender_reply p = Refused x \<Longrightarrow> p = SRet (SlotFull x)"
  "sender_reply p \<noteq> Got vs" "sender_reply p \<noteq> Closed" "sender_reply p \<noteq> NothingYet"
  by (cases p rule: sender_reply.cases; simp)+

lemma receiver_replyD:
  "receiver_reply r = Got vs \<Longrightarrow> \<exists>x. vs = [x] \<and> r = RRet (SlotGot x)" "receiver_reply r = Closed \<Longrightarrow> r = RRet SlotClosed"
  "receiver_reply r = NothingYet \<Longrightarrow> r = RRet SlotEmpty"
  "receiver_reply r \<noteq> Sent" "receiver_reply r \<noteq> Rejected x" "receiver_reply r \<noteq> Refused x"
  by (cases r rule: receiver_reply.cases; simp)+

lemma gone_dropping: "gone r \<Longrightarrow> dropping r"
  by (cases r) simp_all

lemma slot_reply_laws:
  assumes "slot_ok s"
  shows "slot_reply rt s t = Sent \<Longrightarrow> slot_role rt s t = Sending \<and> slot_carried rt s t = {#}"
    "slot_reply rt s t = Rejected x \<Longrightarrow> slot_role rt s t = Sending \<and> slot_receivers s = {}"
    "slot_reply rt s t = Refused x \<Longrightarrow> slot_role rt s t = Sending \<and> slot_carried rt s t = {#x#}"
    "slot_reply rt s t = Got vs \<Longrightarrow> slot_role rt s t = Receiving \<and> slot_gathered rt s t = mset vs"
    "slot_reply rt s t = Closed \<Longrightarrow> slot_role rt s t = Receiving \<and> slot_gathered rt s t = {#} \<and> s_handles s = {} \<and>
       slot_inside s = {#}"
    "slot_reply rt s t = NothingYet \<Longrightarrow> slot_role rt s t = Receiving \<and> slot_gathered rt s t = {#}"
proof -
  have closed: "own_closed s" using assms by (simp add: slot_ok_def slot_inv_def)
  show "slot_role rt s t = Sending \<and> slot_carried rt s t = {#}" if "slot_reply rt s t = Sent"
    using that sender_replyD(1) [of "s_threads s t"]
    by (auto simp: receiver_replyD(4-6) slot_client_defs split: if_splits)
  show "slot_role rt s t = Sending \<and> slot_receivers s = {}" if "slot_reply rt s t = Rejected x"
    using that sender_replyD(2) [of "s_threads s t" x] closed gone_dropping
    by (auto simp: receiver_replyD(5) slot_client_defs own_closed_def split: if_splits)
  show "slot_role rt s t = Sending \<and> slot_carried rt s t = {#x#}" if "slot_reply rt s t = Refused x"
    using that sender_replyD(3) [of "s_threads s t" x]
    by (auto simp: receiver_replyD(4-6) slot_client_defs split: if_splits)
  show "slot_role rt s t = Receiving \<and> slot_gathered rt s t = mset vs" if "slot_reply rt s t = Got vs"
    using that receiver_replyD(1) [of "s_receiver s" vs]
    by (auto simp: sender_replyD(4-6) slot_client_defs split: if_splits)
  show "slot_role rt s t = Receiving \<and> slot_gathered rt s t = {#} \<and> s_handles s = {} \<and> slot_inside s = {#}"
    if "slot_reply rt s t = Closed"
    using that receiver_replyD(2) [of "s_receiver s"] closed
    by (auto simp: sender_replyD(5) slot_client_defs own_closed_def split: if_splits)
  show "slot_role rt s t = Receiving \<and> slot_gathered rt s t = {#}" if "slot_reply rt s t = NothingYet"
    using that receiver_replyD(3) [of "s_receiver s"]
    by (auto simp: sender_replyD(4-6) slot_client_defs split: if_splits)
qed

interpretation sch: channel "slot_call rt" "slot_internal rt" "slot_reply rt" "slot_role rt" slot_ok slot_inside
  "slot_carried rt" "slot_gathered rt" s_handles slot_receivers for rt :: nat
proof (unfold_locales, goal_cases)
  case 1 then show ?case by (rule slot_call_laws(1))
next
  case 2 then show ?case by (rule slot_internal_keeps(2))
next
  case 3 show ?case by (rule slot_view_eq [OF slot_call_laws(3) [OF 3]])
next
  case 4 then show ?case by (rule slot_call_laws(2))
next
  case 5 show ?case using slot_call_laws(5) [OF 5] by simp
next
  case 6 show ?case using slot_call_laws(4,5) [OF 6] by simp
next
  case 7 show ?case using slot_call_laws(5) [OF 7] by simp
next
  case 8 show ?case using slot_call_laws(5) [OF 8] by simp
next
  case 9 show ?case using slot_call_laws(5) [OF 9] by simp
next
  case 10 show ?case using slot_call_laws(5) [OF 10] by simp
next
  case 11 show ?case by (rule slot_view_eq [OF slot_keepsD(1) [OF slot_internal_keeps(1) [OF 11(1,2)] 11(3)]])
next
  case 12 show ?case by (rule slot_keepsD(2) [OF slot_internal_keeps(1) [OF 12]])
next
  case 13 show ?case by (rule slot_keepsD(3) [OF slot_internal_keeps(1) [OF 13]])
next
  case 14 show ?case by (rule slot_keepsD(4) [OF slot_internal_keeps(1) [OF 14]])
next
  case 15 show ?case by (rule slot_role_values(1) [OF 15(2)])
next
  case 16 show ?case by (rule slot_role_values(2) [OF 16(2)])
next
  case 17 then show ?case by (rule slot_reply_laws(1))
next
  case 18 then show ?case by (rule slot_reply_laws(2))
next
  case 19 then show ?case by (rule slot_reply_laws(3))
next
  case 20 then show ?case by (rule slot_reply_laws(4))
next
  case 21 then show ?case by (rule slot_reply_laws(5))
next
  case 22 then show ?case by (rule slot_reply_laws(6))
qed

lemma slot_client_start:
  "supported TYPE('w::len) \<Longrightarrow> slot_ok (mpsc n :: ('w word, 'a) slot_sys)"
  "slot_inside (mpsc n) = {#}" "s_handles (mpsc n) = {0}" "slot_receivers (mpsc n) = {0}"
  "slot_reply rt (mpsc n) t \<noteq> Running"
proof -
  show "slot_ok (mpsc n :: ('w word, 'a) slot_sys)" if "supported TYPE('w)"
    using that slot_inv_init by (simp add: slot_ok_def) (simp add: mpsc_def)
qed (simp_all add: slot_client_defs mpsc_def)

end
