(* ===== verification/Slot_Live.thy ===== *)
theory Slot_Live
  imports Slot_Sleep Slot_Clients Client_Live
begin

text \<open>
  The slot is a \<open>live_channel\<close>: its calls can start, a call in progress can go on unless it sleeps, a
  sender and the receiver never both sleep with nobody running, and the receiver does not sleep on
  when the last sender is gone.  The 64-bit word counts the attempts to send; a count above
  \<^verbatim>\<open>ABORT\<close> aborts the process.
\<close>

section \<open>Who has the cell, who will try again, who tells of the end\<close>

fun reserving :: "('w, 'a) sender_pc \<Rightarrow> bool" where
  "reserving (SReserve h b d) = True"
| "reserving _ = False"

text \<open>A reservation belongs to a sender that writes, to a value that is committed or to the receiver that
  takes it; where somebody announced a sleep on a free cell, somebody tries to reserve it; and when no
  sender is left the receiver has been told or is about to be.\<close>

definition slot_pending :: "('w::len word, 'a) slot_sys \<Rightarrow> bool" where
  "slot_pending s \<longleftrightarrow>
     (reserved (s_send s) \<and> \<not> send_dead (s_send s) \<longrightarrow>
        (\<exists>t. holding (s_threads s t)) \<or> committed (s_recv s) \<or> taking (s_receiver s)) \<and>
     (send_sleeping (s_send s) \<and> \<not> reserved (s_send s) \<and> \<not> send_dead (s_send s) \<longrightarrow>
        (\<exists>t. reserving (s_threads s t))) \<and>
     (s_handles s = {} \<longrightarrow> recv_dead (s_recv s) \<or> (\<exists>t. s_threads s t = SDead)) \<and> s_seen s \<noteq> []"

lemma slot_pendingD:
  assumes "slot_pending s"
  shows "reserved (s_send s) \<Longrightarrow> \<not> send_dead (s_send s) \<Longrightarrow>
      (\<exists>t. holding (s_threads s t)) \<or> committed (s_recv s) \<or> taking (s_receiver s)"
    "send_sleeping (s_send s) \<Longrightarrow> \<not> reserved (s_send s) \<Longrightarrow> \<not> send_dead (s_send s) \<Longrightarrow> \<exists>t. reserving (s_threads s t)"
    "s_handles s = {} \<Longrightarrow> recv_dead (s_recv s) \<or> (\<exists>t. s_threads s t = SDead)" "s_seen s \<noteq> []"
  using assms unfolding slot_pending_def by blast+

text \<open>Some thread has the property \<open>K\<close>; thread \<open>t\<close> moves on.\<close>

lemma goto_other:
  assumes "\<exists>u. K (s_threads s u)" "s_threads s' = s_threads s" "K (s_threads s t) \<Longrightarrow> K q \<or> C"
  shows "(\<exists>u. K (s_threads (s_goto t q s') u)) \<or> C"
proof -
  obtain u where u: "K (s_threads s u)" using assms(1) by blast
  show ?thesis
  proof (cases "u = t")
    case True
    then have "K (s_threads (s_goto t q s') t) \<or> C" using assms(3) u by simp
    then show ?thesis by blast
  next
    case False
    then have "K (s_threads (s_goto t q s') u)" using u assms(2) by simp
    then show ?thesis by blast
  qed
qed

lemma goto_self:
  assumes "K q"
  shows "\<exists>u. K (s_threads (s_goto t q s) u)"
  by (rule exI [of _ t]) (simp add: assms)

lemma slot_pending_goto:
  fixes s s' :: "('w::len word, 'a) slot_sys"
  assumes inv: "slot_pending s" and th: "s_threads s' = s_threads s" and seen: "s_seen s' = s_seen s \<or> s_seen s' \<noteq> []"
    and rc: "taking (s_receiver s') = taking (s_receiver s)"
    and h: "holding (s_threads s t) \<Longrightarrow> holding q \<or> committed (s_recv s')"
    and c: "committed (s_recv s) \<Longrightarrow> committed (s_recv s')"
    and w: "reserved (s_send s') \<Longrightarrow> \<not> send_dead (s_send s') \<Longrightarrow>
      reserved (s_send s) \<and> \<not> send_dead (s_send s) \<or> holding q"
    and sl: "send_sleeping (s_send s') \<Longrightarrow> \<not> reserved (s_send s') \<Longrightarrow> \<not> send_dead (s_send s') \<Longrightarrow>
      reserving q \<or> send_sleeping (s_send s) \<and> \<not> reserved (s_send s) \<and> \<not> send_dead (s_send s) \<and> \<not> reserving (s_threads s t)"
    and r: "recv_dead (s_recv s) \<Longrightarrow> s_handles s = {} \<Longrightarrow> recv_dead (s_recv s')"
    and d: "s_threads s t = SDead \<Longrightarrow> recv_dead (s_recv s')"
    and e: "s_handles s' = {} \<Longrightarrow> s_handles s = {} \<or> q = SDead"
  shows "slot_pending (s_goto t q s')"
proof -
  note p = slot_pendingD [OF inv]
  have "(\<exists>u. holding (s_threads (s_goto t q s') u)) \<or> committed (s_recv s') \<or> taking (s_receiver s')"
    if a: "reserved (s_send s')" "\<not> send_dead (s_send s')"
  proof (cases "holding q")
    case False
    then have "(\<exists>t. holding (s_threads s t)) \<or> committed (s_recv s) \<or> taking (s_receiver s)" using p(1) w [OF a] by blast
    then show ?thesis
      using goto_other [where K = holding and t = t and q = q and C = "committed (s_recv s')", OF _ th h] c rc by blast
  qed (use goto_self [of holding] in blast)
  moreover have "\<exists>u. reserving (s_threads (s_goto t q s') u)"
    if a: "send_sleeping (s_send s')" "\<not> reserved (s_send s')" "\<not> send_dead (s_send s')"
  proof (cases "reserving q")
    case False
    then have o: "\<exists>u. reserving (s_threads s u)" "\<not> reserving (s_threads s t)" using p(2) sl [OF a] by blast+
    then show ?thesis
      using goto_other [where K = reserving and t = t and q = q and C = False, OF o(1) th] by blast
  qed (use goto_self [of reserving] in blast)
  moreover have "recv_dead (s_recv s') \<or> (\<exists>u. s_threads (s_goto t q s') u = SDead)" if a: "s_handles s' = {}"
  proof (cases "q = SDead")
    case False
    then have "recv_dead (s_recv s') \<or> (\<exists>u. s_threads s u = SDead)" using p(3) e [OF a] r by blast
    then show ?thesis
      using goto_other [where K = "\<lambda>p. p = SDead" and t = t and q = q and C = "recv_dead (s_recv s')", OF _ th] d by blast
  qed (use goto_self [of "\<lambda>p. p = SDead"] in blast)
  moreover have "s_seen s' \<noteq> []" using seen p(4) by auto
  ultimately show ?thesis unfolding slot_pending_def by simp
qed

lemma s_ready_pending: "s_ready p \<Longrightarrow> \<not> holding p \<and> \<not> reserving p \<and> p \<noteq> SDead"
  by (cases p) simp_all

lemma slot_pending_sender_move:
  fixes s :: "('w::len word, 'a) slot_sys"
  assumes sup: "supported TYPE('w)" and st: "sender_move s s'" and inv: "slot_pending s" and han: "slot_handles s"
  shows "slot_pending s'"
  using st
proof cases
  case (e_call t p h b d)
  then show ?thesis using s_ready_pending [of p] by (auto intro!: slot_pending_goto [OF inv])
next
  case (e_clone t p h h')
  then show ?thesis using s_ready_pending [of p] by (auto intro!: slot_pending_goto [OF inv])
next
  case (e_drop t p h)
  have "\<not> s_num_senders s > 1" if "s_handles s - {h} = {}"
  proof -
    have "s_handles s = {h}" using that e_drop(5) by blast
    then show ?thesis unfolding handles_count(1) [OF han] by simp
  qed
  then show ?thesis unfolding e_drop(1) using e_drop(2,3) s_ready_pending [of p]
    by (intro slot_pending_goto [OF inv]) auto
next
  case (e_refused t h b d)
  then show ?thesis using slot_try_reserve_cases(1-3) [OF sup, of "s_send s"] by (auto intro!: slot_pending_goto [OF inv])
next
  case (e_busy t h b d)
  then show ?thesis using slot_try_reserve_cases(1-3) [OF sup, of "s_send s"] by (auto intro!: slot_pending_goto [OF inv])
next
  case (e_reserve t h b d)
  then show ?thesis using slot_try_reserve_cases(1-3) [OF sup, of "s_send s"] by (auto intro!: slot_pending_goto [OF inv])
next
  case (e_commit t h b)
  have "s_handles s \<noteq> {}" using han e_commit(2) by (auto simp: slot_handles_def dest: spec [of _ t])
  then show ?thesis using e_commit by (auto intro!: slot_pending_goto [OF inv])
qed (auto intro!: slot_pending_goto [OF inv])

lemma slot_pending_sender_wait:
  fixes s :: "('w::len word, 'a) slot_sys"
  assumes sup: "supported TYPE('w)" and st: "sender_wait s s'" and inv: "slot_pending s"
  shows "slot_pending s'"
  using st
proof cases
  case (e_wake_receiver t p h b q woken)
  then show ?thesis by (cases "s_receiver s") (auto intro!: slot_pending_goto [OF inv])
next
  case (e_spin t h n d s1 q w n')
  then show ?thesis using sup by (auto intro!: slot_pending_goto [OF inv])
next
  case (e_spin_dead t h n d s1 w)
  then show ?thesis using sup by (auto intro!: slot_pending_goto [OF inv])
next
  case (e_torch t h d)
  then show ?thesis using sup by (auto intro!: slot_pending_goto [OF inv])
next
  case (e_dead t)
  then show ?thesis by (auto intro!: slot_pending_goto [OF inv])
qed (auto intro!: slot_pending_goto [OF inv])

lemma slot_pending_receiver:
  assumes "slot_pending s" "s_threads s' = (\<lambda>u. if u \<in> W then wake_sender_pc (s_threads s u) else s_threads s u)"
    and "committed (s_recv s) \<or> taking (s_receiver s) \<Longrightarrow> committed (s_recv s') \<or> taking (s_receiver s')"
    and "s_send s' = s_send s" "s_seen s' = s_seen s" "s_handles s' = s_handles s" "recv_dead (s_recv s') = recv_dead (s_recv s)"
  shows "slot_pending s'"
proof -
  have k: "holding (s_threads s' u) = holding (s_threads s u)" "reserving (s_threads s' u) = reserving (s_threads s u)"
    "s_threads s' u = SDead \<longleftrightarrow> s_threads s u = SDead" for u
    unfolding assms(2) by (cases "s_threads s u"; simp)+
  show ?thesis using slot_pendingD [OF assms(1)] assms(3) unfolding slot_pending_def k assms(4-7) by blast
qed

lemmas slot_pending_receiver' = slot_pending_receiver [where W = "{}"]

lemma slot_pending_receiver_move:
  fixes s :: "('w::len word, 'a) slot_sys"
  assumes sup: "supported TYPE('w)" and st: "receiver_move s s'" and inv: "slot_pending s"
  shows "slot_pending s'"
  using st
proof cases
  case (e_recv_call q)
  then show ?thesis using ready_quiet(2) [of "s_receiver s"] by (intro slot_pending_receiver' [OF inv]) auto
next
  case (e_publish c x)
  then show ?thesis using slot_pendingD [OF inv] sup unfolding slot_pending_def by simp
qed (intro slot_pending_receiver' [OF inv]; auto)+

lemma slot_pending_receiver_wait:
  fixes s :: "('w::len word, 'a) slot_sys"
  assumes sup: "supported TYPE('w)" and st: "receiver_wait s s'" and inv: "slot_pending s"
  shows "slot_pending s'"
  using st
proof cases
  case (e_wake_senders r c x q k W)
  then show ?thesis by (intro slot_pending_receiver [where W = "set W", OF inv]) auto
next
  case e_recv_dead
  then show ?thesis using slot_pendingD [OF inv] sup unfolding slot_pending_def by simp
qed (intro slot_pending_receiver' [OF inv]; auto)+

lemma slot_pending_effect:
  fixes s :: "('w::len word, 'a) slot_sys"
  assumes sup: "supported TYPE('w)" and st: "slot_effect s s'" and inv: "slot_pending s" and han: "slot_handles s"
  shows "slot_pending s'"
  using st
proof cases
  case sender_moves
  then show ?thesis by (rule slot_pending_sender_move [OF sup _ inv han])
next
  case sender_waits
  then show ?thesis by (rule slot_pending_sender_wait [OF sup _ inv])
next
  case receiver_moves
  then show ?thesis by (rule slot_pending_receiver_move [OF sup _ inv])
next
  case receiver_waits
  then show ?thesis by (rule slot_pending_receiver_wait [OF sup _ inv])
next
  case slot_ends
  then show ?thesis by cases (intro slot_pending_receiver' [OF inv]; auto)+
qed

section \<open>Steps that are possible\<close>

fun slot_interrupts :: "('w, 'a) slot_action \<Rightarrow> bool" where
  "slot_interrupts (SInterrupt t) = True"
| "slot_interrupts RInterrupt = True"
| "slot_interrupts _ = False"

definition slot_asleep :: "nat \<Rightarrow> ('w, 'a) slot_sys \<Rightarrow> nat \<Rightarrow> bool" where
  "slot_asleep rt s t \<longleftrightarrow> (if t = rt then receiver_asleep (s_receiver s) else sender_asleep (s_threads s t))"

text \<open>The count of attempts that makes \<^verbatim>\<open>try_send\<close> abort.\<close>

definition slot_fatal :: "('w::len word, 'a) slot_sys \<Rightarrow> bool" where
  "slot_fatal s \<longleftrightarrow> is_x86_64 TYPE('w) \<and> reservations (s_send s) > ABORT"

text \<open>The steps that ask nothing of the environment.\<close>

fun plain_pc :: "('w, 'a) sender_pc \<Rightarrow> bool" where
  "plain_pc (SReserve h b d) = True"
| "plain_pc (SFence h b d) = True"
| "plain_pc (SWrite h b d) = True"
| "plain_pc (SCommit h b) = True"
| "plain_pc (SSpin h n d) = (n = 0)"
| "plain_pc (SSleep h w d) = True"
| "plain_pc (STorch h d) = True"
| "plain_pc SDead = True"
| "plain_pc _ = False"

lemma plain_possible:
  fixes s :: "('w::len word, 'a) slot_sys"
  assumes "plain_pc (s_threads s t)" "\<not> slot_fatal s" "\<forall>f. sender_step t s (s_threads s t) \<noteq> SFault f"
  shows "\<exists>s'. sender_step t s (s_threads s t) = SNext s'"
  using assms
  by (cases "s_threads s t")
    (auto simp: slot_reserve_step_def slot_fence_step_def slot_write_step_def slot_commit_step_def slot_spin_rmw_def
      slot_spin_goto_def slot_sleep_step_def slot_torch_step_def slot_sender_dead_step_def slot_try_reserve_def
      slot_fatal_def Let_def split: slot_reserve.splits slot_spin.splits if_splits)

lemma spin_possible:
  assumes "n \<noteq> 0"
  shows "\<exists>s'. slot_spin_goto t h n d w s = SNext s'"
  using assms by (auto simp: slot_spin_goto_def split: slot_spin.splits)

lemma wake_receiver_possible:
  assumes "u \<noteq> 0"
  shows "\<exists>s'. wake_receiver_step t u q (receiver_asleep (s_receiver s)) s = SNext s'"
proof -
  have "uint u \<noteq> 0" using assms by (simp add: uint_0_iff)
  then have "1 \<le> uint u" using uint_ge_0 [of u] by linarith
  then show ?thesis by (auto simp: wake_receiver_step_def wake_allowed_def)
qed

lemma wake_senders_possible: "\<exists>W s'. wake_senders_step u q W s = SNext s'"
  using wake_possible [of "s_n s" "\<lambda>t. sender_asleep (s_threads s t)" u] by (auto simp: wake_senders_step_def)

lemma receiver_possible:
  assumes "receiver_reply (s_receiver s) = Running" "s_receiver s \<noteq> RAsleep" "s_window s \<noteq> []"
    "\<forall>f. receiver_step s (s_receiver s) \<noteq> SFault f"
  shows "\<exists>a s'. \<not> slot_interrupts a \<and> slot_actor rt a = Some rt \<and> slot_step a s = SNext s'"
proof -
  have step: ?thesis if "\<exists>s'. receiver_step s (s_receiver s) = SNext s'"
    using that by (intro exI [of _ RStep]) (simp add: slot_step_def)
  show ?thesis
  proof (cases "s_receiver s")
    case (RLoad c)
    have "\<exists>s'. slot_step (RLoaded 0) s = SNext s'"
      using assms(3) RLoad by (auto simp: slot_step_def slot_load_step_def Let_def split: prod.splits)
    then show ?thesis by (intro exI [of _ "RLoaded 0"]) simp
  next
    case (RWakeSender c x)
    obtain W where "\<exists>s'. wake_senders_step 1 (RRet (SlotGot x)) W s = SNext s'" using wake_senders_possible by blast
    then show ?thesis using RWakeSender by (intro exI [of _ "RWoken W"]) (simp add: slot_step_def)
  next
    case RDeadWake
    obtain W where "\<exists>s'. wake_senders_step u32_max RGone W s = SNext s'" using wake_senders_possible by blast
    then show ?thesis using RDeadWake by (intro exI [of _ "RWoken W"]) (simp add: slot_step_def)
  next
    case (RRead c)
    then show ?thesis using assms(4) by (intro step) (auto simp: slot_read_step_def split: option.splits if_splits)
  next
    case (RRet r)
    then show ?thesis using assms(1) by (cases r) simp_all
  qed (rule step; use assms(1,2) in \<open>simp add: slot_clear_step_def slot_release_step_def slot_publish_step_def
      slot_announce_step_def slot_recv_sleep_step_def slot_receiver_dead_step_def Let_def\<close>)+
qed

lemma sender_possible:
  fixes s :: "('w::len word, 'a) slot_sys"
  assumes "sender_reply (s_threads s t) = Running" "\<not> sender_asleep (s_threads s t)" "s_seen s \<noteq> []" "t < s_n s" "t \<noteq> rt"
    "\<forall>f. sender_step t s (s_threads s t) \<noteq> SFault f" "\<not> slot_fatal s"
  shows "\<exists>a s'. \<not> slot_interrupts a \<and> slot_actor rt a = Some t \<and> slot_step a s = SNext s'"
proof (cases "plain_pc (s_threads s t)")
  case True
  then show ?thesis using plain_possible [OF True assms(7,6)] assms(4,5)
    by (intro exI [of _ "SStep t"]) (simp add: slot_step_def)
next
  case False
  show ?thesis
  proof (cases "s_threads s t")
    case (SWakeReceiver h b)
    have "\<exists>s'. wake_receiver_step t 1 (SRet SlotSent) (receiver_asleep (s_receiver s)) s = SNext s'"
      by (rule wake_receiver_possible) simp
    then show ?thesis using SWakeReceiver assms(4,5)
      by (intro exI [of _ "SWoken t (receiver_asleep (s_receiver s))"]) (simp add: slot_step_def)
  next
    case SDeadWake
    have "\<exists>s'. wake_receiver_step t u32_max SIdle (receiver_asleep (s_receiver s)) s = SNext s'"
      by (rule wake_receiver_possible) (rule u32_max_nonzero)
    then show ?thesis using SDeadWake assms(4,5)
      by (intro exI [of _ "SWoken t (receiver_asleep (s_receiver s))"]) (simp add: slot_step_def)
  next
    case (SSpin h n d)
    then have n: "n \<noteq> 0" using False by simp
    then obtain s' where s': "slot_spin_goto t h n d (hd (s_seen s)) s = SNext s'"
      using spin_possible [where t = t and h = h and n = n and d = d and w = "hd (s_seen s)" and s = s] n by blast
    have "hd (s_seen s) \<in> set (s_seen s)" by (rule hd_in_set [OF assms(3)])
    then have "slot_step (SLoad t (hd (s_seen s))) s = SNext s'"
      using SSpin n assms(4) s' by (simp add: slot_step_def slot_spin_load_def)
    moreover have "slot_actor rt (SLoad t (hd (s_seen s))) = Some t" using assms(5) by simp
    moreover have "\<not> slot_interrupts (SLoad t (hd (s_seen s)))" by simp
    ultimately show ?thesis by blast
  next
    case (SRet r)
    then show ?thesis using assms(1) by (cases r) simp_all
  qed (use False assms(1,2) in simp_all)
qed

section \<open>Who moves\<close>

fun slot_mover :: "('w, 'a) slot_action \<Rightarrow> nat option" where
  "slot_mover (SStart t k) = Some t"
| "slot_mover (SStep t) = Some t"
| "slot_mover (SLoad t w) = Some t"
| "slot_mover (SWoken t b) = Some t"
| "slot_mover (SInterrupt t) = Some t"
| "slot_mover _ = None"

lemma sender_step_moves:
  assumes "sender_step t s p = SNext s'" "s_threads s t = p"
  shows "s_n s' = s_n s" "u \<noteq> t \<Longrightarrow> s_threads s' u = s_threads s u"
    "s_handle (s_threads s' t) = None \<or> s_handle (s_threads s' t) = s_handle p"
  using assms
  by (cases p; auto simp: slot_reserve_step_def slot_fence_step_def slot_write_step_def slot_commit_step_def
      slot_spin_rmw_def slot_spin_goto_def slot_sleep_step_def slot_torch_step_def slot_sender_dead_step_def Let_def
      split: if_splits slot_reserve.splits slot_spin.splits)+

lemma start_moves:
  assumes "slot_start t k s = SNext s'"
  shows "s_n s' = s_n s" "u \<noteq> t \<Longrightarrow> s_threads s' u = s_threads s u"
  using assms
  by (auto simp: slot_start_def slot_clone_sender_def slot_drop_sender_def Let_def split: slot_call.splits if_splits)

lemma receiver_step_moves:
  assumes "receiver_step s r = SNext s'"
  shows "s_n s' = s_n s \<and> s_threads s' = s_threads s"
  using assms
  by (cases r) (auto simp: slot_clear_step_def slot_read_step_def slot_release_step_def slot_publish_step_def
      slot_announce_step_def slot_recv_sleep_step_def slot_receiver_dead_step_def Let_def split: if_splits option.splits)

lemma slot_step_moves:
  assumes "slot_step a s = SNext s'"
  shows "s_n s' = s_n s"
    "slot_mover a \<noteq> Some u \<Longrightarrow> s_threads s' u = s_threads s u \<or> s_threads s' u = wake_sender_pc (s_threads s u)"
    "(\<And>k. a \<noteq> SStart u k) \<Longrightarrow> s_handle (s_threads s' u) = None \<or> s_handle (s_threads s' u) = s_handle (s_threads s u)"
proof -
  have "s_n s' = s_n s \<and>
    (slot_mover a \<noteq> Some u \<longrightarrow> s_threads s' u = s_threads s u \<or> s_threads s' u = wake_sender_pc (s_threads s u)) \<and>
    ((\<forall>k. a \<noteq> SStart u k) \<longrightarrow> s_handle (s_threads s' u) = None \<or> s_handle (s_threads s' u) = s_handle (s_threads s u))"
  proof (cases a)
    case (SStart t k)
    then have st: "slot_start t k s = SNext s'" using assms by (simp add: slot_step_def split: if_splits)
    show ?thesis using start_moves [OF st] SStart by auto
  next
    case (SStep t)
    then have st: "sender_step t s (s_threads s t) = SNext s'" using assms by (simp add: slot_step_def split: if_splits)
    show ?thesis using sender_step_moves [OF st refl] SStep by (cases "u = t") auto
  next
    case (SLoad t w)
    then show ?thesis using assms
      by (auto simp: slot_step_def slot_spin_load_def slot_spin_goto_def split: if_splits sender_pc.splits slot_spin.splits)
  next
    case (SWoken t b)
    then show ?thesis using assms by (auto simp: slot_step_def wake_receiver_step_def split: if_splits sender_pc.splits)
  next
    case (SInterrupt t)
    then show ?thesis using assms by (auto simp: slot_step_def split: if_splits sender_pc.splits)
  next
    case (RStart k)
    then show ?thesis using assms by (auto simp: slot_step_def split: if_splits slot_recv_call.splits)
  next
    case RStep
    then show ?thesis using assms receiver_step_moves [of s "s_receiver s" s'] by (simp add: slot_step_def)
  next
    case (RLoaded k)
    then show ?thesis using assms
      by (auto simp: slot_step_def slot_load_step_def Let_def split: receiver_pc.splits if_splits prod.splits)
  next
    case (RWoken W)
    then show ?thesis using assms by (auto simp: slot_step_def wake_senders_step_def split: receiver_pc.splits if_splits)
  next
    case RInterrupt
    then show ?thesis using assms by (auto simp: slot_step_def split: receiver_pc.splits)
  next
    case DropSlot
    then show ?thesis using assms by (auto simp: slot_step_def drop_slot_inner_def Let_def split: if_splits option.splits)
  qed
  then show "s_n s' = s_n s"
    "slot_mover a \<noteq> Some u \<Longrightarrow> s_threads s' u = s_threads s u \<or> s_threads s' u = wake_sender_pc (s_threads s u)"
    "(\<And>k. a \<noteq> SStart u k) \<Longrightarrow> s_handle (s_threads s' u) = None \<or> s_handle (s_threads s' u) = s_handle (s_threads s u)"
    by blast+
qed

section \<open>One receiver\<close>

definition slot_live_ok :: "nat \<Rightarrow> ('w::len word, 'a) slot_sys \<Rightarrow> bool" where
  "slot_live_ok rt s \<longleftrightarrow> slot_ok s \<and> receiver_sleep s \<and> sender_sleep s \<and> slot_pending s \<and> s_threads s rt = SIdle"

definition slot_busy :: "nat \<Rightarrow> ('w, 'a) slot_sys \<Rightarrow> nat \<Rightarrow> nat option" where
  "slot_busy rt s t = (if t = rt then None else s_handle (s_threads s t))"

definition slot_agents :: "nat \<Rightarrow> ('w, 'a) slot_sys \<Rightarrow> nat set" where
  "slot_agents rt s = insert rt {..<s_n s}"

lemma slot_live_okD:
  fixes s :: "('w::len word, 'a) slot_sys"
  assumes "slot_live_ok rt s"
  shows "slot_ok s" "receiver_sleep s" "sender_sleep s" "slot_pending s" "s_threads s rt = SIdle"
    "supported TYPE('w)" "slot_inv s" "slot_handles s" "own_excl s" "own_views s"
  using assms by (simp_all add: slot_live_ok_def slot_ok_def slot_inv_def)

lemma slot_live_step:
  fixes s :: "('w::len word, 'a) slot_sys"
  assumes ok: "slot_live_ok rt s" and st: "slot_step a s = SNext s'" and ok': "slot_ok s'" and rt: "slot_mover a \<noteq> Some rt"
  shows "slot_live_ok rt s'"
proof -
  note d = slot_live_okD [OF ok]
  note e = slot_step_effect [OF d(6) st]
  have "s_threads s' rt = SIdle" using slot_step_moves(2) [OF st rt] d(5) by auto
  then show ?thesis
    using ok' receiver_sleep_effect [OF e d(2)] sender_sleep_effect [OF d(6) e d(3,8)] slot_pending_effect [OF d(6) e d(4,8)]
    by (simp add: slot_live_ok_def)
qed

lemma slot_op_mover: "slot_op rt t op = Some a \<Longrightarrow> slot_mover a = (if t = rt then None else Some t)"
  by (cases op) (auto split: if_splits)

lemma slot_actor_mover: "slot_actor rt a = Some t \<Longrightarrow> slot_mover a = (if t = rt then None else Some t) \<and> (\<forall>u k. a \<noteq> SStart u k)"
  by (cases a) (auto split: if_splits)

lemma slot_live_internal:
  fixes s :: "('w::len word, 'a) slot_sys"
  assumes ok: "slot_live_ok rt s" and st: "slot_internal rt t a s = Some s'"
  shows "slot_live_ok rt s'" "slot_busy rt s' u = None \<or> slot_busy rt s' u = slot_busy rt s u" "slot_agents rt s' = slot_agents rt s"
proof -
  have a: "slot_actor rt a = Some t" and step: "slot_step a s = SNext s'"
    using st by (auto simp: slot_internal_def slot_next_state_Some split: if_splits)
  note m = slot_actor_mover [OF a]
  show "slot_live_ok rt s'"
    by (rule slot_live_step [OF ok step slot_internal_keeps(2) [OF slot_live_okD(1) [OF ok] st]]) (use m in simp)
  show "slot_busy rt s' u = None \<or> slot_busy rt s' u = slot_busy rt s u"
    using slot_step_moves(3) [OF step, of u] m by (auto simp: slot_busy_def)
  show "slot_agents rt s' = slot_agents rt s" using slot_step_moves(1) [OF step] by (simp add: slot_agents_def)
qed

lemma slot_live_call:
  fixes s :: "('w::len word, 'a) slot_sys"
  assumes ok: "slot_live_ok rt s" and call: "slot_call rt t op s = Some s'"
  shows "slot_live_ok rt s'" "u \<noteq> t \<Longrightarrow> slot_busy rt s' u = slot_busy rt s u" "slot_agents rt s' = slot_agents rt s"
    "op = OSend b h x \<or> op = ORecv b h \<Longrightarrow> slot_busy rt s' t = None \<or> slot_busy rt s' t = Some h"
proof -
  obtain a where a: "slot_op rt t op = Some a" and step: "slot_step a s = SNext s'" using call by (rule slot_call_Some)
  note m = slot_op_mover [OF a]
  show "slot_live_ok rt s'"
    by (rule slot_live_step [OF ok step slot_call_laws(1) [OF slot_live_okD(1) [OF ok] call]]) (use m in simp)
  show "slot_busy rt s' u = slot_busy rt s u" if "u \<noteq> t"
  proof -
    have "slot_mover a \<noteq> Some u" using m that by simp
    from slot_step_moves(2) [OF step this] show ?thesis by (auto simp: slot_busy_def)
  qed
  show "slot_agents rt s' = slot_agents rt s" using slot_step_moves(1) [OF step] by (simp add: slot_agents_def)
  show "slot_busy rt s' t = None \<or> slot_busy rt s' t = Some h" if "op = OSend b h x \<or> op = ORecv b h"
    using slot_view_call [OF call] that by (auto simp: slot_busy_def)
qed

lemma slot_starts:
  assumes "slot_live_ok rt s" "t \<in> slot_agents rt s" "t \<noteq> rt" "slot_reply rt s t \<noteq> Running"
  shows "t < s_n s" "s_ready (s_threads s t)"
proof -
  show "t < s_n s" using assms(2,3) by (simp add: slot_agents_def)
  show "s_ready (s_threads s t)" using assms(3,4) by (cases "s_threads s t") (simp_all add: slot_reply_def)
qed

lemma slot_receiver_starts:
  assumes "slot_reply rt s rt \<noteq> Running" "h \<in> slot_receivers s"
  shows "r_ready (s_receiver s)" "h = 0"
  using assms by (cases "s_receiver s"; simp add: slot_reply_def slot_receivers_def)+

lemma slot_not_borrowed:
  assumes "slot_live_ok rt s" "\<And>u. slot_role rt s u = Sending \<Longrightarrow> slot_busy rt s u \<noteq> Some h"
  shows "\<not> s_borrowed s h"
proof
  assume "s_borrowed s h"
  then obtain u where u: "s_handle (s_threads s u) = Some h" by (auto simp: s_borrowed_def)
  then have "u \<noteq> rt" using slot_live_okD(5) [OF assms(1)] by auto
  moreover have "sender_role (s_threads s u) = Sending" using u by (cases "s_threads s u") simp_all
  ultimately show False using assms(2) [of u] u by (simp add: slot_role_def slot_busy_def)
qed

section \<open>When nobody runs\<close>

definition slot_quiet :: "nat \<Rightarrow> ('w, 'a) slot_sys \<Rightarrow> bool" where
  "slot_quiet rt s \<longleftrightarrow> (\<forall>u. slot_reply rt s u = Running \<longrightarrow> slot_asleep rt s u)"

lemma slot_quietD:
  assumes "slot_live_ok rt s" "slot_quiet rt s"
  shows "\<not> holding (s_threads s u)" "\<not> reserving (s_threads s u)" "\<not> waking (s_threads s u)" "\<not> torch (s_threads s u)"
    "s_threads s u \<noteq> SDead" "\<not> taking (s_receiver s)" "\<not> waking_senders (s_receiver s)"
proof -
  have "s_ready (s_threads s u) \<or> sender_asleep (s_threads s u)"
  proof (cases "u = rt")
    case False
    then have "sender_reply (s_threads s u) = Running \<Longrightarrow> sender_asleep (s_threads s u)"
      using assms(2) by (auto simp: slot_quiet_def slot_reply_def slot_asleep_def dest: spec [of _ u])
    then show ?thesis by (cases "s_threads s u") simp_all
  qed (use slot_live_okD(5) [OF assms(1)] in simp)
  then show "\<not> holding (s_threads s u)" "\<not> reserving (s_threads s u)" "\<not> waking (s_threads s u)" "\<not> torch (s_threads s u)"
    "s_threads s u \<noteq> SDead" by (cases "s_threads s u"; simp)+
  have "receiver_reply (s_receiver s) = Running \<Longrightarrow> receiver_asleep (s_receiver s)"
    using assms(2) by (auto simp: slot_quiet_def slot_reply_def slot_asleep_def dest: spec [of _ rt])
  then show "\<not> taking (s_receiver s)" "\<not> waking_senders (s_receiver s)" by (cases "s_receiver s"; simp)+
qed

lemma receiver_asleepD:
  assumes "receiver_asleep r"
  shows "r = RAsleep"
  using assms by (cases r) simp_all

lemma slot_not_both_asleep:
  fixes s :: "('w::len word, 'a) slot_sys"
  assumes ok: "slot_live_ok rt s" and q: "slot_quiet rt s" and r: "receiver_asleep (s_receiver s)"
    and t: "sender_asleep (s_threads s t)"
  shows False
proof -
  note d = slot_live_okD [OF ok] and quiet = slot_quietD [OF ok q]
  have ra: "s_receiver s = RAsleep" by (rule receiver_asleepD [OF r])
  have alive: "\<not> send_dead (s_send s)" unfolding own_exclD(13) [OF d(9)] ra by simp
  have "s_recv s = RECV_SLEEPING" using d(2) r quiet(3) unfolding receiver_sleep_def by blast
  then have "\<not> committed (s_recv s)" by simp
  then have free: "\<not> reserved (s_send s)" using slot_pendingD(1) [OF d(4) _ alive] quiet(1,6) by blast
  have "\<not> gone (s_receiver s)" unfolding ra by simp
  then have "send_sleeping (s_send s)" using d(3) t quiet(4,7) unfolding sender_sleep_def by blast
  then show False using slot_pendingD(2) [OF d(4) _ free alive] quiet(2) by blast
qed

lemma slot_receiver_not_alone:
  fixes s :: "('w::len word, 'a) slot_sys"
  assumes ok: "slot_live_ok rt s" and q: "slot_quiet rt s" and r: "receiver_asleep (s_receiver s)"
  shows "s_handles s \<noteq> {}"
proof
  note d = slot_live_okD [OF ok] and quiet = slot_quietD [OF ok q]
  assume "s_handles s = {}"
  then have "recv_dead (s_recv s)" using slot_pendingD(3) [OF d(4)] quiet(5) by blast
  moreover have "s_recv s = RECV_SLEEPING" using d(2) r quiet(3) unfolding receiver_sleep_def by blast
  ultimately show False by simp
qed

lemma slot_goes_on:
  fixes s :: "('w::len word, 'a) slot_sys"
  assumes ok: "slot_live_ok rt s" and nf: "\<not> slot_fatal s" and run: "slot_reply rt s t = Running" and aw: "\<not> slot_asleep rt s t"
  shows "\<exists>a s'. \<not> slot_interrupts a \<and> slot_internal rt t a s = Some s'"
proof -
  note d = slot_live_okD [OF ok]
  have "\<exists>a s'. \<not> slot_interrupts a \<and> slot_actor rt a = Some t \<and> slot_step a s = SNext s'"
  proof (cases "t = rt")
    case True
    have nf: "\<forall>f. receiver_step s (s_receiver s) \<noteq> SFault f"
      using slot_no_fault [OF d(6,7), of RStep] by (simp add: slot_step_def)
    have "s_receiver s \<noteq> RAsleep" using aw True by (auto simp: slot_asleep_def)
    then show ?thesis
      unfolding True using receiver_possible [OF _ _ _ nf] run True d(10) by (simp add: slot_reply_def own_views_def)
  next
    case False
    have run': "sender_reply (s_threads s t) = Running" "\<not> sender_asleep (s_threads s t)"
      using run aw False by (simp_all add: slot_reply_def slot_asleep_def)
    have t: "t < s_n s"
    proof (rule ccontr)
      assume "\<not> t < s_n s"
      then have "s_threads s t = SIdle" using d(8) by (simp add: slot_handles_def)
      then show False using run'(1) by simp
    qed
    have "\<forall>f. sender_step t s (s_threads s t) \<noteq> SFault f"
      using slot_no_fault [OF d(6,7), of "SStep t"] t by (simp add: slot_step_def)
    then show ?thesis by (rule sender_possible [OF run' slot_pendingD(4) [OF d(4)] t False _ nf])
  qed
  then show ?thesis by (auto simp: slot_internal_def slot_next_state_Some)
qed

section \<open>The slot is a live channel\<close>

interpretation slv: live_channel "slot_call rt" "slot_internal rt" "slot_reply rt" "slot_role rt" "slot_live_ok rt" slot_inside
  "slot_carried rt" "slot_gathered rt" s_handles slot_receivers rt "slot_busy rt" "slot_asleep rt" "slot_agents rt"
  slot_interrupts slot_fatal for rt :: nat
proof (rule live_channel.intro, goal_cases)
  case 1
  show ?case
    by (rule channel_restrict [OF sch.channel_axioms]) (auto dest: slot_live_okD(1) intro: slot_live_call(1) slot_live_internal(1))
next
  case 2
  show ?case
  proof (rule live_channel_axioms.intro, goal_cases)
    case (1 s t)
    then show ?case by (cases "t = rt"; cases "s_threads s t") (auto simp: slot_busy_def slot_reply_def slot_role_def)
  next
    case 2 show ?case using slot_live_call(4) [OF 2] by blast
  next
    case 3 show ?case using slot_live_call(4) [OF 3] by blast
  next
    case 4 show ?case by (rule slot_live_call(2) [OF 4])
  next
    case 5 show ?case by (rule slot_live_internal(2) [OF 5])
  next
    case 6 show ?case by (rule slot_live_call(3) [OF 6])
  next
    case 7 show ?case by (rule slot_live_internal(3) [OF 7])
  next
    case (8 s t)
    show ?case
    proof (rule ccontr)
      assume "t \<notin> slot_agents rt s"
      then have t: "t \<noteq> rt" "\<not> t < s_n s" by (auto simp: slot_agents_def)
      then have "s_threads s t = SIdle" using slot_live_okD(8) [OF 8(1)] by (simp add: slot_handles_def)
      then show False using 8(2) t(1) by (simp add: slot_reply_def)
    qed
  next
    case (9 s t)
    then show ?case by (cases "s_threads s t" rule: sender_reply.cases) (auto simp: slot_reply_def slot_role_def receiver_role_def split: if_splits)
  next
    case (10 s t)
    then show ?case
      by (cases "s_receiver s" rule: receiver_reply.cases; cases "s_threads s t")
        (auto simp: slot_reply_def slot_role_def receiver_role_def split: if_splits)
  next
    case 11
    then show ?case using slot_starts [OF 11(1-4)] by (simp add: slot_call_def slot_step_def slot_start_def)
  next
    case 12
    then show ?case using slot_receiver_starts [OF 12(3,4)] by (simp add: slot_call_def slot_step_def)
  next
    case (13 s t h h')
    have "unat (s_num_senders s) = card (s_handles s)"
      using slot_live_okD(8) [OF 13(1)] by (simp add: slot_handles_def unsigned_of_nat take_bit_nat_eq_self)
    then show ?case using 13 slot_starts [OF 13(1-4)] count_small [of "s_num_senders s"]
      by (simp add: slot_call_def slot_step_def slot_start_def slot_clone_sender_def)
  next
    case 14
    then show ?case using slot_starts [OF 14(1-4)] slot_not_borrowed [OF 14(1,6)]
      by (simp add: slot_call_def slot_step_def slot_start_def slot_drop_sender_def Let_def)
  next
    case 15
    then show ?case using slot_receiver_starts [OF 15(3,4)] by (simp add: slot_call_def slot_step_def)
  next
    case 16 then show ?case by (rule slot_goes_on)
  next
    case (17 s t)
    then show ?case
      by (cases "s_threads s t"; cases "s_receiver s")
        (auto simp: slot_asleep_def slot_reply_def slot_role_def receiver_role_def split: if_splits)
  next
    case (18 s t)
    have q: "slot_quiet rt s" using 18(2) by (simp add: slot_quiet_def)
    have "t \<noteq> rt" using 18(4) by (auto simp: slot_role_def receiver_role_def split: if_splits)
    then have "sender_asleep (s_threads s t)" "receiver_asleep (s_receiver s)" using 18(3,6) by (simp_all add: slot_asleep_def)
    then show ?case using slot_not_both_asleep [OF 18(1) q] by blast
  next
    case (19 s)
    have q: "slot_quiet rt s" using 19(2) by (simp add: slot_quiet_def)
    have "receiver_asleep (s_receiver s)" using 19(3) by (simp add: slot_asleep_def)
    then show ?case by (rule slot_receiver_not_alone [OF 19(1) q])
  qed
qed

lemma slot_live_init:
  assumes "supported TYPE('w::len)"
  shows "slot_live_ok rt (mpsc n :: ('w word, 'a) slot_sys)"
  using slot_client_start(1) [OF assms, of n] assms
  by (simp add: slot_live_ok_def) (simp add: mpsc_def receiver_sleep_def sender_sleep_def slot_pending_def)

end
