(* ===== verification/Client_Props.thy ===== *)
theory Client_Props
  imports Mpmc_Live Slot_Live
begin

text \<open>
  What every client of the two channels can rely on, and what the multi-threaded tests of the crate
  assert, for any number of threads and values and any interleaving.
\<close>

section \<open>Runs of a client\<close>

definition client_ends :: "('s, 'a) client option \<Rightarrow> (('s, 'a) client \<Rightarrow> bool) \<Rightarrow> bool" where
  "client_ends r Q = (case r of None \<Rightarrow> False | Some c \<Rightarrow> Q c)"

lemma client_endsE:
  assumes "client_ends (client_exec call internal reply poly ms c0) Q"
  obtains c where "client_reachable call internal reply poly c0 c" "Q c"
proof -
  obtain c where "client_exec call internal reply poly ms c0 = Some c" "Q c"
    using assms by (auto simp: client_ends_def split: option.splits)
  then show ?thesis using that client_exec_reachable [OF client_init] by blast
qed

text \<open>Where only one thread receives, \<open>mpmc_call_one\<close> is \<open>mpmc_call\<close>.\<close>

lemma one_step:
  assumes "\<And>t h p. t \<noteq> rt \<Longrightarrow> prog c t \<noteq> RecvAll h # p"
  shows "client_step (mpmc_call_one x86_64 rt) internal reply poly m c =
    client_step (mpmc_call x86_64) internal reply poly m c"
proof -
  have "client_begin (mpmc_call_one x86_64 rt) poly t i c = client_begin (mpmc_call x86_64) poly t i c"
    if p: "prog c t = i # p" for t i p
    using assms [of t _ p] p by (cases i) (auto simp: client_call_def client_now_def mpmc_call_one_def)
  then show ?thesis by (cases m) (auto split: list.splits)
qed

lemma fork_recvs:
  assumes "fork_ok rt P" "i \<in> set (P t)" "is_recv_all i"
  shows "t = rt"
proof (rule ccontr)
  assume n: "t \<noteq> rt"
  have m: "main_ok P p \<Longrightarrow> i \<in> set p \<Longrightarrow> False" for p
    using assms(3) by (induction P p rule: main_ok.induct) (auto simp: is_recv_all_def)
  have s: "sends_only p \<Longrightarrow> i \<in> set p \<Longrightarrow> False" for p :: "'a instr list"
    using assms(3) by (induction p rule: sends_only.induct) (auto simp: is_recv_all_def)
  show False using assms(1,2) n m s unfolding fork_ok_def by metis
qed

lemma one_reachable:
  assumes "client_reachable (mpmc_call x86_64) (mpmc_internal x86_64) mpmc_reply poly (client_start s P) c"
    and "fork_ok rt P"
  shows "client_reachable (mpmc_call_one x86_64 rt) (mpmc_internal x86_64) mpmc_reply poly (client_start s P) c"
    and "prog c t = RecvAll h # p \<Longrightarrow> t = rt"
proof -
  have recvs: "t = rt"
    if "client_reachable (mpmc_call x86_64) (mpmc_internal x86_64) mpmc_reply poly (client_start s P) c"
      "prog c t = RecvAll h # p" for c t h p
    using mch.client_recvs [OF that(1), of "RecvAll h" t] fork_recvs [OF assms(2), of "RecvAll h" t] that(2)
    by (simp add: is_recv_all_def)
  then show "prog c t = RecvAll h # p \<Longrightarrow> t = rt" using assms(1) by blast
  show "client_reachable (mpmc_call_one x86_64 rt) (mpmc_internal x86_64) mpmc_reply poly (client_start s P) c"
    using assms(1)
  proof induction
    case (client_next c m c')
    have "client_step (mpmc_call_one x86_64 rt) (mpmc_internal x86_64) mpmc_reply poly m c = Some c'"
      using client_next.hyps(2) one_step [of rt c x86_64] recvs [OF client_next.hyps(1)] by metis
    then show ?case using client_next.IH by (rule client_reachable.client_next [rotated])
  qed (rule client_init)
qed

section \<open>The bag\<close>

text \<open>One sender with one value, one receiver: the test run to its end.\<close>

lemma small_basic_test:
  "client_ok {..2} (basic_test 1 1)" "fork_ok 2 (basic_test 1 1)" "(\<Sum>t\<in>{..2}. prog_items (basic_test 1 1 t)) = {#0#}"
proof -
  have e: "basic_test 1 1 = basic_prog 1 [0]" by (simp add: basic_test_def)
  have two: "Suc 1 = 2" by simp
  show "client_ok {..2} (basic_test 1 1)" unfolding e by (rule basic_ok [of 1 "[0]", unfolded two])
  show "fork_ok 2 (basic_test 1 1)" unfolding e by (rule basic_forks [of 1 "[0]", unfolded two]) simp
  show "(\<Sum>t\<in>{..2}. prog_items (basic_test 1 1 t)) = {#0#}" unfolding e basic_items [of 1 "[0]", unfolded two] by simp
qed

definition mpmc_basic_run :: "nat action client_move list" where
  "mpmc_basic_run = replicate 4 (Go 0) @ [Go 1] @ replicate 5 (Inside 1 Step) @ [Go 1, Go 1, Inside 1 Step] @
     [Go 2] @ replicate 5 (Inside 2 Step) @ [Go 2, Go 2, Inside 2 Step, Go 2, Go 2, Inside 2 Step]"

lemma mpmc_basic_runs:
  "client_ends (client_exec (mpmc_call True) (mpmc_internal True) mpmc_reply False mpmc_basic_run
     (client_start (mpmc 3) (basic_test 1 1))) (\<lambda>c. acc c 2 = [0] \<and> prog c 0 = [] \<and> prog c 1 = [] \<and> prog c 2 = [])"
  by code_simp

lemma mpmc_basic_ends:
  obtains c where "client_reachable (mpmc_call True) (mpmc_internal True) mpmc_reply False
      (client_start (mpmc 3) (basic_test 1 1)) c"
    "acc c 2 = [0]" "prog c 0 = []" "prog c 1 = []" "prog c 2 = []"
  using client_endsE [OF mpmc_basic_runs] by blast

text \<open>C4: take threads whose programs clone handles, spawn each other, send values and unwrap the results,
  loop until they are told that the bag is closed, and drop handles, such that each handle is used and
  then dropped, once, by one thread, clones are made of the first handles, and some thread has a receiving loop.
  Then, blocking or polling and in any interleaving, no thread panics because a value was rejected, and when
  every receiving loop has ended the receivers have together collected exactly the values that the programs send.\<close>

theorem mpmc_client_delivers:
  assumes "client_reachable (mpmc_call x86_64) (mpmc_internal x86_64) mpmc_reply poly (client_start (mpmc m) P) c"
    and "client_ok T P"
  shows "panicked c = {} \<and> ((\<forall>t. \<forall>i\<in>set (prog c t). \<not> is_recv_all i) \<longrightarrow>
    (\<Sum>t\<in>T. mset (acc c t)) = (\<Sum>t\<in>T. prog_items (P t)))"
  using mch.client_delivers [OF assms mpmc_ok_init mpmc_start] by blast

lemma mpmc_client_delivers_witness:
  "\<exists>c. client_reachable (mpmc_call True) (mpmc_internal True) mpmc_reply False
     (client_start (mpmc 3) (basic_test 1 1)) c \<and> (\<Sum>t\<in>{..2}. mset (acc c t)) = {#0#}"
proof -
  obtain c where c: "client_reachable (mpmc_call True) (mpmc_internal True) mpmc_reply False
      (client_start (mpmc 3) (basic_test 1 1)) c" "prog c 0 = []" "prog c 1 = []" "prog c 2 = []"
    by (rule mpmc_basic_ends)
  have "\<not> is_recv_all i" if i: "i \<in> set (prog c t)" for t i
  proof
    assume r: "is_recv_all i"
    then have "i \<in> set (basic_test 1 1 t)" using mch.client_recvs [OF c(1) r i] by simp
    moreover have "prog c t \<noteq> []" using i by auto
    then have "t \<noteq> 0" "t \<noteq> 1" "t \<noteq> 2" using c(2-4) by metis+
    ultimately show False by (simp add: basic_test_def basic_prog_def)
  qed
  then have "(\<Sum>t\<in>{..2}. mset (acc c t)) = (\<Sum>t\<in>{..2}. prog_items (basic_test 1 1 t))"
    using mpmc_client_delivers [OF c(1) small_basic_test(1)] by blast
  then show ?thesis using c(1) small_basic_test(3) by metis
qed

lemma test_counts:
  assumes "mset vs = repeat_mset k (mset [0..<n])" "i < n"
  shows "count_list vs i = k"
proof -
  have "count (mset vs) i = k * count (mset [0..<n]) i" using assms(1) by simp
  also have "count (mset [0..<n]) i = 1" using assms(2) count_filter_upt [of "\<lambda>_. True" n i] by simp
  finally show ?thesis by (simp add: count_mset)
qed

text \<open>C6: the test \<^verbatim>\<open>basic\<close> holds for any number of senders and values: no \<^verbatim>\<open>unwrap\<close> panics,
  and when the receiving loop has ended it has counted every value once for each sender.\<close>

theorem mpmc_basic_test:
  assumes "client_reachable (mpmc_call x86_64) (mpmc_internal x86_64) mpmc_reply poly
      (client_start (mpmc m) (basic_test k n)) c"
  shows "panicked c = {} \<and> (RecvAll 0 \<notin> set (prog c (Suc k)) \<longrightarrow> (\<forall>i<n. count_list (acc c (Suc k)) i = k))"
proof -
  note d = mch.basic_delivers [OF assms [unfolded basic_test_def] mpmc_ok_init mpmc_start]
  show ?thesis using d test_counts by blast
qed

lemma mpmc_basic_test_witness:
  "\<exists>c. client_reachable (mpmc_call True) (mpmc_internal True) mpmc_reply False
     (client_start (mpmc 3) (basic_test 1 1)) c \<and> RecvAll 0 \<notin> set (prog c 2) \<and> count_list (acc c 2) 0 = 1"
proof -
  obtain c where c: "client_reachable (mpmc_call True) (mpmc_internal True) mpmc_reply False
      (client_start (mpmc 3) (basic_test 1 1)) c" "prog c 2 = []"
    by (rule mpmc_basic_ends)
  then show ?thesis using mpmc_basic_test [OF c(1)] by (intro exI [of _ c]) (simp add: numeral_2_eq_2)
qed

text \<open>C7: the test \<^verbatim>\<open>take_one_down_pass_it_around\<close> holds for any number of writers and readers: no
  \<^verbatim>\<open>unwrap\<close> panics, and when all reading loops have ended, what they have collected is, sorted, the
  numbers that were shared out among the writers.\<close>

theorem mpmc_pass_test:
  assumes "client_reachable (mpmc_call x86_64) (mpmc_internal x86_64) mpmc_reply poly
      (client_start (mpmc m) (pass_test k n)) c"
    and "0 < k"
  shows "panicked c = {} \<and> ((\<forall>j<k. RecvAll (Suc j) \<notin> set (prog c (2 * j + 2))) \<longrightarrow>
    sort (concat (map (\<lambda>j. acc c (2 * j + 2)) [0..<k])) = [0..<n])"
proof -
  note d = mch.pass_delivers [OF assms(1) [unfolded pass_test_def] assms(2) mpmc_ok_init mpmc_start]
  have "sort (concat (map (\<lambda>j. acc c (2 * j + 2)) [0..<k])) = [0..<n]"
    if r: "\<forall>j<k. RecvAll (Suc j) \<notin> set (prog c (2 * j + 2))"
  proof -
    have "mset (concat (map f [0..<k])) = (\<Sum>j<k. mset (f j))" for f :: "nat \<Rightarrow> nat list"
      by (induction k) (simp_all add: add.commute)
    then have "mset (concat (map (\<lambda>j. acc c (2 * j + 2)) [0..<k])) = mset [0..<n]"
      using d(2) [OF r] residues [OF assms(2), of n] by simp
    then show ?thesis by (metis properties_for_sort sorted_upt)
  qed
  then show ?thesis using d(1) by blast
qed

text \<open>One writer and one reader of two numbers, polling.\<close>

definition mpmc_pass_run :: "nat action client_move list" where
  "mpmc_pass_run = replicate 6 (Go 0) @ [Go 1] @ replicate 5 (Inside 1 Step) @ [Go 1, Go 1] @ replicate 6 (Inside 1 Step) @
     [Go 1, Go 1, Inside 1 Step] @
     [Go 2] @ replicate 6 (Inside 2 Step) @ [Go 2, Go 2, Inside 2 Step, Go 2, Go 2, Inside 2 Step]"

lemma mpmc_pass_runs:
  "client_ends (client_exec (mpmc_call True) (mpmc_internal True) mpmc_reply True mpmc_pass_run
     (client_start (mpmc 3) (pass_test 1 2))) (\<lambda>c. prog c 2 = [])"
  by code_simp

lemma mpmc_pass_test_witness:
  "\<exists>c. client_reachable (mpmc_call True) (mpmc_internal True) mpmc_reply True
     (client_start (mpmc 3) (pass_test 1 2)) c \<and> sort (acc c 2) = [0, 1]"
proof -
  obtain c where c: "client_reachable (mpmc_call True) (mpmc_internal True) mpmc_reply True
      (client_start (mpmc 3) (pass_test 1 2)) c" "prog c 2 = []"
    using client_endsE [OF mpmc_pass_runs] by blast
  then show ?thesis using mpmc_pass_test [OF c(1)] by (intro exI [of _ c]) (simp add: numeral_2_eq_2)
qed

text \<open>C5: senders that fork from one thread and one receiver that loops until the channel is closed, as
  the test \<^verbatim>\<open>basic\<close> has them, never get stuck: from every state they reach, blocking or polling,
  some thread can go on without a signal that interrupts a sleeping thread, until every program is
  finished and every call has returned.\<close>

theorem mpmc_client_never_stuck:
  assumes "client_reachable (mpmc_call x86_64) (mpmc_internal x86_64) mpmc_reply poly (client_start (mpmc m) P) c"
    and "fork_ok rt P" "client_ok {..<m} P"
  shows "can_move (mpmc_call x86_64) (mpmc_internal x86_64) mpmc_reply interrupts poly c \<or>
    (\<forall>t. prog c t = [] \<and> mpmc_reply (chan c) t \<noteq> Running)"
proof -
  note one = one_reachable [OF assms(1,2)]
  have live: "mpmc_live_ok rt (mpmc m)" by (rule mpmc_live_init)
  have "can_move (mpmc_call_one x86_64 rt) (mpmc_internal x86_64) mpmc_reply interrupts poly c \<or>
      (\<forall>t. prog c t = [] \<and> mpmc_reply (chan c) t \<noteq> Running)"
    using mlv.client_never_stuck [OF one(1) assms(2,3) _ live mpmc_start] by (simp add: mpmc_agents_def mpmc_def)
  moreover have "client_step (mpmc_call_one x86_64 rt) (mpmc_internal x86_64) mpmc_reply poly a c =
      client_step (mpmc_call x86_64) (mpmc_internal x86_64) mpmc_reply poly a c" for a
    by (rule one_step) (use one(2) in blast)
  ultimately show ?thesis by (simp add: can_move_def)
qed

lemma mpmc_client_never_stuck_witness:
  "\<exists>c. client_reachable (mpmc_call True) (mpmc_internal True) mpmc_reply False
     (client_start (mpmc 3) (basic_test 1 1)) c \<and> prog c 2 \<noteq> [] \<and>
     can_move (mpmc_call True) (mpmc_internal True) mpmc_reply interrupts False c"
proof -
  define c :: "(nat sys, nat) client" where "c = client_start (mpmc 3) (basic_test 1 1)"
  have r: "client_reachable (mpmc_call True) (mpmc_internal True) mpmc_reply False
      (client_start (mpmc 3) (basic_test 1 1)) c" unfolding c_def by (rule client_init)
  have p: "prog c 2 \<noteq> []" by (simp add: c_def client_start_def basic_test_def basic_prog_def receiver_prog_def)
  have "{..<3} = {..2::nat}" by auto
  then have ok: "client_ok {..<3} (basic_test 1 1)" using small_basic_test(1) by metis
  show ?thesis using mpmc_client_never_stuck [OF r small_basic_test(2) ok] r p by blast
qed

section \<open>Several blocking readers\<close>

text \<open>Both readers of \<^verbatim>\<open>take_one_down_pass_it_around\<close> go to sleep; a value wakes one of them, the
  last sender goes before it runs again, and the other one is not told.\<close>

definition mpmc_hang_run :: "nat action client_move list" where
  "mpmc_hang_run = replicate 10 (Go 0) @
     [Go 4, Inside 4 Step] @ replicate 32 (Inside 4 (Load 3)) @ [Inside 4 Step, Inside 4 Step] @
     [Go 2, Inside 2 Step, Inside 2 (Load 1), Inside 2 Step] @
     [Go 1] @ replicate 5 (Inside 1 Step) @ [Inside 1 (Woken [2]), Go 1, Go 1] @
     [Go 3, Inside 3 Step] @
     [Inside 2 Step] @ replicate 5 (Inside 2 Step) @ [Go 2, Go 2, Inside 2 Step, Go 2, Go 2]"

definition hangs_at :: "(nat sys, nat) client \<Rightarrow> nat \<Rightarrow> bool" where
  "hangs_at c u \<longleftrightarrow> u < n_threads (chan c) \<and> recv_asleep (threads (chan c) u) \<and> waiting c u \<and>
     list_all (\<lambda>t. t = u \<or> threads (chan c) t = Idle \<and> \<not> waiting c t \<and> prog c t = []) [0..<n_threads (chan c)]"

lemma mpmc_hangs:
  "client_ends (client_exec (mpmc_call True) (mpmc_internal True) mpmc_reply False mpmc_hang_run
     (client_start (mpmc 5) (pass_test 2 1))) (\<lambda>c. hangs_at c 4 \<and> n_threads (chan c) = 5 \<and> prog c 4 = [RecvAll 2, DropRcv 2])"
  by code_simp

lemma hangs_only_interrupt:
  assumes inv: "mch.client_inv T M c" and h: "hangs_at c u" and T: "T \<subseteq> {..<n_threads (chan c)}"
  shows "t \<noteq> u \<Longrightarrow> prog c t = [] \<and> mpmc_reply (chan c) t \<noteq> Running"
    and "client_step (mpmc_call x86_64) (mpmc_internal x86_64) mpmc_reply poly m c \<noteq> None \<Longrightarrow> m = Inside u Interrupt"
proof -
  have ok: "mpmc_ok (chan c)" by (rule mch.client_invD(1) [OF inv])
  obtain k where u: "threads (chan c) u = RecvAsleep k" "u < n_threads (chan c)" "waiting c u"
    using h by (cases "threads (chan c) u") (auto simp: hangs_at_def)
  have rest: "threads (chan c) t = Idle \<and> \<not> waiting c t \<and> prog c t = []" if "t \<noteq> u" for t
  proof (cases "t < n_threads (chan c)")
    case True
    then show ?thesis using h that by (auto simp: hangs_at_def list_all_iff)
  next
    case False
    then have "threads (chan c) t = Idle" using handle_invD(8) [OF channel_invD(1) [OF mpmc_okD(1) [OF ok]], of t] by simp
    moreover have "prog c t = []" using mch.client_invD(10) [OF inv] T False by blast
    ultimately show ?thesis using mch.client_invD(2) [OF inv, of t] by (auto simp: call_matches_def)
  qed
  show "t \<noteq> u \<Longrightarrow> prog c t = [] \<and> mpmc_reply (chan c) t \<noteq> Running" using rest by (simp add: mpmc_reply_def)
  assume st: "client_step (mpmc_call x86_64) (mpmc_internal x86_64) mpmc_reply poly m c \<noteq> None"
  show "m = Inside u Interrupt"
  proof (cases m)
    case (Go t)
    then show ?thesis using st u rest [of t] by (cases "t = u") (auto simp: mpmc_reply_def split: if_splits)
  next
    case (Inside t a)
    then have i: "mpmc_internal x86_64 t a (chan c) \<noteq> None" using st by simp
    have t: "t = u"
    proof (rule ccontr)
      assume "t \<noteq> u"
      then have "ready (threads (chan c) t)" using rest by simp
      then show False using i by (simp add: mpmc_internal_def)
    qed
    show ?thesis using i u unfolding Inside t
      by (cases a) (auto simp: mpmc_internal_def step_def on_interrupt_def)
  qed
qed

text \<open>C9: with several receivers that block, the test \<^verbatim>\<open>take_one_down_pass_it_around\<close> can hang: in a run of
  two writers and two readers over one number every thread but one reader finishes, the reader
  sleeps in \<^verbatim>\<open>recv\<close> although all senders are gone, and nothing but the interruption of its sleep
  can move the program.\<close>

theorem mpmc_pass_test_hangs:
  "\<exists>c. client_reachable (mpmc_call True) (mpmc_internal True) mpmc_reply False
       (client_start (mpmc 5) (pass_test 2 1)) c \<and>
     prog c 4 = [RecvAll 2, DropRcv 2] \<and> recv_asleep (threads (chan c) 4) \<and>
     (\<forall>t. t = 4 \<or> prog c t = [] \<and> mpmc_reply (chan c) t \<noteq> Running) \<and>
     (\<forall>m. client_step (mpmc_call True) (mpmc_internal True) mpmc_reply False m c \<in> {None} \<or> m = Inside 4 Interrupt)"
proof -
  obtain c where c: "client_reachable (mpmc_call True) (mpmc_internal True) mpmc_reply False
      (client_start (mpmc 5) (pass_test 2 1)) c" "hangs_at c 4" "n_threads (chan c) = 5" "prog c 4 = [RecvAll 2, DropRcv 2]"
    using client_endsE [OF mpmc_hangs] by blast
  have ok: "client_ok {..4} (pass_test 2 1)" using pass_ok [of 2 "\<lambda>j. filter (\<lambda>i. i mod 2 = j) [0..<1]"] by (simp add: pass_test_def)
  have inv: "mch.client_inv {..4} (\<Sum>t\<in>{..4}. prog_items (pass_test 2 1 t)) c"
    using c(1) by induction (use mch.client_inv_start [OF ok mpmc_ok_init mpmc_start] mch.client_inv_step in blast)+
  have T: "{..4} \<subseteq> {..<n_threads (chan c)}" using c(3) by auto
  note h = hangs_only_interrupt [OF inv c(2) T]
  show ?thesis
  proof (intro exI conjI allI)
    show "t = 4 \<or> prog c t = [] \<and> mpmc_reply (chan c) t \<noteq> Running" for t using h(1) by blast
    show "client_step (mpmc_call True) (mpmc_internal True) mpmc_reply False m c \<in> {None} \<or> m = Inside 4 Interrupt" for m
      using h(2) [of True False m] by blast
  qed (use c in \<open>simp_all add: hangs_at_def\<close>)
qed

section \<open>The slot\<close>

definition slot_basic_run :: "(32 word, nat) slot_action client_move list" where
  "slot_basic_run = replicate 4 (Go 0) @ [Go 1] @ replicate 4 (Inside 1 (SStep 1)) @ [Go 1, Go 1, Inside 1 (SStep 1)] @
     [Go 2, Inside 2 (RLoaded 0)] @ replicate 4 (Inside 2 RStep) @
     [Go 2, Go 2, Inside 2 (RLoaded 0), Go 2, Go 2, Inside 2 RStep]"

lemma slot_basic_runs:
  "client_ends (client_exec (slot_call 2) (slot_internal 2) (slot_reply 2) False slot_basic_run
     (client_start (mpsc 3) (basic_test 1 1))) (\<lambda>c. acc c 2 = [0] \<and> prog c 0 = [] \<and> prog c 1 = [] \<and> prog c 2 = [])"
  by code_simp

text \<open>C8: the test \<^verbatim>\<open>basic\<close> of the slot holds for any number of senders and values: no
  \<^verbatim>\<open>unwrap\<close> panics, and when the receiving loop has ended it has counted every value once for each sender.\<close>

theorem slot_basic_test:
  fixes c :: "(('w::len word, nat) slot_sys, nat) client"
  assumes "client_reachable (slot_call (Suc k)) (slot_internal (Suc k)) (slot_reply (Suc k)) poly
      (client_start (mpsc m) (basic_test k n)) c"
    and "supported TYPE('w)"
  shows "panicked c = {} \<and> (RecvAll 0 \<notin> set (prog c (Suc k)) \<longrightarrow> (\<forall>i<n. count_list (acc c (Suc k)) i = k))"
proof -
  note d = sch.basic_delivers [OF assms(1) [unfolded basic_test_def] slot_client_start(1) [OF assms(2)] slot_client_start(2-5)]
  show ?thesis using d test_counts by blast
qed

lemma slot_basic_test_witness:
  "\<exists>c. client_reachable (slot_call 2) (slot_internal 2) (slot_reply 2) False
     (client_start (mpsc 3 :: (32 word, nat) slot_sys) (basic_test 1 1)) c \<and> RecvAll 0 \<notin> set (prog c 2) \<and> count_list (acc c 2) 0 = 1"
proof -
  have two: "Suc 1 = 2" by simp
  obtain c where c: "client_reachable (slot_call 2) (slot_internal 2) (slot_reply 2) False
      (client_start (mpsc 3 :: (32 word, nat) slot_sys) (basic_test 1 1)) c" "prog c 2 = []"
    using client_endsE [OF slot_basic_runs] by blast
  have "supported TYPE(32)" by (simp add: supported_def)
  then show ?thesis using slot_basic_test [where k = 1, unfolded two, OF c(1)] c by (intro exI [of _ c]) simp
qed

text \<open>C32: threads that one main thread makes clones for and spawns, each of which sends and drops what it
  was given, and one receiver that loops until the slot is closed, never get stuck: in every state they reach, blocking or polling and at either width of the word, some thread
  can go on without a signal, until every program is finished and every call has returned, unless
  the 64-bit word has counted more attempts to send than \<^verbatim>\<open>ABORT\<close>, which aborts the process.\<close>

theorem slot_client_never_stuck:
  fixes c :: "(('w::len word, 'a) slot_sys, 'a) client"
  assumes "client_reachable (slot_call rt) (slot_internal rt) (slot_reply rt) poly (client_start (mpsc m) P) c"
    and "supported TYPE('w)" "fork_ok rt P" "client_ok (insert rt {..<m}) P"
  shows "can_move (slot_call rt) (slot_internal rt) (slot_reply rt) slot_interrupts poly c \<or> slot_fatal (chan c) \<or>
    (\<forall>t. prog c t = [] \<and> slot_reply rt (chan c) t \<noteq> Running)"
  using slv.client_never_stuck [OF assms(1,3,4) _ slot_live_init [OF assms(2)] slot_client_start(2-5)]
  by (simp add: slot_agents_def mpsc_def)

lemma slot_client_never_stuck_witness:
  "\<exists>c. client_reachable (slot_call 2) (slot_internal 2) (slot_reply 2) False
     (client_start (mpsc 3 :: (32 word, nat) slot_sys) (basic_test 1 1)) c \<and> prog c 2 \<noteq> [] \<and>
     can_move (slot_call 2) (slot_internal 2) (slot_reply 2) slot_interrupts False c"
proof -
  define c :: "((32 word, nat) slot_sys, nat) client" where "c = client_start (mpsc 3) (basic_test 1 1)"
  have r: "client_reachable (slot_call 2) (slot_internal 2) (slot_reply 2) False
      (client_start (mpsc 3) (basic_test 1 1)) c" unfolding c_def by (rule client_init)
  have p: "prog c 2 \<noteq> []" by (simp add: c_def client_start_def basic_test_def basic_prog_def receiver_prog_def)
  have nf: "\<not> slot_fatal (chan c)" by (simp add: slot_fatal_def is_x86_64_def)
  have "insert 2 {..<3} = {..2::nat}" by auto
  then have ok: "client_ok (insert 2 {..<3}) (basic_test 1 1)" using small_basic_test(1) by metis
  have "supported TYPE(32)" by (simp add: supported_def)
  then show ?thesis using slot_client_never_stuck [OF r _ small_basic_test(2) ok] nf r p by blast
qed

end
