(* ===== verification/Spec2Isabelle.thy ===== *)
theory Spec2Isabelle
  imports Mpmc_Props Vec_Props Executor Slot_Props Cache_Padded Client_Props
begin

text \<open>
  A verification development for the lockness crates: \<^verbatim>\<open>bags\<close> (two lock-free channels),
  \<^verbatim>\<open>vecs\<close> (a type-erased vector and a vector of closures) and \<^verbatim>\<open>executor\<close>.

  \<^bold>\<open>The program.\<close>  \<^verbatim>\<open>bags/src/mpmc.rs\<close> is a channel over 30 cells.  Two 32-bit words describe the
  cells: a sender takes free cells by setting their bits in \<^verbatim>\<open>send\<close>, writes its values and commits
  them by setting the bits in \<^verbatim>\<open>recv\<close>; a receiver takes every committed cell at once by clearing
  \<^verbatim>\<open>recv\<close>, reads the values and clears the bits in \<^verbatim>\<open>send\<close>.  The other two bits of each word
  announce sleepers (\<^verbatim>\<open>SLEEPING\<close>) and the end of the other side (\<^verbatim>\<open>COUNTERPARTY_DEAD\<close>).
  \<^verbatim>\<open>bags/src/slot.rs\<close> is the same idea with one cell and one receiver.  Both put threads to
  sleep with the futex helpers of \<^verbatim>\<open>bags/src/lib.rs\<close> and wrap their words in the padding of
  \<^verbatim>\<open>bags/src/cache_padded.rs\<close>.  \<^verbatim>\<open>vecs/src/freestanding_vec.rs\<close> is a vector behind one pointer,
  whose header carries user metadata and whose element type may change; \<^verbatim>\<open>vecs/src/closure_vec.rs\<close>
  stores closures in it, each followed by the function that runs or drops it.
  \<^verbatim>\<open>executor/src\<close> is an interface that is mostly unimplemented.

  \<^bold>\<open>The theories.\<close>
  \<^item> \<open>Prelude\<close>: machine integers, bit functions of the standard library, results, shared lemmas.
  \<^item> \<open>Memory\<close>: the memory model of both channels, as views (see below).
  \<^item> \<open>Futex\<close>: \<^verbatim>\<open>atomic_wake\<close>, \<^verbatim>\<open>atomic_sleep\<close>, \<^verbatim>\<open>u64_to_futex\<close>: which sleepers a wake call may
    wake and when a wait call blocks.
  \<^item> \<open>Request_Mask\<close>: the flags, \<^verbatim>\<open>compute_request_mask\<close>, \<^verbatim>\<open>clear_extra_bits\<close>, \<^verbatim>\<open>drain_mask\<close>, each with
    its meaning on the set of cells a word stands for.
  \<^item> \<open>Send_Buffer\<close>: the traits \<^verbatim>\<open>SendBuffer\<close> and \<^verbatim>\<open>SendBufferContainer\<close> as a locale, interpreted on
    its implementations for one item and for a vector; the array vector is a third-party type, whose
    \<open>len\<close> and \<open>pop\<close> are parameters.
  \<^item> \<open>Mpmc\<close>: the channel as a transition system.  \<open>Mpmc_Own\<close>, \<open>Mpmc_Steps\<close>, \<open>Mpmc_Effect\<close>:
    ownership of the cells, and the steps as five relations (calls; moves of a send; moves of a receive;
    spinning, sleeping and waking; the end of a side), which the later proofs use for case analysis.
    \<open>Mpmc_Wf\<close>, \<open>Mpmc_Inv\<close>, \<open>Mpmc_Handles\<close>, \<open>Mpmc_Death\<close>, \<open>Mpmc_Safe\<close>: the invariant (local
    variables, ownership, reference counts, disconnection) and the absence of faults.
    \<open>Mpmc_Refine\<close>: the abstract bag and the simulation.  \<open>Mpmc_Account\<close>: values and cells are conserved.
    \<open>Mpmc_Sleep\<close>, \<open>Mpmc_Disconnect\<close>: no lost wake-up, and where one is lost.  \<open>Mpmc_Solo\<close>: a call that runs
    alone.  \<open>Mpmc_History\<close>: the values that callers pass to and get from the channel over a run.
    \<open>Mpmc_Props\<close>: the properties, with concrete runs.
  \<^item> \<open>Slot\<close>: the slot as a transition system, for both widths of its word.  \<open>Slot_Words\<close>,
    \<open>Slot_Effect\<close>: its words by their flags, its steps as five relations.  \<open>Slot_Handles\<close>, \<open>Slot_Own\<close>,
    \<open>Slot_Know\<close>, \<open>Slot_Views\<close>, \<open>Slot_Safe\<close>, \<open>Slot_Sleep\<close>: the invariant, part by part.
    \<open>Slot_History\<close>: what callers observe over a run, in order.  \<open>Slot_Props\<close>: the properties.
  \<^item> \<open>Clients\<close>: threads that run programs (clone a handle, spawn a thread, send and unwrap, loop until the
    channel is closed, drop a handle) against a channel, with its blocking calls or with the polling loops
    \<^verbatim>\<open>send_polyfill\<close> and \<^verbatim>\<open>recv_polyfill\<close> of the tests.  \<open>Client_Channel\<close>: the locale
    \<open>channel\<close>, what a client relies on (values are neither lost nor made up; a value is refused for good only
    when no receiver is left, a receiver is told of the end only when no sender is left and nothing is inside), and what
    clients get from it.  \<open>Client_Tests\<close>: the tests \<^verbatim>\<open>basic\<close> and
    \<^verbatim>\<open>take_one_down_pass_it_around\<close> as programs.  \<open>Client_Forks\<close>, \<open>Client_Live\<close>: clients that
    fork from one thread and have one receiver, and the locale \<open>live_channel\<close>, which adds that calls can
    start and go on and that the two sides never both sleep; such clients never get stuck.
    \<open>Mpmc_Clients\<close>, \<open>Mpmc_Live\<close>, \<open>Slot_Clients\<close>, \<open>Slot_Live\<close>: the interpretations \<open>mch\<close>,
    \<open>mlv\<close>, \<open>sch\<close> and \<open>slv\<close> of the two locales on the two channels.  \<open>Client_Props\<close>: the properties.
  \<^item> \<open>Cache_Padded\<close>: the wrapper and its alignment per architecture.
  \<^item> \<open>Stack_Spec\<close>: last-in first-out containers as locales (poppable, and with a push).
    \<open>Free_Vec\<close>: \<^verbatim>\<open>FreestandingVec\<close> on a block of bytes; \<open>Free_Vec_Inv\<close>, \<open>Free_Vec_Ops\<close>,
    \<open>Free_Vec_Init\<close>: its invariant and what each operation does; \<open>Free_Vec_Stack\<close>: the interpretations of
    the two locales.  \<open>Closure_Vec\<close>: \<^verbatim>\<open>ClosureVec\<close>.  \<open>Vec_Props\<close>: the properties.
  \<^item> \<open>Executor\<close>: \<^verbatim>\<open>default_max_threads\<close>, and how \<^verbatim>\<open>JoinError\<close> prints a task's panic.

  \<^bold>\<open>How the channels are modelled.\<close>  A state is a record: the fields of \<^verbatim>\<open>Inner\<close>, the live handles, the
  program counter of every thread with its local variables, and logs of what was written to and read from
  the cells.  One step is one atomic operation, one access of a cell, one fence or one futex call; a step
  returns the next state, \<open>Disabled\<close> (not a move of this state), \<open>Aborted\<close> (the code aborts the process) or \<open>Fault\<close> (a
  data race, an uninitialised read, an overwritten value, a failed \<^verbatim>\<open>debug_assert!\<close> or \<^verbatim>\<open>unwrap\<close>; every debug assertion of the
  calls is in the model, at the point where the code has it).  Any thread
  may move at any time, so the theorems hold for every interleaving.  This is faithful to the weak
  orderings of the code for these reasons: every write to a word is a read-modify-write, so a word has one
  order of values and each such operation reads the latest; the plain loads are those of the spin loops and
  of the slot's receiver, which may return an older value (any value the word has had in the spin
  loops; in the slot's receiver, one that is not older than the last it saw); and whether an access of
  a cell is ordered after the previous one is not taken from the interleaving but from \<open>Memory\<close>, which
  tracks what acquire and release operations and fences make known.  A wait call that returns early, by a signal or
  for no reason, is a step of its own.  The slot's receiver is a single agent, since \<^verbatim>\<open>Receiver\<close> is not
  shared between threads.  Borrow checking appears as conditions on calls: a handle is dropped only when no
  call uses it, and storage is dropped only when no handle is left.

  \<^bold>\<open>How the vectors are modelled.\<close>  A vector is its pointer and, if it has one, its block: an address, a
  size, an alignment, the header and the bytes after it, each written or not.  Every use of the pointer that
  Rust leaves undefined is an error value.  What the allocator answers is an
  argument of the operations; \<open>alloc_ok\<close> states what an allocator promises (an address that holds
  no other block, is aligned and is not the dangling one), \<open>sized\<close> that sizes and alignments are those of a Rust type, and
  \<open>room\<close> that a growth stays within \<^verbatim>\<open>isize::MAX\<close>, which the code does not check.  Whether dropping the
  metadata panics, and what a closure does when it is run or dropped, are arguments as well.

  \<^bold>\<open>What is shown.\<close>  For the channel: no fault in any reachable state; a simulation by a bag to which a
  commit adds atomically and from which a receive takes everything, so every run linearises; conservation
  of the values passed to calls, read off the calls and their results over a run, and of the cells; disconnection exactly when the other side is gone; reference counts; no deadlock
  and no lost wake-up among live handles; what a lone \<^verbatim>\<open>try_send\<close> and \<^verbatim>\<open>try_recv\<close> do and return, within
  35 and 34 steps (a reservation that may be retried once, a fence, at most 30 writes, the end of the loop, the commit;
  likewise for the reads); and that the x86-64 and the portable instruction choices give the same word.  For the slot: no fault, first-in
  first-out delivery of the values that callers pass, read off a run in the same way, final disconnection, no lost wake-up while the receiver lives.
  For the clients: no value is rejected and what is sent is what the receiving loops collect, provided each handle is used and dropped
  by one thread; the assertions of the two tests hold; with one receiver nobody is stuck before every program has
  ended (on the slot, unless the 64-bit count of attempts passes \<^verbatim>\<open>ABORT\<close>, which ends the process), and
  with several receivers one can be left asleep (\<open>mpmc_pass_test_hangs\<close>).  For the vectors: any sequence of
  commands gives what a list gives, elements can be popped at another type of the same layout, memory is
  freed exactly once with the layout it was allocated with, each closure is consumed exactly once, in
  last-in first-out order.  Several theorems record where the code falls short:
  \<open>mpmc_receiver_abandoned\<close>, \<open>mpmc_pass_test_hangs\<close>, \<open>slot_sender_left_behind\<close>, \<open>drop_panic_aborts\<close>,
  \<open>block_at_dangling_address\<close> and \<open>unwound_init_dangles\<close>.

  \<^bold>\<open>Bounds.\<close>  No fuel is used: the loops are recursions on a mask, a list or a length, and the spin budget of 32
  is part of the state.  \<^verbatim>\<open>N\<close> is 30, the value \<^verbatim>\<open>mpmc()\<close> uses.  The arithmetic on \<^verbatim>\<open>usize\<close> is on
  64 bits; the counters of the channels are 32-bit words that wrap, as a release build computes them
  (the product in the bias of a clone panics in a debug build after some 600 million handles).

  \<^bold>\<open>Not modelled.\<close>  \<^verbatim>\<open>execute\<close>, \<^verbatim>\<open>spawn\<close> and the other scheduling entry points of the executor are
  \<^verbatim>\<open>todo!()\<close> or empty, and its builder is generated by a macro of another crate.  Of the tests, those
  named above are modelled; \<^verbatim>\<open>drops\<close>, \<^verbatim>\<open>drops_multi\<close>, \<^verbatim>\<open>ping_pong\<close>, the tests of the
  vectors and the benches are not.  The clients use and drop each handle in one
  thread, which is less than Rust allows.  The build files and the generated API
  listings carry no logic.
\<close>

end
